(* ===== verification/Prelude.thy ===== *)
theory Prelude
  imports Main "HOL-Library.Word" "HOL-Library.Multiset"
begin

text \<open>
  Shared vocabulary of the development: the widths of the C integer types the runtime
  uses, the outcome of a C function that can stop the program (\<open>BUG()\<close>, a failed
  assertion, an access outside an array), and generic facts on machine words, rings of a
  power-of-two size and lists that the component theories use.
\<close>

unbundle bit_operations_syntax

type_synonym u8 = "8 word"
type_synonym u16 = "16 word"
type_synonym u32 = "32 word"
type_synonym u64 = "64 word"

text \<open>Threads are named by the address of their \<open>struct thread\<close>.\<close>

type_synonym tid = nat

text \<open>Other addresses; 0 is the null pointer where a structure uses one.\<close>

type_synonym addr = nat

text \<open>
  \<open>fault\<close> lists the ways a modelled C function can fail to return:
  \<open>Bug_on\<close> is \<open>BUG()\<close>, \<open>BUG_ON\<close> and \<open>panic\<close>;
  \<open>Out_of_bounds\<close> is an access past the end of an array;
  \<open>Null_deref\<close> is a dereference of a null pointer.
\<close>

datatype fault = Bug_on | Out_of_bounds | Null_deref

type_synonym 'a exec = "fault + 'a"

definition bind_exec :: "'a exec \<Rightarrow> ('a \<Rightarrow> 'b exec) \<Rightarrow> 'b exec" where
  "bind_exec m f = (case m of Inl e \<Rightarrow> Inl e | Inr x \<Rightarrow> f x)"

named_theorems exec_simps \<open>evaluation of computations that may stop the program\<close>
named_theorems ring_simps \<open>indices into rings of a power-of-two size\<close>

lemma bind_exec_Inl [simp, exec_simps]: "bind_exec (Inl e) f = Inl e"
  by (simp add: bind_exec_def)

lemma bind_exec_Inr [simp, exec_simps]: "bind_exec (Inr x) f = f x"
  by (simp add: bind_exec_def)

lemma bind_exec_eq_Inr:
  "bind_exec m f = Inr y \<longleftrightarrow> (\<exists>x. m = Inr x \<and> f x = Inr y)"
  by (cases m) (auto simp: bind_exec_def)

subsection \<open>Powers of two and masks\<close>

lemma nat_and_pred_eq_0:
  "0 < n \<Longrightarrow> n AND (n - 1) = 0 \<Longrightarrow> \<exists>k. n = 2 ^ k" for n :: nat
proof (induction n rule: less_induct)
  case (less n)
  show ?case
  proof (cases "even n")
    case True
    then obtain m where n: "n = 2 * m" by (auto elim: evenE)
    with less.prems have m: "0 < m" by simp
    have "(n - 1) div 2 = m - 1" using n m by arith
    have "n AND (n - 1) = of_bool (odd n \<and> odd (n - 1)) + 2 * (n div 2 AND (n - 1) div 2)"
      by (rule and_rec)
    with less.prems(2) have "n div 2 AND (n - 1) div 2 = 0" by simp
    with n \<open>(n - 1) div 2 = m - 1\<close> have "m AND (m - 1) = 0" by simp
    with less.IH [of m] m n obtain k where "m = 2 ^ k" by auto
    with n have "n = 2 ^ Suc k" by simp
    then show ?thesis by blast
  next
    case False
    then obtain m where n: "n = 2 * m + 1" by (auto elim: oddE)
    then have "n div 2 = m" "(n - 1) div 2 = m" by simp_all
    have "n AND (n - 1) = of_bool (odd n \<and> odd (n - 1)) + 2 * (n div 2 AND (n - 1) div 2)"
      by (rule and_rec)
    with less.prems(2) have "n div 2 AND (n - 1) div 2 = 0" by simp
    with \<open>n div 2 = m\<close> \<open>(n - 1) div 2 = m\<close> have "m = 0" by simp
    with n have "n = 2 ^ 0" by simp
    then show ?thesis by blast
  qed
qed

lemma unat_word_and: "unat (x AND y) = unat x AND unat y"
  by (simp add: unsigned_and_eq)

lemma unat_power2: "k < LENGTH('a) \<Longrightarrow> unat (2 ^ k :: 'a::len word) = 2 ^ k"
proof -
  assume "k < LENGTH('a)"
  then have "(2::nat) ^ k < 2 ^ LENGTH('a)" by simp
  moreover have "(2 ^ k :: 'a word) = of_nat (2 ^ k)" by simp
  ultimately show ?thesis by (simp only: unat_of_nat mod_less)
qed

lemma word_and_pred_eq_0:
  fixes x :: "'a::len word"
  assumes "x \<noteq> 0" and "x AND (x - 1) = 0"
  shows "\<exists>k < LENGTH('a). x = 2 ^ k"
proof -
  have pos: "0 < unat x" using assms(1) by (simp add: unat_gt_0)
  have "unat x AND (unat x - 1) = 0"
    using arg_cong [OF assms(2), of unat] assms(1) by (simp add: unat_word_and unat_minus_one)
  with pos obtain k where k: "unat x = 2 ^ k" using nat_and_pred_eq_0 by blast
  have "unat x < 2 ^ LENGTH('a)" by (rule unsigned_less)
  with k have "2 ^ k < (2::nat) ^ LENGTH('a)" by simp
  then have lt: "k < LENGTH('a)" by simp
  then have "x = 2 ^ k" using k by (simp add: word_unat_eq_iff unat_power2)
  with lt show ?thesis by blast
qed

lemma word_power2_and_pred: "k < LENGTH('a) \<Longrightarrow> (2 ^ k :: 'a::len word) AND (2 ^ k - 1) = 0"
  by (rule bit_eqI) (auto simp: bit_simps mask_eq_exp_minus_1 [symmetric])

lemma unat_and_mask [ring_simps]:
  "unat (x AND (2 ^ k - 1)) = unat x mod 2 ^ k" for x :: "'a::len word"
proof -
  have "x AND (2 ^ k - 1) = take_bit k x"
    by (simp only: mask_eq_exp_minus_1 [symmetric] take_bit_eq_mask)
  then show ?thesis by (simp only: unsigned_take_bit_eq take_bit_nat_def)
qed

lemma and_power2_eq_0_iff [ring_simps]:
  "k < LENGTH('a) \<Longrightarrow> x AND 2 ^ k = 0 \<longleftrightarrow> \<not> bit x k" for x :: "'a::len word"
  by (metis and_exp_eq_0_iff_not_bit)

lemma unat_plus_mod_2k:
  assumes "k < 32" shows "unat (a + b :: u32) mod 2 ^ k = (unat a + unat b) mod 2 ^ k"
proof -
  have "(2::nat) ^ k dvd 2 ^ 32" using assms by (intro le_imp_power_dvd) simp
  then show ?thesis by (simp add: unat_word_ariths mod_mod_cancel del: power_numeral)
qed

end
