(* ===== verification/Stddef.thy ===== *)
theory Stddef
  imports Prelude
begin

text \<open>
  The base headers every other component rests on: the integer macros of
  \<open>inc/base/stddef.h\<close> (powers of two, alignment, wrap-around comparison of 32-bit
  counters), the atomic operations of \<open>inc/base/atomic.h\<close> and the reference counts of
  \<open>inc/base/kref.h\<close>. Macros are polymorphic in C; they are modelled on words of any
  length.
\<close>

subsection \<open>Powers of two and alignment\<close>

definition is_power_of_two :: "'a::len word \<Rightarrow> bool" where
  "is_power_of_two x \<longleftrightarrow> x \<noteq> 0 \<and> x AND (x - 1) = 0"

definition align_up :: "'a::len word \<Rightarrow> 'a word \<Rightarrow> 'a word" where
  "align_up x align = ((x - 1) OR (align - 1)) + 1"

definition align_down :: "'a::len word \<Rightarrow> 'a word \<Rightarrow> 'a word" where
  "align_down x align = x AND NOT (align - 1)"

definition div_up :: "'a::len word \<Rightarrow> 'a word \<Rightarrow> 'a word" where
  "div_up x d = (x + d - 1) div d"

lemma is_power_of_two_iff:
  "is_power_of_two x \<longleftrightarrow> (\<exists>k < LENGTH('a). x = 2 ^ k)" for x :: "'a::len word"
proof
  assume "is_power_of_two x"
  then show "\<exists>k < LENGTH('a). x = 2 ^ k"
    by (auto simp: is_power_of_two_def dest: word_and_pred_eq_0)
next
  assume "\<exists>k < LENGTH('a). x = 2 ^ k"
  then obtain k where k: "k < LENGTH('a)" "x = 2 ^ k" by blast
  then have "unat x = 2 ^ k" by (simp add: unat_power2)
  then have "x \<noteq> 0" by auto
  with k show "is_power_of_two x"
    by (simp add: is_power_of_two_def word_power2_and_pred)
qed

lemma and_not_plus_and: "(x AND NOT m) + (x AND m) = x" for x m :: "'a::len word"
proof -
  have "(x AND NOT m) + (x AND m) = (x AND NOT m) OR (x AND m)"
    by (rule disjunctive_add) (auto simp: bit_simps)
  also have "\<dots> = x"
    by (rule bit_eqI) (auto simp: bit_simps)
  finally show ?thesis .
qed

lemma unat_align_down:
  fixes x :: "'a::len word"
  shows "unat (align_down x (2 ^ k)) = unat x - unat x mod 2 ^ k"
proof -
  have eq: "align_down x (2 ^ k) = x - (x AND (2 ^ k - 1))"
    using and_not_plus_and [of x "2 ^ k - 1"] by (simp add: align_down_def eq_diff_eq)
  have "x AND (2 ^ k - 1) \<le> x"
    by (rule word_and_le2)
  then show ?thesis
    by (simp only: eq unat_sub unat_and_mask)
qed

lemma align_down_dvd:
  "2 ^ k dvd unat (align_down x (2 ^ k))" for x :: "'a::len word"
  by (simp add: unat_align_down minus_mod_eq_mult_div)

lemma unat_or_mask:
  fixes y :: "'a::len word"
  assumes "k < LENGTH('a)"
  shows "unat (y OR (2 ^ k - 1)) = (unat y div 2 ^ k) * 2 ^ k + (2 ^ k - 1)"
proof -
  have "y OR (2 ^ k - 1) = (y AND NOT (2 ^ k - 1)) OR (2 ^ k - 1)"
    by (rule bit_eqI) (auto simp: bit_simps)
  also have "\<dots> = (y AND NOT (2 ^ k - 1)) + (2 ^ k - 1)"
    by (rule disjunctive_add [symmetric]) (auto simp: bit_simps)
  finally have eq: "y OR (2 ^ k - 1) = align_down y (2 ^ k) + (2 ^ k - 1)"
    by (simp add: align_down_def)
  have pred: "unat (2 ^ k - 1 :: 'a word) = 2 ^ k - 1"
    using assms by (simp add: unat_minus_one unat_power2)
  have down: "unat (align_down y (2 ^ k)) = (unat y div 2 ^ k) * 2 ^ k"
    by (simp add: unat_align_down minus_mod_eq_mult_div mult.commute)
  have "(unat y div 2 ^ k) * 2 ^ k + (2 ^ k - 1) < 2 ^ LENGTH('a)"
  proof -
    have "unat y < 2 ^ LENGTH('a)" by (rule unsigned_less)
    also have "(2::nat) ^ LENGTH('a) = 2 ^ (LENGTH('a) - k) * 2 ^ k"
      using assms by (simp flip: power_add)
    finally have "Suc (unat y div 2 ^ k) \<le> 2 ^ (LENGTH('a) - k)"
      using less_mult_imp_div_less Suc_leI by blast
    then have "Suc (unat y div 2 ^ k) * 2 ^ k \<le> 2 ^ (LENGTH('a) - k) * 2 ^ k"
      by (rule mult_le_mono1)
    also have "\<dots> = 2 ^ LENGTH('a)"
      using assms by (simp flip: power_add)
    finally have "(unat y div 2 ^ k) * 2 ^ k + 2 ^ k \<le> 2 ^ LENGTH('a)" by simp
    moreover have "0 < (2::nat) ^ k" by simp
    ultimately show ?thesis by linarith
  qed
  then show ?thesis
    by (simp only: eq unat_word_ariths down pred mod_less)
qed

lemma unat_align_up:
  fixes x :: "'a::len word"
  assumes k: "k < LENGTH('a)" and fits: "unat x + (2 ^ k - 1) < 2 ^ LENGTH('a)"
  shows "unat (align_up x (2 ^ k)) = (unat x + (2 ^ k - 1)) div 2 ^ k * 2 ^ k"
proof (cases "x = 0")
  case True
  have "(- 1 :: 'a word) OR (2 ^ k - 1) = - 1"
    by (rule bit_eqI) (auto simp: bit_simps)
  with True show ?thesis by (simp add: align_up_def)
next
  case False
  define n where "n = unat x"
  have n: "0 < n" using False by (simp add: n_def unat_gt_0)
  have or: "unat ((x - 1) OR (2 ^ k - 1)) = ((n - 1) div 2 ^ k) * 2 ^ k + (2 ^ k - 1)"
    using unat_or_mask [OF k, of "x - 1"] False by (simp add: n_def unat_minus_one)
  have div_eq: "(n + (2 ^ k - 1)) div 2 ^ k = (n - 1) div 2 ^ k + 1"
  proof -
    have "(n + (2 ^ k - 1)) div 2 ^ k = ((n - 1) + 2 ^ k) div 2 ^ k" using n by simp
    also have "((n - 1) + 2 ^ k) div 2 ^ k = (n - 1) div 2 ^ k + 1"
      by (rule div_add_self2) simp
    finally show ?thesis .
  qed
  have le: "(n + (2 ^ k - 1)) div 2 ^ k * 2 ^ k < 2 ^ LENGTH('a)"
    using fits div_times_less_eq_dividend [of "n + (2 ^ k - 1)" "2 ^ k"]
    unfolding n_def by linarith
  have "unat (align_up x (2 ^ k)) = (unat ((x - 1) OR (2 ^ k - 1)) + 1) mod 2 ^ LENGTH('a)"
    by (simp add: align_up_def unat_word_ariths)
  also have "unat ((x - 1) OR (2 ^ k - 1)) + 1 = (n + (2 ^ k - 1)) div 2 ^ k * 2 ^ k"
    using or div_eq by (simp add: algebra_simps)
  finally show ?thesis using le by (simp add: n_def)
qed

subsection \<open>Comparisons that are safe against wrap-around\<close>

text \<open>
  The C functions cast the 32-bit difference to \<open>int32_t\<close>; \<open>sint\<close> is that cast.
\<close>

definition wraps_lt :: "u32 \<Rightarrow> u32 \<Rightarrow> bool" where
  "wraps_lt a b \<longleftrightarrow> sint (a - b) < 0"

definition wraps_lte :: "u32 \<Rightarrow> u32 \<Rightarrow> bool" where
  "wraps_lte a b \<longleftrightarrow> sint (a - b) \<le> 0"

definition wraps_gt :: "u32 \<Rightarrow> u32 \<Rightarrow> bool" where
  "wraps_gt a b \<longleftrightarrow> sint (b - a) < 0"

definition wraps_gte :: "u32 \<Rightarrow> u32 \<Rightarrow> bool" where
  "wraps_gte a b \<longleftrightarrow> sint (b - a) \<le> 0"

lemma unat_less_2_32: "unat w < 2 ^ 32" for w :: u32
  using unsigned_less [of w, where ?'a = nat] by simp

lemma unat_diff_swap: "a \<noteq> b \<Longrightarrow> unat (a - b) = 2 ^ 32 - unat (b - a)" for a b :: u32
proof -
  assume "a \<noteq> b"
  then have ne: "unat a \<noteq> unat b" by (simp add: word_unat_eq_iff)
  show ?thesis
  proof (cases "unat b \<le> unat a")
    case True
    with ne have "\<not> unat a \<le> unat b" by simp
    with True show ?thesis
      using unat_sub_if' [of a b] unat_sub_if' [of b a] unat_less_2_32 [of a] by simp
  next
    case False
    then show ?thesis
      using unat_sub_if' [of a b] unat_sub_if' [of b a] unat_less_2_32 [of b] by simp
  qed
qed

lemma bit_top_nat: "n < 2 * 2 ^ k \<Longrightarrow> bit n k \<longleftrightarrow> 2 ^ k \<le> n" for n :: nat
proof -
  assume "n < 2 * 2 ^ k"
  then have "n div 2 ^ k < 2" by (rule less_mult_imp_div_less)
  then consider "n div 2 ^ k = 0" | "n div 2 ^ k = 1" by linarith
  then show ?thesis
  proof cases
    case 1
    then show ?thesis by (auto simp: bit_iff_odd div_eq_0_iff)
  next
    case 2
    then have "2 ^ k \<le> n" by (metis div_less not_less zero_neq_one)
    with 2 show ?thesis by (simp add: bit_iff_odd)
  qed
qed

lemma sint_neg_iff: "sint w < 0 \<longleftrightarrow> 2 ^ 31 \<le> unat w" for w :: u32
proof -
  have "sint w < 0 \<longleftrightarrow> bit w 31"
    using bit_last_iff [of w] by simp
  also have "\<dots> \<longleftrightarrow> bit (unat w) 31"
    by (simp add: bit_unsigned_iff)
  also have "\<dots> \<longleftrightarrow> 2 ^ 31 \<le> unat w"
    by (rule bit_top_nat) (use unat_less_2_32 [of w] in simp)
  finally show ?thesis .
qed
lemma wraps_lt_iff: "wraps_lt a b \<longleftrightarrow> 0 < unat (b - a) \<and> unat (b - a) \<le> 2 ^ 31"
proof (cases "a = b")
  case False
  then have "0 < unat (b - a)" by (simp add: unat_gt_0)
  moreover have "unat (b - a) < 2 ^ 32" by (rule unat_less_2_32)
  ultimately show ?thesis
    using unat_diff_swap [OF False] by (auto simp: wraps_lt_def sint_neg_iff)
qed (simp add: wraps_lt_def)

lemma wraps_lte_iff: "wraps_lte a b \<longleftrightarrow> unat (b - a) \<le> 2 ^ 31"
proof (cases "a = b")
  case False
  then have "sint (a - b) \<noteq> 0" by (simp add: signed_eq_0_iff)
  then have "wraps_lte a b \<longleftrightarrow> wraps_lt a b" by (auto simp: wraps_lte_def wraps_lt_def)
  then show ?thesis using False by (auto simp: wraps_lt_iff unat_gt_0)
qed (simp add: wraps_lte_def)

lemma wraps_gt_swap: "wraps_gt a b \<longleftrightarrow> wraps_lt b a"
  by (simp add: wraps_gt_def wraps_lt_def)

lemma wraps_gte_swap: "wraps_gte a b \<longleftrightarrow> wraps_lte b a"
  by (simp add: wraps_gte_def wraps_lte_def)

lemma not_wraps_lte: "\<not> wraps_lte a b \<longleftrightarrow> wraps_gt a b \<and> unat (a - b) \<noteq> 2 ^ 31"
proof (cases "a = b")
  case False
  have "unat (b - a) < 2 ^ 32" by (rule unat_less_2_32)
  moreover have "0 < unat (b - a)" using False by (simp add: unat_gt_0)
  ultimately show ?thesis
    using unat_diff_swap [OF False] by (auto simp: wraps_lte_iff wraps_gt_swap wraps_lt_iff)
qed (simp add: wraps_lte_def wraps_gt_def)

subsection \<open>Atomic operations and reference counts\<close>

text \<open>
  Every operation is one indivisible step. It takes the value of the counter and gives the
  returned value with the new value of the counter. \<open>atomic_t\<close> is a 32-bit and
  \<open>atomic64_t\<close> a 64-bit counter.
\<close>

definition atomic_fetch_and_add :: "u32 \<Rightarrow> u32 \<Rightarrow> u32 \<times> u32" where
  "atomic_fetch_and_add a val = (a, a + val)"

definition atomic_fetch_and_sub :: "u32 \<Rightarrow> u32 \<Rightarrow> u32 \<times> u32" where
  "atomic_fetch_and_sub a val = (a, a + val)"

definition atomic64_fetch_and_sub :: "u64 \<Rightarrow> u64 \<Rightarrow> u64 \<times> u64" where
  "atomic64_fetch_and_sub a val = (a, a - val)"

definition atomic_fetch_and_or :: "u32 \<Rightarrow> u32 \<Rightarrow> u32 \<times> u32" where
  "atomic_fetch_and_or a val = (a, a OR val)"

definition atomic_sub_and_fetch :: "u32 \<Rightarrow> u32 \<Rightarrow> u32 \<times> u32" where
  "atomic_sub_and_fetch a val = (a - val, a - val)"

definition atomic_inc :: "u32 \<Rightarrow> u32" where
  "atomic_inc a = snd (atomic_fetch_and_add a 1)"

definition atomic_dec_and_test :: "u32 \<Rightarrow> bool \<times> u32" where
  "atomic_dec_and_test a = (let (r, a') = atomic_sub_and_fetch a 1 in (r = 0, a'))"

definition atomic_cmpxchg :: "u32 \<Rightarrow> u32 \<Rightarrow> u32 \<Rightarrow> bool \<times> u32" where
  "atomic_cmpxchg a oldv newv = (if a = oldv then (True, newv) else (False, a))"

definition kref_init :: u32 where
  "kref_init = 1"

definition kref_get :: "u32 \<Rightarrow> u32" where
  "kref_get ref = atomic_inc ref"

text \<open>\<open>kref_put\<close> gives the new count and whether the release function is called.\<close>

definition kref_put :: "u32 \<Rightarrow> u32 \<times> bool" where
  "kref_put ref = (let (z, ref') = atomic_dec_and_test ref in (ref', z))"

datatype kref_op = Kref_get | Kref_put

text \<open>
  A run of reference operations. It gives the final count and the number of times the
  object was released.
\<close>

fun kref_run :: "u32 \<Rightarrow> kref_op list \<Rightarrow> u32 \<times> nat" where
  "kref_run ref [] = (ref, 0)"
| "kref_run ref (Kref_get # ops) = kref_run (kref_get ref) ops"
| "kref_run ref (Kref_put # ops) =
     (let (ref', rel) = kref_put ref; (ref'', n) = kref_run ref' ops
      in (ref'', (if rel then Suc n else n)))"

text \<open>
  The references a run leaves, counted without wrap-around: \<open>None\<close> when an operation
  uses the object after its last reference is gone, or when the count would overflow.
\<close>

fun kref_left :: "nat \<Rightarrow> kref_op list \<Rightarrow> nat option" where
  "kref_left n [] = Some n"
| "kref_left n (Kref_get # ops) =
     (if n = 0 \<or> 2 ^ 32 \<le> Suc n then None else kref_left (Suc n) ops)"
| "kref_left n (Kref_put # ops) = (if n = 0 then None else kref_left (n - 1) ops)"

lemma kref_left_0: "kref_left 0 ops = Some m \<longleftrightarrow> ops = [] \<and> m = 0"
proof (cases ops)
  case (Cons op ops')
  then show ?thesis by (cases op) auto
qed auto

lemma kref_run_left:
  "kref_left (unat ref) ops = Some m \<Longrightarrow>
   kref_run ref ops = (of_nat m, if 0 < unat ref \<and> m = 0 then 1 else 0)"
proof (induction ref ops rule: kref_run.induct)
  case (1 ref)
  then show ?case by (auto simp: unsigned_eq_0_iff)
next
  case (2 ref ops)
  then have n: "0 < unat ref" "Suc (unat ref) < 2 ^ 32" "kref_left (Suc (unat ref)) ops = Some m"
    by (auto split: if_splits)
  have "unat (kref_get ref) = Suc (unat ref)"
    using n(2) by (simp add: kref_get_def atomic_inc_def atomic_fetch_and_add_def unat_word_ariths)
  with 2 n show ?case by simp
next
  case (3 ref ops)
  then have n: "0 < unat ref" "kref_left (unat ref - 1) ops = Some m"
    by (auto split: if_splits)
  have put: "kref_put ref = (ref - 1, ref - 1 = 0)"
    by (simp add: kref_put_def atomic_dec_and_test_def atomic_sub_and_fetch_def)
  have pred: "unat (ref - 1) = unat ref - 1"
    using n(1) by (intro unat_minus_one) (simp add: unat_gt_0)
  have run: "kref_run (ref - 1) ops = (of_nat m, if 0 < unat (ref - 1) \<and> m = 0 then 1 else 0)"
    by (rule "3.IH" [OF put [symmetric] refl]) (simp only: pred n(2))
  have zero: "ref - 1 = 0 \<longleftrightarrow> unat (ref - 1) = 0"
    by (simp only: unsigned_eq_0_iff)
  have dead: "m = 0" if "unat (ref - 1) = 0"
    using n(2) that by (auto simp: pred kref_left_0)
  show ?case
    using n(1) run dead zero by (auto simp: put)
qed

lemma wraps_window:
  fixes base :: u32
  assumes "i < 2 ^ 31" and "j < 2 ^ 31"
  shows "unat ((base + of_nat j) - (base + of_nat i)) =
    (if i \<le> j then j - i else 2 ^ 32 + j - i)"
proof -
  have u: "unat (of_nat n :: u32) = n" if "n < 2 ^ 31" for n
    using that by (simp add: unat_of_nat)
  have "(base + of_nat j) - (base + of_nat i) = of_nat j - (of_nat i :: u32)" by simp
  then show ?thesis using assms by (simp add: unat_sub_if' u word_le_nat_alt) arith
qed

subsection \<open>What the helpers guarantee\<close>

text \<open>
  \<open>wraps_lt\<close>, \<open>wraps_lte\<close>, \<open>wraps_gt\<close> and \<open>wraps_gte\<close> compare 32-bit sequence
  numbers modulo wrap-around: on positions within half the number space of a common
  base, wherever that base is, they are the order of the distances from the base.
\<close>

theorem wraps_compare_positions:
  fixes base :: u32
  assumes "i < 2 ^ 31" and "j < 2 ^ 31"
  shows "(wraps_lt (base + of_nat i) (base + of_nat j) \<longleftrightarrow> i < j) \<and>
    (wraps_lte (base + of_nat i) (base + of_nat j) \<longleftrightarrow> i \<le> j) \<and>
    (wraps_gt (base + of_nat i) (base + of_nat j) \<longleftrightarrow> i > j) \<and>
    (wraps_gte (base + of_nat i) (base + of_nat j) \<longleftrightarrow> i \<ge> j)"
  unfolding wraps_gt_swap wraps_gte_swap wraps_lt_iff wraps_lte_iff
    wraps_window [OF assms] wraps_window [OF assms(2,1)]
  using assms by auto

theorem wraps_compare_positions_witness:
  "wraps_lt (0xFFFFFFFF + of_nat 0) (0xFFFFFFFF + of_nat 2) \<and> (0xFFFFFFFF :: u32) + of_nat 2 = 1"
  using wraps_compare_positions [of 0 2 "0xFFFFFFFF"] by simp

text \<open>
  \<open>align_up\<close> gives the least multiple of the alignment that is at least \<open>x\<close>, and
  \<open>align_down\<close> the greatest one that is at most \<open>x\<close>, for every power-of-two alignment and
  every \<open>x\<close> whose rounded value fits the word.
\<close>

theorem align_least_greatest:
  fixes x :: "'a::len word"
  assumes "k < LENGTH('a)" and "unat x + (2 ^ k - 1) < 2 ^ LENGTH('a)"
  shows "unat (align_up x (2 ^ k)) = (LEAST n. unat x \<le> n \<and> 2 ^ k dvd n) \<and>
    unat (align_down x (2 ^ k)) = (GREATEST n. n \<le> unat x \<and> 2 ^ k dvd n)"
proof
  let ?d = "2 ^ k :: nat" and ?x = "unat x"
  have d: "0 < ?d" by simp
  let ?u = "(?x + (?d - 1)) div ?d * ?d"
  have "(LEAST n. ?x \<le> n \<and> ?d dvd n) = ?u"
  proof (rule Least_equality)
    have "?x + (?d - 1) = ?u + (?x + (?d - 1)) mod ?d"
      by (rule div_mult_mod_eq [symmetric])
    moreover have "(?x + (?d - 1)) mod ?d \<le> ?d - 1" using d by (metis Suc_pred' less_Suc_eq_le mod_less_divisor)
    ultimately have "?x \<le> ?u" by linarith
    then show "?x \<le> ?u \<and> ?d dvd ?u" by (intro conjI dvd_triv_right)
    fix n assume n: "?x \<le> n \<and> ?d dvd n"
    then obtain q where q: "n = q * ?d" by (auto elim: dvdE simp: mult.commute)
    have "?x + (?d - 1) < ?d + q * ?d" using n q d by linarith
    then have "(?x + (?d - 1)) div ?d < Suc q"
      by (intro less_mult_imp_div_less) (simp only: mult_Suc)
    then show "?u \<le> n" using q by simp
  qed
  then show "unat (align_up x (2 ^ k)) = (LEAST n. ?x \<le> n \<and> ?d dvd n)"
    using unat_align_up [OF assms] by simp
  have "(GREATEST n. n \<le> ?x \<and> ?d dvd n) = ?x - ?x mod ?d"
  proof (rule Greatest_equality)
    show "?x - ?x mod ?d \<le> ?x \<and> ?d dvd ?x - ?x mod ?d" by (simp add: minus_mod_eq_mult_div)
    fix n assume n: "n \<le> ?x \<and> ?d dvd n"
    then obtain q where q: "n = ?d * q" by (auto elim: dvdE)
    with n d have "q \<le> ?x div ?d" by (metis div_le_mono nonzero_mult_div_cancel_left not_gr0)
    then show "n \<le> ?x - ?x mod ?d" using q by (simp add: minus_mod_eq_mult_div)
  qed
  then show "unat (align_down x (2 ^ k)) = (GREATEST n. n \<le> ?x \<and> ?d dvd n)"
    by (simp add: unat_align_down)
qed

theorem align_least_greatest_witness:
  "unat (align_up (4097 :: u32) (2 ^ 12)) = (LEAST n. 4097 \<le> n \<and> 2 ^ 12 dvd n) \<and>
   unat (align_up (4097 :: u32) (2 ^ 12)) = 8192"
  using align_least_greatest [of 12 "4097 :: u32"] by (simp add: align_up_def)



end
