(* ===== verification/Fifo.thy ===== *)
theory Fifo
  imports Prelude
begin

text \<open>
  The contract of a bounded first-in first-out queue, as the rings of the runtime offer it
  to their users: an operation that appends and says whether there was room, and one that
  removes the oldest element and says whether there was one. The contract is the locale
  \<open>bounded_fifo\<close>; its specification machine \<open>spec_enq\<close>/\<open>spec_deq\<close> works on a list, and
  every client of an implementation observes the answers of that machine
  (\<open>run_refines\<close>).
\<close>

datatype 'x fifo_op = Enq 'x | Deq

datatype 'x fifo_answer = Accepted bool | Got "'x option"

definition spec_enq :: "nat \<Rightarrow> 'x list \<Rightarrow> 'x \<Rightarrow> bool \<times> 'x list" where
  "spec_enq cap q x = (if length q < cap then (True, q @ [x]) else (False, q))"

definition spec_deq :: "'x list \<Rightarrow> 'x option \<times> 'x list" where
  "spec_deq q = (case q of [] \<Rightarrow> (None, []) | x # q' \<Rightarrow> (Some x, q'))"

text \<open>Running a client's operations against an implementation, collecting the answers.\<close>

fun fifo_run ::
  "('s \<Rightarrow> 'x \<Rightarrow> bool \<times> 's) \<Rightarrow> ('s \<Rightarrow> 'x option \<times> 's) \<Rightarrow> 'x fifo_op list \<Rightarrow> 's
     \<Rightarrow> 'x fifo_answer list \<times> 's" where
  "fifo_run enq deq [] s = ([], s)"
| "fifo_run enq deq (Enq x # ops) s =
     (let (ok, s') = enq s x; (as, t) = fifo_run enq deq ops s' in (Accepted ok # as, t))"
| "fifo_run enq deq (Deq # ops) s =
     (let (r, s') = deq s; (as, t) = fifo_run enq deq ops s' in (Got r # as, t))"

text \<open>What went in and what came out, read off the operations and their answers.\<close>

fun fifo_accepted :: "'x fifo_op list \<Rightarrow> 'x fifo_answer list \<Rightarrow> 'x list" where
  "fifo_accepted (Enq x # ops) (Accepted True # as) = x # fifo_accepted ops as"
| "fifo_accepted (_ # ops) (_ # as) = fifo_accepted ops as"
| "fifo_accepted _ _ = []"

fun fifo_received :: "'x fifo_answer list \<Rightarrow> 'x list" where
  "fifo_received (Got (Some x) # as) = x # fifo_received as"
| "fifo_received (_ # as) = fifo_received as"
| "fifo_received [] = []"

fun fifo_valid :: "('x \<Rightarrow> bool) \<Rightarrow> 'x fifo_op list \<Rightarrow> bool" where
  "fifo_valid ok (Enq x # ops) \<longleftrightarrow> ok x \<and> fifo_valid ok ops"
| "fifo_valid ok (Deq # ops) \<longleftrightarrow> fifo_valid ok ops"
| "fifo_valid ok [] \<longleftrightarrow> True"

lemma spec_run_order:
  assumes "fifo_run (spec_enq cap) spec_deq ops q = (as, q')"
  shows "q @ fifo_accepted ops as = fifo_received as @ q'"
  using assms
proof (induction ops arbitrary: q as)
  case (Cons op ops)
  show ?case
  proof (cases op)
    case (Enq x)
    with Cons.prems Cons.IH Cons.IH [of "q @ [x]"] show ?thesis
      by (auto simp: spec_enq_def split: prod.splits if_splits)
  next
    case Deq
    with Cons.prems Cons.IH Cons.IH [of "tl q"] show ?thesis
      by (cases q) (auto simp: spec_deq_def split: prod.splits)
  qed
qed simp

locale bounded_fifo =
  fixes inv :: "'s \<Rightarrow> bool"
    and elems :: "'s \<Rightarrow> 'x list"
    and cap :: "'s \<Rightarrow> nat"
    and ok_elem :: "'x \<Rightarrow> bool"
    and enq :: "'s \<Rightarrow> 'x \<Rightarrow> bool \<times> 's"
    and deq :: "'s \<Rightarrow> 'x option \<times> 's"
  assumes enq_law: "inv s \<Longrightarrow> ok_elem x \<Longrightarrow> enq s x = (r, s') \<Longrightarrow>
      inv s' \<and> cap s' = cap s \<and> spec_enq (cap s) (elems s) x = (r, elems s')"
    and deq_law: "inv s \<Longrightarrow> deq s = (y, s') \<Longrightarrow>
      inv s' \<and> cap s' = cap s \<and> spec_deq (elems s) = (y, elems s')"
begin

lemma run_refines:
  assumes "inv s" and "fifo_valid ok_elem ops" and "fifo_run enq deq ops s = (as, s')"
  shows "inv s' \<and> cap s' = cap s \<and>
    fifo_run (spec_enq (cap s)) spec_deq ops (elems s) = (as, elems s')"
  using assms
proof (induction ops arbitrary: s as)
  case (Cons op ops)
  show ?case
  proof (cases op)
    case (Enq x)
    obtain r s1 where e: "enq s x = (r, s1)" by fastforce
    obtain bs s2 where t: "fifo_run enq deq ops s1 = (bs, s2)" by fastforce
    from Cons.prems Enq e t have "as = Accepted r # bs" "s' = s2" by auto
    with Cons.IH [of s1 bs] Cons.prems Enq enq_law [OF _ _ e] t show ?thesis by auto
  next
    case Deq
    obtain y s1 where e: "deq s = (y, s1)" by fastforce
    obtain bs s2 where t: "fifo_run enq deq ops s1 = (bs, s2)" by fastforce
    from Cons.prems Deq e t have "as = Got y # bs" "s' = s2" by auto
    with Cons.IH [of s1 bs] Cons.prems Deq deq_law [OF _ e] t show ?thesis by auto
  qed
qed simp

lemma run_order:
  assumes "inv s" and "fifo_valid ok_elem ops" and "fifo_run enq deq ops s = (as, s')"
  shows "elems s @ fifo_accepted ops as = fifo_received as @ elems s'"
  using spec_run_order run_refines [OF assms] by blast

end

end
