(* ===== verification/Lrpc.thy ===== *)
theory Lrpc
  imports Stddef Fifo
begin

text \<open>
  The shared-memory channels of \<open>base/lrpc.c\<close> and \<open>inc/base/lrpc.h\<close>: a ring of
  messages written by one sender and read by one receiver, who share the ring
  (\<open>shm_tbl\<close>) and one word the receiver writes back (\<open>shm_recv_head_wb\<close>). A
  message is published by a parity bit in its command word, which flips on every lap of
  the ring, so the receiver needs no access to the sender's counters.

  The theory models both ends, proves that the channel implements a bounded first-in
  first-out queue (the locale \<open>bounded_fifo\<close>), and then refines the operations into
  single loads and stores of the shared words to show that the order in which the code
  writes payload and command keeps this true under every interleaving.
\<close>

subsection \<open>The data of a channel\<close>

record lrpc_msg =
  msg_cmd :: u64
  msg_payload :: u64

text \<open>The words both ends can reach.\<close>

record lrpc_shm =
  shm_tbl :: "lrpc_msg list"
  shm_recv_head_wb :: u32

record lrpc_chan_out =
  send_head :: u32
  send_tail :: u32
  out_size :: u32

record lrpc_chan_in =
  recv_head :: u32
  in_size :: u32

definition LRPC_DONE_PARITY :: u64 where
  "LRPC_DONE_PARITY = push_bit 63 1"

definition LRPC_CMD_MASK :: u64 where
  "LRPC_CMD_MASK = NOT LRPC_DONE_PARITY"

subsection \<open>The operations\<close>

definition lrpc_init_out :: "u32 \<Rightarrow> int + lrpc_chan_out" where
  "lrpc_init_out sz =
     (if \<not> is_power_of_two sz then Inl (-22)
      else Inr \<lparr>send_head = 0, send_tail = 0, out_size = sz\<rparr>)"

definition lrpc_init_in :: "u32 \<Rightarrow> int + lrpc_chan_in" where
  "lrpc_init_in sz =
     (if \<not> is_power_of_two sz then Inl (-22)
      else Inr \<lparr>recv_head = 0, in_size = sz\<rparr>)"

text \<open>
  The parity a message at position \<open>pos\<close> carries, and the slot it lives in.
\<close>

definition lrpc_parity :: "u32 \<Rightarrow> u32 \<Rightarrow> u64" where
  "lrpc_parity sz pos = (if pos AND sz \<noteq> 0 then 0 else LRPC_DONE_PARITY)"

definition lrpc_slot :: "u32 \<Rightarrow> u32 \<Rightarrow> nat" where
  "lrpc_slot sz pos = unat (pos AND (sz - 1))"

text \<open>The two stores that publish a message: the payload, then the command.\<close>

definition store_payload :: "lrpc_msg list \<Rightarrow> nat \<Rightarrow> u64 \<Rightarrow> lrpc_msg list" where
  "store_payload tbl i p = tbl[i := (tbl ! i)\<lparr>msg_payload := p\<rparr>]"

definition store_cmd :: "lrpc_msg list \<Rightarrow> nat \<Rightarrow> u64 \<Rightarrow> lrpc_msg list" where
  "store_cmd tbl i c = tbl[i := (tbl ! i)\<lparr>msg_cmd := c\<rparr>]"

text \<open>
  The two assertions of the code (no parity bit in a command to send; the slow path is
  entered only when the cached window is used up) are not branches of the model: they
  are compiled out of a release build. The first is a hypothesis of the lemmas on sending,
  the second is a consequence of the invariant (\<open>lrpc_slow_path_assert\<close>).
\<close>

definition lrpc_send_slow ::
  "lrpc_chan_out \<Rightarrow> lrpc_shm \<Rightarrow> u64 \<Rightarrow> u64 \<Rightarrow> bool \<times> lrpc_chan_out \<times> lrpc_shm" where
  "lrpc_send_slow chan m cmd payload =
     (let chan = chan\<lparr>send_tail := shm_recv_head_wb m\<rparr>
      in if send_head chan - send_tail chan = out_size chan then (False, chan, m)
         else let i = lrpc_slot (out_size chan) (send_head chan);
                  m = m\<lparr>shm_tbl := store_payload (shm_tbl m) i payload\<rparr>;
                  cmd = cmd OR lrpc_parity (out_size chan) (send_head chan);
                  chan = chan\<lparr>send_head := send_head chan + 1\<rparr>;
                  m = m\<lparr>shm_tbl := store_cmd (shm_tbl m) i cmd\<rparr>
              in (True, chan, m))"

definition lrpc_send ::
  "lrpc_chan_out \<Rightarrow> lrpc_shm \<Rightarrow> u64 \<Rightarrow> u64 \<Rightarrow> bool \<times> lrpc_chan_out \<times> lrpc_shm" where
  "lrpc_send chan m cmd payload =
     (if send_head chan - send_tail chan \<ge> out_size chan
      then lrpc_send_slow chan m cmd payload
      else let i = lrpc_slot (out_size chan) (send_head chan);
               cmd = cmd OR lrpc_parity (out_size chan) (send_head chan);
               chan = chan\<lparr>send_head := send_head chan + 1\<rparr>;
               m = m\<lparr>shm_tbl := store_payload (shm_tbl m) i payload\<rparr>;
               m = m\<lparr>shm_tbl := store_cmd (shm_tbl m) i cmd\<rparr>
           in (True, chan, m))"

definition lrpc_get_cached_send_window :: "lrpc_chan_out \<Rightarrow> u32" where
  "lrpc_get_cached_send_window chan = out_size chan - send_head chan + send_tail chan"

definition lrpc_get_cached_length :: "lrpc_chan_out \<Rightarrow> u32" where
  "lrpc_get_cached_length chan = send_head chan - send_tail chan"

definition lrpc_poll_send_tail :: "lrpc_chan_out \<Rightarrow> lrpc_shm \<Rightarrow> u32 \<times> lrpc_chan_out" where
  "lrpc_poll_send_tail chan m =
     (let chan = chan\<lparr>send_tail := shm_recv_head_wb m\<rparr> in (send_tail chan, chan))"

text \<open>
  A receive gives \<open>None\<close> on an empty channel and the command (without its parity bit)
  with the payload otherwise.
\<close>

definition lrpc_recv ::
  "lrpc_chan_in \<Rightarrow> lrpc_shm \<Rightarrow> (u64 \<times> u64) option \<times> lrpc_chan_in \<times> lrpc_shm" where
  "lrpc_recv chan m =
     (let msg = shm_tbl m ! lrpc_slot (in_size chan) (recv_head chan);
          parity = lrpc_parity (in_size chan) (recv_head chan)
      in if msg_cmd msg AND LRPC_DONE_PARITY \<noteq> parity then (None, chan, m)
         else let chan = chan\<lparr>recv_head := recv_head chan + 1\<rparr>
              in (Some (msg_cmd msg AND LRPC_CMD_MASK, msg_payload msg), chan,
                  m\<lparr>shm_recv_head_wb := recv_head chan\<rparr>))"

definition lrpc_empty :: "lrpc_chan_in \<Rightarrow> lrpc_shm \<Rightarrow> bool" where
  "lrpc_empty chan m =
     (let msg = shm_tbl m ! lrpc_slot (in_size chan) (recv_head chan);
          parity = lrpc_parity (in_size chan) (recv_head chan)
      in msg_cmd msg AND LRPC_DONE_PARITY \<noteq> parity)"

subsection \<open>Slots of a ring and their parity\<close>

text \<open>
  \<open>slots_ok sz tbl base len\<close>: the ring has \<open>sz\<close> slots, and exactly the \<open>len\<close>
  positions from \<open>base\<close> on carry the parity of their lap.
\<close>

definition slots_ok :: "u32 \<Rightarrow> lrpc_msg list \<Rightarrow> u32 \<Rightarrow> nat \<Rightarrow> bool" where
  "slots_ok sz tbl base len \<longleftrightarrow>
     is_power_of_two sz \<and> length tbl = unat sz \<and> len \<le> unat sz \<and>
     (\<forall>i < unat sz.
        msg_cmd (tbl ! lrpc_slot sz (base + of_nat i)) AND LRPC_DONE_PARITY =
          lrpc_parity sz (base + of_nat i) \<longleftrightarrow> i < len)"

definition msg_view :: "lrpc_msg \<Rightarrow> u64 \<times> u64" where
  "msg_view m = (msg_cmd m AND LRPC_CMD_MASK, msg_payload m)"

definition slots_queue :: "u32 \<Rightarrow> lrpc_msg list \<Rightarrow> u32 \<Rightarrow> nat \<Rightarrow> (u64 \<times> u64) list" where
  "slots_queue sz tbl base len =
     map (\<lambda>i. msg_view (tbl ! lrpc_slot sz (base + of_nat i))) [0..<len]"

lemma lrpc_slot_lt: "is_power_of_two sz \<Longrightarrow> lrpc_slot sz pos < unat sz"
  by (auto simp: is_power_of_two_iff lrpc_slot_def ring_simps unat_power2)

lemma lrpc_slot_eq_mod:
  assumes "k < 32" shows "lrpc_slot (2 ^ k) pos = unat pos mod 2 ^ k"
  using assms by (simp only: lrpc_slot_def unat_and_mask)

lemma lrpc_slot_inj:
  assumes "is_power_of_two sz" and "i < unat sz" and "j < unat sz"
    and "lrpc_slot sz (base + of_nat i) = lrpc_slot sz (base + of_nat j)"
  shows "i = j"
proof -
  from assms(1) obtain k where k: "k < 32" "sz = 2 ^ k" by (auto simp: is_power_of_two_iff)
  have sz: "unat sz = 2 ^ k" using k by (simp add: unat_power2)
  have lt: "(2::nat) ^ k < 2 ^ 32" using k(1) by (rule power_strict_increasing) simp
  have ui: "unat (of_nat n :: u32) = n" if "n < 2 ^ k" for n
  proof -
    have "n < 2 ^ 32" using that lt by (rule less_trans)
    then show ?thesis by (simp add: unat_of_nat)
  qed
  have "(unat base + i) mod 2 ^ k = (unat base + j) mod 2 ^ k"
    using assms k sz ui by (simp add: lrpc_slot_eq_mod unat_plus_mod_2k)
  then have "i mod 2 ^ k = j mod 2 ^ k" by (simp add: nat_mod_eq_iff)
  with assms sz show ?thesis by simp
qed

lemma lrpc_slot_lap: "is_power_of_two sz \<Longrightarrow> lrpc_slot sz (pos + sz) = lrpc_slot sz pos"
  by (auto simp: is_power_of_two_iff lrpc_slot_eq_mod unat_plus_mod_2k unat_power2)

lemma and_power2_add_power2:
  fixes x :: "'a::len word"
  assumes "k < LENGTH('a)"
  shows "(x + 2 ^ k) AND 2 ^ k = 0 \<longleftrightarrow> x AND 2 ^ k \<noteq> 0"
proof -
  have nat: "bit w k \<longleftrightarrow> bit (unat w) k" for w :: "'a word"
    by (simp add: bit_unsigned_iff)
  have "unat (x + 2 ^ k) = take_bit LENGTH('a) (unat x + 2 ^ k)"
    using assms by (simp add: unat_word_ariths unat_power2 take_bit_nat_def)
  then have "bit (x + 2 ^ k) k \<longleftrightarrow> odd ((unat x + 2 ^ k) div 2 ^ k)"
    using assms by (simp only: nat bit_take_bit_iff bit_iff_odd [of "unat x + 2 ^ k"] simp_thms)
  also have "\<dots> \<longleftrightarrow> \<not> bit x k"
    by (simp add: nat bit_iff_odd [of "unat x"] div_add_self2)
  finally show ?thesis using assms by (simp add: and_power2_eq_0_iff)
qed

lemma DONE_PARITY_bit: "bit LRPC_DONE_PARITY n \<longleftrightarrow> n = 63"
  unfolding LRPC_DONE_PARITY_def bit_push_bit_iff bit_1_iff by auto

lemma DONE_PARITY_nonzero [simp]: "LRPC_DONE_PARITY \<noteq> 0"
  using DONE_PARITY_bit [of 63] by auto

lemma and_DONE_PARITY: "c AND LRPC_DONE_PARITY = (if bit c 63 then LRPC_DONE_PARITY else 0)"
  by (rule bit_eqI) (auto simp: bit_simps DONE_PARITY_bit)

lemma lrpc_parity_lap:
  "is_power_of_two sz \<Longrightarrow> c AND LRPC_DONE_PARITY = lrpc_parity sz (pos + sz) \<longleftrightarrow>
     c AND LRPC_DONE_PARITY \<noteq> lrpc_parity sz pos"
  by (auto simp: is_power_of_two_iff lrpc_parity_def and_power2_add_power2 and_DONE_PARITY)

lemma parity_and_DONE: "lrpc_parity sz pos AND LRPC_DONE_PARITY = lrpc_parity sz pos"
  by (simp add: lrpc_parity_def)

lemma or_parity_and_DONE:
  "c AND LRPC_DONE_PARITY = 0 \<Longrightarrow>
     (c OR lrpc_parity sz pos) AND LRPC_DONE_PARITY = lrpc_parity sz pos"
  by (simp add: bit.conj_disj_distrib2 parity_and_DONE)

lemma or_parity_and_MASK:
  assumes "c AND LRPC_DONE_PARITY = 0"
  shows "(c OR lrpc_parity sz pos) AND LRPC_CMD_MASK = c"
proof (rule bit_eqI)
  fix n assume "possible_bit TYPE(64 word) n"
  then have "n < 64" by simp
  have "\<not> bit c 63" using assms by (auto simp: and_DONE_PARITY split: if_splits)
  with \<open>n < 64\<close> show "bit ((c OR lrpc_parity sz pos) AND LRPC_CMD_MASK) n = bit c n"
    by (auto simp: LRPC_CMD_MASK_def lrpc_parity_def bit_simps DONE_PARITY_bit)
qed

lemma store_lookup [simp]:
  "i < length tbl \<Longrightarrow> msg_payload (store_cmd tbl i c ! j) = msg_payload (tbl ! j)"
  "i < length tbl \<Longrightarrow> msg_cmd (store_payload tbl i p ! j) = msg_cmd (tbl ! j)"
  "i < length tbl \<Longrightarrow> msg_cmd (store_cmd tbl i c ! j) = (if j = i then c else msg_cmd (tbl ! j))"
  "i < length tbl \<Longrightarrow>
     msg_payload (store_payload tbl i p ! j) = (if j = i then p else msg_payload (tbl ! j))"
  "length (store_cmd tbl i c) = length tbl"
  "length (store_payload tbl i p) = length tbl"
  by (auto simp: store_cmd_def store_payload_def nth_list_update)

lemma slots_ok_slot_lt: "slots_ok sz tbl base len \<Longrightarrow> lrpc_slot sz pos < length tbl"
  by (simp add: slots_ok_def lrpc_slot_lt)

text \<open>A payload may be written to any slot: only the command word publishes.\<close>

lemma slots_ok_store_payload:
  "slots_ok sz tbl base len \<Longrightarrow> slots_ok sz (store_payload tbl (lrpc_slot sz pos) p) base len"
  by (auto simp: slots_ok_def lrpc_slot_lt)

lemma slots_queue_store_payload:
  assumes "slots_ok sz tbl base len" and "len < unat sz"
  shows "slots_queue sz (store_payload tbl (lrpc_slot sz (base + of_nat len)) p) base len =
    slots_queue sz tbl base len"
proof -
  have "lrpc_slot sz (base + of_nat i) \<noteq> lrpc_slot sz (base + of_nat len)" if "i < len" for i
    using lrpc_slot_inj [of sz i len base] assms that by (auto simp: slots_ok_def)
  with slots_ok_slot_lt [OF assms(1)] show ?thesis by (auto simp: slots_queue_def msg_view_def)
qed

text \<open>Writing the command of the next position publishes it.\<close>

lemma slots_ok_store_cmd:
  assumes ok: "slots_ok sz tbl base len" and len: "len < unat sz"
    and c: "c AND LRPC_DONE_PARITY = lrpc_parity sz (base + of_nat len)"
  shows "slots_ok sz (store_cmd tbl (lrpc_slot sz (base + of_nat len)) c) base (Suc len)"
proof -
  have "lrpc_slot sz (base + of_nat i) = lrpc_slot sz (base + of_nat len) \<longleftrightarrow> i = len"
    if "i < unat sz" for i
    using lrpc_slot_inj [of sz i len base] ok len that by (auto simp: slots_ok_def)
  with ok len c show ?thesis by (auto simp: slots_ok_def lrpc_slot_lt less_Suc_eq)
qed

lemma slots_queue_store_cmd:
  assumes ok: "slots_ok sz tbl base len" and len: "len < unat sz"
    and i: "i = lrpc_slot sz (base + of_nat len)"
  shows "slots_queue sz (store_cmd tbl i c) base (Suc len) =
    slots_queue sz tbl base len @ [(c AND LRPC_CMD_MASK, msg_payload (tbl ! i))]"
proof -
  have "lrpc_slot sz (base + of_nat j) \<noteq> i" if "j < len" for j
    using lrpc_slot_inj [of sz j len base] ok len that i by (auto simp: slots_ok_def)
  with slots_ok_slot_lt [OF ok] i show ?thesis by (auto simp: slots_queue_def msg_view_def)
qed

lemma slots_head_ready:
  assumes "slots_ok sz tbl base len"
  shows "msg_cmd (tbl ! lrpc_slot sz base) AND LRPC_DONE_PARITY = lrpc_parity sz base \<longleftrightarrow> 0 < len"
proof -
  have "0 < unat sz" using assms lrpc_slot_lt [of sz 0] by (auto simp: slots_ok_def)
  then have "msg_cmd (tbl ! lrpc_slot sz (base + of_nat 0)) AND LRPC_DONE_PARITY =
      lrpc_parity sz (base + of_nat 0) \<longleftrightarrow> 0 < len"
    using assms unfolding slots_ok_def by blast
  then show ?thesis by simp
qed

text \<open>Dropping the first position: one lap later its slot carries the old parity.\<close>

lemma slots_ok_pop:
  assumes ok: "slots_ok sz tbl base (Suc len)"
  shows "slots_ok sz tbl (base + 1) len"
proof -
  let ?ready = "\<lambda>pos. msg_cmd (tbl ! lrpc_slot sz pos) AND LRPC_DONE_PARITY = lrpc_parity sz pos"
  have p2: "is_power_of_two sz" and l: "Suc len \<le> unat sz" "length tbl = unat sz"
    and r: "\<And>i. i < unat sz \<Longrightarrow> ?ready (base + of_nat i) \<longleftrightarrow> i < Suc len"
    using ok by (auto simp: slots_ok_def)
  have "?ready (base + 1 + of_nat i) \<longleftrightarrow> i < len" if i: "i < unat sz" for i
  proof (cases "Suc i = unat sz")
    case True
    then have "of_nat (Suc i) = sz" by (simp only: of_nat_unat ucast_id)
    then have e: "base + 1 + of_nat i = base + sz" by (simp add: add.assoc)
    have "?ready base" using slots_head_ready [OF ok] by simp
    then have "\<not> ?ready (base + sz)"
      using lrpc_parity_lap [OF p2, of "msg_cmd (tbl ! lrpc_slot sz base)" base]
        lrpc_slot_lap [OF p2, of base] by metis
    with True l show ?thesis unfolding e by simp
  next
    case False
    with i r [of "Suc i"] show ?thesis by (simp add: add.assoc)
  qed
  with p2 l show ?thesis by (simp add: slots_ok_def)
qed

lemma slots_queue_pop:
  "slots_queue sz tbl base (Suc len) =
     msg_view (tbl ! lrpc_slot sz base) # slots_queue sz tbl (base + 1) len"
  by (simp add: slots_queue_def upt_conv_Cons map_Suc_upt [symmetric] add.assoc del: upt_Suc)

lemma length_slots_queue [simp]: "length (slots_queue sz tbl base len) = len"
  by (simp add: slots_queue_def)

subsection \<open>The channel as a bounded queue\<close>

text \<open>
  Both ends of a channel between calls: the receiver's counter is the one it wrote back,
  the sender's cached tail lags behind it, and the messages between the two heads are
  the published ones.
\<close>

type_synonym lrpc_pair = "lrpc_chan_out \<times> lrpc_chan_in \<times> lrpc_shm"

definition window :: "u32 \<Rightarrow> u32 \<Rightarrow> nat" where
  "window h t = unat (h - t)"

lemma window_less_eq_add: "window h t < unat (sz :: u32) \<Longrightarrow> window (h + 1) t = Suc (window h t)"
proof -
  assume "window h t < unat sz"
  then have "unat (h - t) + 1 < 2 ^ 32"
    using unsigned_less [of sz, where ?'a = nat] by (simp add: window_def)
  then have "unat (h - t + 1) = unat (h - t) + 1" by (simp add: unat_word_ariths)
  then show ?thesis by (simp add: window_def algebra_simps)
qed

lemma window_pop: "0 < window h t \<Longrightarrow> Suc (window h (t + 1)) = window h t"
proof -
  assume "0 < window h t"
  then have "h - t \<noteq> 0" by (auto simp: window_def)
  then have "unat (h - t - 1) = unat (h - t) - 1" by (rule unat_minus_one)
  with \<open>0 < window h t\<close> show ?thesis by (simp add: window_def algebra_simps)
qed

lemma window_base: "t + of_nat (window h t) = h"
proof -
  have "of_nat (unat (h - t)) = h - t" by (simp only: of_nat_unat ucast_id)
  then show ?thesis by (simp add: window_def)
qed

lemma window_full: "window h t \<le> unat sz \<Longrightarrow> h - t = sz \<longleftrightarrow> \<not> window h t < unat sz"
  by (auto simp: window_def word_unat_eq_iff)

lemma window_ge: "h - t \<ge> sz \<longleftrightarrow> \<not> window h t < unat sz"
  by (auto simp: window_def word_le_nat_alt)

fun lrpc_inv :: "lrpc_pair \<Rightarrow> bool" where
  "lrpc_inv (out, inn, m) \<longleftrightarrow>
     in_size inn = out_size out \<and> shm_recv_head_wb m = recv_head inn \<and>
     window (send_head out) (recv_head inn) \<le> window (send_head out) (send_tail out) \<and>
     window (send_head out) (send_tail out) \<le> unat (out_size out) \<and>
     slots_ok (out_size out) (shm_tbl m) (recv_head inn)
       (window (send_head out) (recv_head inn))"

fun lrpc_elems :: "lrpc_pair \<Rightarrow> (u64 \<times> u64) list" where
  "lrpc_elems (out, inn, m) =
     slots_queue (in_size inn) (shm_tbl m) (recv_head inn)
       (window (send_head out) (recv_head inn))"

fun lrpc_cap :: "lrpc_pair \<Rightarrow> nat" where
  "lrpc_cap (out, inn, m) = unat (out_size out)"

definition lrpc_cmd_ok :: "u64 \<times> u64 \<Rightarrow> bool" where
  "lrpc_cmd_ok x \<longleftrightarrow> fst x AND LRPC_DONE_PARITY = 0"

fun lrpc_enq :: "lrpc_pair \<Rightarrow> u64 \<times> u64 \<Rightarrow> bool \<times> lrpc_pair" where
  "lrpc_enq (out, inn, m) (cmd, payload) =
     (let (ok, out', m') = lrpc_send out m cmd payload in (ok, out', inn, m'))"

fun lrpc_deq :: "lrpc_pair \<Rightarrow> (u64 \<times> u64) option \<times> lrpc_pair" where
  "lrpc_deq (out, inn, m) = (let (r, inn', m') = lrpc_recv inn m in (r, out, inn', m'))"

lemma slots_publish:
  fixes p :: u64
  assumes ok: "slots_ok sz tbl base len" and len: "len < unat sz"
    and c: "c AND LRPC_DONE_PARITY = 0" and pos: "base + of_nat len = pos"
  defines "i \<equiv> lrpc_slot sz pos"
  defines "tbl' \<equiv> store_cmd (store_payload tbl i p) i (c OR lrpc_parity sz pos)"
  shows "slots_ok sz tbl' base (Suc len)"
    and "slots_queue sz tbl' base (Suc len) = slots_queue sz tbl base len @ [(c, p)]"
proof -
  have ok': "slots_ok sz (store_payload tbl i p) base len"
    unfolding i_def by (rule slots_ok_store_payload [OF ok])
  show "slots_ok sz tbl' base (Suc len)"
    unfolding tbl'_def i_def pos [symmetric]
    by (rule slots_ok_store_cmd [OF _ len])
      (use ok' c in \<open>simp_all add: i_def pos or_parity_and_DONE\<close>)
  have q: "slots_queue sz (store_payload tbl i p) base len = slots_queue sz tbl base len"
    unfolding i_def pos [symmetric] by (rule slots_queue_store_payload [OF ok len])
  show "slots_queue sz tbl' base (Suc len) = slots_queue sz tbl base len @ [(c, p)]"
    unfolding tbl'_def
    using slots_queue_store_cmd [OF ok' len, of i] slots_ok_slot_lt [OF ok] q
    by (simp add: i_def pos or_parity_and_MASK [OF c])
qed

text \<open>The push both paths of a send end with, from a state with room.\<close>

lemma lrpc_push:
  fixes p :: u64
  assumes "lrpc_inv (out, inn, m)" and "window (send_head out) (send_tail out) < unat (out_size out)"
    and c: "c AND LRPC_DONE_PARITY = 0"
  defines "i \<equiv> lrpc_slot (out_size out) (send_head out)"
  defines "s' \<equiv> (out\<lparr>send_head := send_head out + 1\<rparr>, inn,
    m\<lparr>shm_tbl := store_cmd (store_payload (shm_tbl m) i p) i
        (c OR lrpc_parity (out_size out) (send_head out))\<rparr>)"
  shows "lrpc_inv s'" and "lrpc_elems s' = lrpc_elems (out, inn, m) @ [(c, p)]"
proof -
  let ?len = "window (send_head out) (recv_head inn)"
  have lt: "?len < unat (out_size out)" using assms by simp
  note pub = slots_publish [OF _ lt c window_base, of "shm_tbl m"]
  show "lrpc_inv s'" "lrpc_elems s' = lrpc_elems (out, inn, m) @ [(c, p)]"
    using pub assms lt by (simp_all add: window_less_eq_add [OF lt] window_less_eq_add [OF assms(2)])
qed

lemma lrpc_room:
  "lrpc_inv (out, inn, m) \<Longrightarrow> window (send_head out) (send_tail out) < unat (out_size out) \<Longrightarrow>
     length (lrpc_elems (out, inn, m)) < lrpc_cap (out, inn, m)"
  by simp

lemma lrpc_inv_poll:
  assumes "lrpc_inv (out, inn, m)"
  shows "lrpc_inv (out\<lparr>send_tail := shm_recv_head_wb m\<rparr>, inn, m)"
  using assms by (auto simp: slots_ok_def)

text \<open>The assertion of the slow path holds.\<close>

lemma lrpc_slow_path_assert:
  assumes "lrpc_inv (out, inn, m)" and "send_head out - send_tail out \<ge> out_size out"
  shows "send_head out - send_tail out = out_size out"
  using assms by (simp add: window_ge window_full)

lemma lrpc_enq_law:
  assumes inv: "lrpc_inv s" and x: "lrpc_cmd_ok x" and e: "lrpc_enq s x = (r, s')"
  shows "lrpc_inv s' \<and> lrpc_cap s' = lrpc_cap s \<and>
    spec_enq (lrpc_cap s) (lrpc_elems s) x = (r, lrpc_elems s')"
proof -
  obtain out inn m c p where s: "s = (out, inn, m)" and xx: "x = (c, p)"
    by (metis prod_cases3 surj_pair)
  have c: "c AND LRPC_DONE_PARITY = 0" using x xx by (simp add: lrpc_cmd_ok_def)
  note inv1 = inv [unfolded s]
  let ?out = "out\<lparr>send_tail := shm_recv_head_wb m\<rparr>"
  note inv2 = lrpc_inv_poll [OF inv1]
  consider (fast) "window (send_head out) (send_tail out) < unat (out_size out)"
    | (slow) "\<not> window (send_head out) (send_tail out) < unat (out_size out)"
        "window (send_head ?out) (send_tail ?out) < unat (out_size ?out)"
    | (full) "\<not> window (send_head out) (send_tail out) < unat (out_size out)"
        "\<not> window (send_head ?out) (send_tail ?out) < unat (out_size ?out)"
    by blast
  then show ?thesis
  proof cases
    case fast
    with e lrpc_push [OF inv1 fast c, of p] lrpc_room [OF inv1 fast] show ?thesis
      by (auto simp: s xx lrpc_send_def window_ge spec_enq_def Let_def simp del: lrpc_inv.simps lrpc_elems.simps)
  next
    case slow
    have "send_head ?out - send_tail ?out \<noteq> out_size ?out"
      using slow(2) window_full [of "send_head ?out" "send_tail ?out" "out_size ?out"] by auto
    with e slow(1) lrpc_push [OF inv2 slow(2) c, of p] lrpc_room [OF inv2 slow(2)] show ?thesis
      by (auto simp: s xx lrpc_send_def lrpc_send_slow_def window_ge spec_enq_def Let_def
          simp del: lrpc_inv.simps)
  next
    case full
    have "window (send_head ?out) (send_tail ?out) \<le> unat (out_size ?out)" using inv2 by simp
    then have "send_head ?out - send_tail ?out = out_size ?out"
      using full(2) window_full by blast
    with e full inv2 inv1 show ?thesis
      by (auto simp: s xx lrpc_send_def lrpc_send_slow_def window_ge spec_enq_def Let_def)
  qed
qed

lemma lrpc_deq_law:
  assumes inv: "lrpc_inv s" and e: "lrpc_deq s = (r, s')"
  shows "lrpc_inv s' \<and> lrpc_cap s' = lrpc_cap s \<and> spec_deq (lrpc_elems s) = (r, lrpc_elems s')"
proof -
  obtain out inn m where s: "s = (out, inn, m)" by (metis prod_cases3)
  let ?len = "window (send_head out) (recv_head inn)"
  have ok: "slots_ok (out_size out) (shm_tbl m) (recv_head inn) ?len" using inv s by simp
  note ready = slots_head_ready [OF ok]
  show ?thesis
  proof (cases ?len)
    case 0
    with inv e ready show ?thesis by (auto simp: s lrpc_recv_def Let_def spec_deq_def slots_queue_def)
  next
    case (Suc n)
    with window_pop [of "send_head out" "recv_head inn"]
    have n: "window (send_head out) (recv_head inn + 1) = n" by simp
    from inv e ready slots_ok_pop [OF ok [unfolded Suc]] Suc n show ?thesis
      by (auto simp: s lrpc_recv_def Let_def spec_deq_def slots_queue_pop msg_view_def)
  qed
qed

interpretation lrpc: bounded_fifo lrpc_inv lrpc_elems lrpc_cap lrpc_cmd_ok lrpc_enq lrpc_deq
  by unfold_locales (rule lrpc_enq_law lrpc_deq_law; assumption)+

subsection \<open>Sender and receiver running at the same time\<close>

text \<open>
  The two ends run on different cores. Here every step is one access to a word the other
  end can reach, with the private computation around it: the sender loads
  \<open>recv_head_wb\<close> (slow path only), stores the payload, stores the command; the receiver
  loads the command, loads the payload, stores \<open>recv_head_wb\<close>. The loads acquire and the
  stores release, so the interleavings of these steps are the behaviours of the code. The
  lists \<open>sent\<close> and \<open>recvd\<close> record what the two ends have completed.
\<close>

datatype send_pc = S_idle | S_payload nat u64 u64 | S_cmd nat u64

datatype recv_pc = R_idle | R_payload nat u64 | R_wb u64 u64

record lrpc_sys =
  sys_out :: lrpc_chan_out
  sys_in :: lrpc_chan_in
  sys_shm :: lrpc_shm
  send_pc :: send_pc
  recv_pc :: recv_pc
  sent :: "(u64 \<times> u64) list"
  recvd :: "(u64 \<times> u64) list"

text \<open>The private part of a send once there is room: pick the slot, set the parity.\<close>

definition send_begin :: "lrpc_sys \<Rightarrow> u64 \<Rightarrow> u64 \<Rightarrow> lrpc_sys" where
  "send_begin s cmd payload =
     (let out = sys_out s
      in s\<lparr>sys_out := out\<lparr>send_head := send_head out + 1\<rparr>,
           send_pc := S_payload (lrpc_slot (out_size out) (send_head out))
             (cmd OR lrpc_parity (out_size out) (send_head out)) payload\<rparr>)"

inductive lrpc_step :: "lrpc_sys \<Rightarrow> lrpc_sys \<Rightarrow> bool" where
  send_fast: "send_pc s = S_idle \<Longrightarrow> cmd AND LRPC_DONE_PARITY = 0 \<Longrightarrow>
    \<not> send_head (sys_out s) - send_tail (sys_out s) \<ge> out_size (sys_out s) \<Longrightarrow>
    lrpc_step s (send_begin s cmd payload)"
| send_full: "send_pc s = S_idle \<Longrightarrow>
    send_head (sys_out s) - send_tail (sys_out s) \<ge> out_size (sys_out s) \<Longrightarrow>
    out = (sys_out s)\<lparr>send_tail := shm_recv_head_wb (sys_shm s)\<rparr> \<Longrightarrow>
    send_head out - send_tail out = out_size out \<Longrightarrow>
    lrpc_step s (s\<lparr>sys_out := out\<rparr>)"
| send_slow: "send_pc s = S_idle \<Longrightarrow> cmd AND LRPC_DONE_PARITY = 0 \<Longrightarrow>
    send_head (sys_out s) - send_tail (sys_out s) \<ge> out_size (sys_out s) \<Longrightarrow>
    out = (sys_out s)\<lparr>send_tail := shm_recv_head_wb (sys_shm s)\<rparr> \<Longrightarrow>
    send_head out - send_tail out \<noteq> out_size out \<Longrightarrow>
    lrpc_step s (send_begin (s\<lparr>sys_out := out\<rparr>) cmd payload)"
| send_payload: "send_pc s = S_payload i cmd payload \<Longrightarrow>
    lrpc_step s (s\<lparr>sys_shm := (sys_shm s)\<lparr>shm_tbl := store_payload (shm_tbl (sys_shm s)) i payload\<rparr>,
                  send_pc := S_cmd i cmd\<rparr>)"
| send_cmd: "send_pc s = S_cmd i cmd \<Longrightarrow>
    lrpc_step s (s\<lparr>sys_shm := (sys_shm s)\<lparr>shm_tbl := store_cmd (shm_tbl (sys_shm s)) i cmd\<rparr>,
                  send_pc := S_idle,
                  sent := sent s @ [(cmd AND LRPC_CMD_MASK, msg_payload (shm_tbl (sys_shm s) ! i))]\<rparr>)"
| recv_cmd: "recv_pc s = R_idle \<Longrightarrow> inn = sys_in s \<Longrightarrow>
    i = lrpc_slot (in_size inn) (recv_head inn) \<Longrightarrow>
    msg_cmd (shm_tbl (sys_shm s) ! i) AND LRPC_DONE_PARITY = lrpc_parity (in_size inn) (recv_head inn) \<Longrightarrow>
    lrpc_step s (s\<lparr>sys_in := inn\<lparr>recv_head := recv_head inn + 1\<rparr>,
                  recv_pc := R_payload i (msg_cmd (shm_tbl (sys_shm s) ! i))\<rparr>)"
| recv_payload: "recv_pc s = R_payload i cmd \<Longrightarrow>
    lrpc_step s (s\<lparr>recv_pc := R_wb (cmd AND LRPC_CMD_MASK) (msg_payload (shm_tbl (sys_shm s) ! i))\<rparr>)"
| recv_wb: "recv_pc s = R_wb cmd payload \<Longrightarrow>
    lrpc_step s (s\<lparr>sys_shm := (sys_shm s)\<lparr>shm_recv_head_wb := recv_head (sys_in s)\<rparr>,
                  recv_pc := R_idle, recvd := recvd s @ [(cmd, payload)]\<rparr>)"

text \<open>
  The head up to which commands are published, the receiver's base as the sender can
  see it, and the invariant: the receiver reads a slot only between the two, and the
  sender writes only outside.
\<close>

definition pub_head :: "lrpc_sys \<Rightarrow> u32" where
  "pub_head s = (if send_pc s = S_idle then send_head (sys_out s) else send_head (sys_out s) - 1)"

abbreviation wb_head :: "lrpc_sys \<Rightarrow> u32" where
  "wb_head s \<equiv> shm_recv_head_wb (sys_shm s)"

abbreviation sys_tbl :: "lrpc_sys \<Rightarrow> lrpc_msg list" where
  "sys_tbl s \<equiv> shm_tbl (sys_shm s)"

definition sender_inv :: "lrpc_sys \<Rightarrow> bool" where
  "sender_inv s \<longleftrightarrow>
     (let sz = out_size (sys_out s); pos = pub_head s; room = window pos (send_tail (sys_out s)) < unat sz
      in case send_pc s of
           S_idle \<Rightarrow> window pos (send_tail (sys_out s)) \<le> unat sz
         | S_payload i c p \<Rightarrow> room \<and> i = lrpc_slot sz pos \<and> c AND LRPC_DONE_PARITY = lrpc_parity sz pos
         | S_cmd i c \<Rightarrow> room \<and> i = lrpc_slot sz pos \<and> c AND LRPC_DONE_PARITY = lrpc_parity sz pos)"

definition receiver_inv :: "lrpc_sys \<Rightarrow> bool" where
  "receiver_inv s \<longleftrightarrow>
     (let sz = out_size (sys_out s); i = lrpc_slot sz (wb_head s); msg = sys_tbl s ! i;
          busy = (recv_head (sys_in s) = wb_head s + 1 \<and> 0 < window (pub_head s) (wb_head s))
      in case recv_pc s of
           R_idle \<Rightarrow> recv_head (sys_in s) = wb_head s
         | R_payload j c \<Rightarrow> busy \<and> j = i \<and> c = msg_cmd msg
         | R_wb c p \<Rightarrow> busy \<and> (c, p) = msg_view msg)"

definition sys_inv :: "lrpc_sys \<Rightarrow> bool" where
  "sys_inv s \<longleftrightarrow>
     (let sz = out_size (sys_out s); len = window (pub_head s) (wb_head s)
      in in_size (sys_in s) = sz \<and> len \<le> window (pub_head s) (send_tail (sys_out s)) \<and>
         slots_ok sz (sys_tbl s) (wb_head s) len \<and> sender_inv s \<and> receiver_inv s \<and>
         sent s = recvd s @ slots_queue sz (sys_tbl s) (wb_head s) len)"

lemmas sys_inv_unfold = sys_inv_def sender_inv_def receiver_inv_def Let_def

lemma pub_head_update [simp]:
  "pub_head (s\<lparr>sys_in := inn\<rparr>) = pub_head s"
  "pub_head (s\<lparr>sys_shm := m\<rparr>) = pub_head s"
  "pub_head (s\<lparr>recv_pc := pc\<rparr>) = pub_head s"
  "pub_head (s\<lparr>recvd := xs\<rparr>) = pub_head s"
  by (simp_all add: pub_head_def)

lemma pub_head_begin: "send_pc s = S_idle \<Longrightarrow> pub_head (send_begin s cmd payload) = pub_head s"
  by (simp add: pub_head_def send_begin_def Let_def)

lemma send_begin_inv:
  assumes inv: "sys_inv s" and idle: "send_pc s = S_idle" and c: "cmd AND LRPC_DONE_PARITY = 0"
    and room: "window (send_head (sys_out s)) (send_tail (sys_out s)) < unat (out_size (sys_out s))"
  shows "sys_inv (send_begin s cmd payload)"
proof -
  let ?t = "send_begin s cmd payload"
  have same: "wb_head ?t = wb_head s" "sys_tbl ?t = sys_tbl s" "sys_in ?t = sys_in s"
    "recv_pc ?t = recv_pc s" "sent ?t = sent s" "recvd ?t = recvd s"
    "out_size (sys_out ?t) = out_size (sys_out s)" "send_tail (sys_out ?t) = send_tail (sys_out s)"
    by (simp_all add: send_begin_def Let_def)
  have "receiver_inv ?t" using inv
    by (simp add: sys_inv_unfold same pub_head_begin [OF idle] cong: recv_pc.case_cong)
  moreover have "sender_inv ?t"
    using room or_parity_and_DONE [OF c]
    by (simp add: sender_inv_def Let_def same pub_head_begin [OF idle])
      (simp add: pub_head_def idle send_begin_def Let_def)
  ultimately show ?thesis
    using inv by (simp add: sys_inv_def Let_def same pub_head_begin [OF idle])
qed

lemma poll_inv:
  assumes "sys_inv s" and "send_pc s = S_idle"
  shows "sys_inv (s\<lparr>sys_out := (sys_out s)\<lparr>send_tail := wb_head s\<rparr>\<rparr>)"
  using assms by (simp add: sys_inv_unfold pub_head_def slots_ok_def cong: recv_pc.case_cong)

lemma send_payload_inv:
  assumes inv: "sys_inv s" and pc: "send_pc s = S_payload i cmd payload"
  shows "sys_inv (s\<lparr>sys_shm := (sys_shm s)\<lparr>shm_tbl := store_payload (sys_tbl s) i payload\<rparr>,
    send_pc := S_cmd i cmd\<rparr>)" (is "sys_inv ?t")
proof -
  let ?sz = "out_size (sys_out s)" and ?len = "window (pub_head s) (wb_head s)"
  have pub: "pub_head (s\<lparr>sys_shm := m, send_pc := S_cmd j c\<rparr>) = pub_head s" for m j c
    by (simp add: pub_head_def pc)
  have ok: "slots_ok ?sz (sys_tbl s) (wb_head s) ?len" using inv by (simp add: sys_inv_def Let_def)
  have lt: "?len < unat ?sz" and i: "i = lrpc_slot ?sz (wb_head s + of_nat ?len)"
    using inv pc by (simp_all add: sys_inv_unfold window_base)
  have ne: "lrpc_slot ?sz (wb_head s) \<noteq> i" if "0 < ?len"
    using lrpc_slot_inj [of ?sz 0 ?len "wb_head s"] ok lt that i by (auto simp: slots_ok_def)
  have "slots_ok ?sz (store_payload (sys_tbl s) i payload) (wb_head s) ?len"
    unfolding i by (rule slots_ok_store_payload [OF ok])
  moreover have "slots_queue ?sz (store_payload (sys_tbl s) i payload) (wb_head s) ?len =
      slots_queue ?sz (sys_tbl s) (wb_head s) ?len"
    unfolding i by (rule slots_queue_store_payload [OF ok lt])
  moreover have "sender_inv ?t" using inv pc by (simp add: sys_inv_unfold pub)
  moreover have "receiver_inv ?t"
    using inv ne slots_ok_slot_lt [OF ok] i
    by (auto simp: sys_inv_unfold pub msg_view_def split: recv_pc.splits)
  ultimately show ?thesis using inv by (simp add: sys_inv_def Let_def pub)
qed

lemma send_cmd_inv:
  assumes inv: "sys_inv s" and pc: "send_pc s = S_cmd i cmd"
  shows "sys_inv (s\<lparr>sys_shm := (sys_shm s)\<lparr>shm_tbl := store_cmd (sys_tbl s) i cmd\<rparr>,
    send_pc := S_idle, sent := sent s @ [(cmd AND LRPC_CMD_MASK, msg_payload (sys_tbl s ! i))]\<rparr>)"
    (is "sys_inv ?t")
proof -
  let ?sz = "out_size (sys_out s)" and ?len = "window (pub_head s) (wb_head s)"
  have pub: "pub_head ?t = pub_head s + 1" by (simp add: pub_head_def pc)
  have ok: "slots_ok ?sz (sys_tbl s) (wb_head s) ?len" using inv by (simp add: sys_inv_def Let_def)
  have room: "window (pub_head s) (send_tail (sys_out s)) < unat ?sz"
    using inv pc by (simp add: sys_inv_unfold)
  have lt: "?len < unat ?sz" and i: "i = lrpc_slot ?sz (wb_head s + of_nat ?len)"
    and c: "cmd AND LRPC_DONE_PARITY = lrpc_parity ?sz (wb_head s + of_nat ?len)"
    using inv pc by (simp_all add: sys_inv_unfold window_base)
  have ne: "lrpc_slot ?sz (wb_head s) \<noteq> i" if "0 < ?len"
    using lrpc_slot_inj [of ?sz 0 ?len "wb_head s"] ok lt that i by (auto simp: slots_ok_def)
  have "slots_ok ?sz (store_cmd (sys_tbl s) i cmd) (wb_head s) (Suc ?len)"
    unfolding i by (rule slots_ok_store_cmd [OF ok lt c])
  moreover note slots_queue_store_cmd [OF ok lt i, of cmd]
  moreover have w: "window (pub_head ?t) (wb_head s) = Suc ?len"
    "window (pub_head ?t) (send_tail (sys_out s)) = Suc (window (pub_head s) (send_tail (sys_out s)))"
    unfolding pub by (rule window_less_eq_add [OF lt] window_less_eq_add [OF room])+
  moreover have "sender_inv ?t" using room w by (simp add: sender_inv_def Let_def)
  moreover have "receiver_inv ?t"
    using inv ne slots_ok_slot_lt [OF ok] i w
    by (auto simp: sys_inv_unfold msg_view_def split: recv_pc.splits)
  ultimately show ?thesis using inv by (simp add: sys_inv_def Let_def)
qed

lemma recv_wb_inv:
  assumes inv: "sys_inv s" and pc: "recv_pc s = R_wb cmd payload"
  shows "sys_inv (s\<lparr>sys_shm := (sys_shm s)\<lparr>shm_recv_head_wb := recv_head (sys_in s)\<rparr>,
    recv_pc := R_idle, recvd := recvd s @ [(cmd, payload)]\<rparr>)" (is "sys_inv ?t")
proof -
  let ?sz = "out_size (sys_out s)" and ?len = "window (pub_head s) (wb_head s)"
  have pub: "pub_head ?t = pub_head s" by (simp add: pub_head_def)
  have rh: "recv_head (sys_in s) = wb_head s + 1" and pos: "0 < ?len"
    and msg: "(cmd, payload) = msg_view (sys_tbl s ! lrpc_slot ?sz (wb_head s))"
    using inv pc by (simp_all add: sys_inv_unfold)
  define n where "n = window (pub_head s) (wb_head s + 1)"
  then have n: "window (pub_head s) (wb_head s + 1) = n" and len: "?len = Suc n"
    using window_pop [OF pos] by simp_all
  have ok: "slots_ok ?sz (sys_tbl s) (wb_head s) (Suc n)"
    using inv len by (simp add: sys_inv_def Let_def)
  have "slots_ok ?sz (sys_tbl s) (wb_head s + 1) n" by (rule slots_ok_pop [OF ok])
  moreover note slots_queue_pop [of ?sz "sys_tbl s" "wb_head s" n]
  moreover have "sender_inv ?t" using inv by (simp add: sys_inv_def Let_def sender_inv_def pub
    cong: send_pc.case_cong)
  moreover have "receiver_inv ?t" by (simp add: receiver_inv_def Let_def)
  ultimately show ?thesis using inv n len by (simp add: sys_inv_def Let_def pub rh msg)
qed

lemma recv_load_inv:
  assumes inv: "sys_inv s" and pc: "recv_pc s = R_idle"
    and i: "i = lrpc_slot (in_size (sys_in s)) (recv_head (sys_in s))"
    and ready: "msg_cmd (sys_tbl s ! i) AND LRPC_DONE_PARITY =
      lrpc_parity (in_size (sys_in s)) (recv_head (sys_in s))"
  shows "sys_inv (s\<lparr>sys_in := (sys_in s)\<lparr>recv_head := recv_head (sys_in s) + 1\<rparr>,
    recv_pc := R_payload i (msg_cmd (sys_tbl s ! i))\<rparr>)"
proof -
  have ok: "slots_ok (out_size (sys_out s)) (sys_tbl s) (wb_head s) (window (pub_head s) (wb_head s))"
    using inv by (simp add: sys_inv_def Let_def)
  have "recv_head (sys_in s) = wb_head s" "in_size (sys_in s) = out_size (sys_out s)"
    using inv pc by (simp_all add: sys_inv_unfold)
  with inv ready i slots_head_ready [OF ok] show ?thesis
    by (simp add: sys_inv_unfold cong: send_pc.case_cong)
qed

lemma recv_payload_inv:
  assumes "sys_inv s" and "recv_pc s = R_payload i cmd"
  shows "sys_inv (s\<lparr>recv_pc := R_wb (cmd AND LRPC_CMD_MASK) (msg_payload (sys_tbl s ! i))\<rparr>)"
  using assms by (simp add: sys_inv_unfold msg_view_def cong: send_pc.case_cong)

lemma lrpc_step_inv:
  assumes "lrpc_step s t" and inv: "sys_inv s" shows "sys_inv t"
  using assms(1)
proof cases
  case send_fast
  with inv show ?thesis by (auto intro!: send_begin_inv simp: window_ge)
next
  case (send_slow cmd out payload)
  let ?u = "s\<lparr>sys_out := out\<rparr>"
  have u: "sys_inv ?u" using poll_inv [OF inv] send_slow by simp
  then have "window (send_head out) (send_tail out) \<le> unat (out_size out)"
    using send_slow by (simp add: sys_inv_unfold pub_head_def)
  with send_slow window_full [of "send_head out" "send_tail out" "out_size out"] u
  show ?thesis by (auto intro!: send_begin_inv)
next
  case recv_cmd
  with inv show ?thesis using recv_load_inv by simp
qed (use inv in \<open>simp_all add: poll_inv send_payload_inv send_cmd_inv recv_payload_inv recv_wb_inv\<close>)

definition lrpc_sys_init :: "lrpc_chan_out \<Rightarrow> lrpc_chan_in \<Rightarrow> lrpc_msg list \<Rightarrow> lrpc_sys" where
  "lrpc_sys_init out inn tbl =
     \<lparr>sys_out = out, sys_in = inn, sys_shm = \<lparr>shm_tbl = tbl, shm_recv_head_wb = 0\<rparr>,
      send_pc = S_idle, recv_pc = R_idle, sent = [], recvd = []\<rparr>"

definition zero_tbl :: "u32 \<Rightarrow> lrpc_msg list" where
  "zero_tbl sz = replicate (unat sz) \<lparr>msg_cmd = 0, msg_payload = 0\<rparr>"

lemma slots_ok_zero:
  assumes "is_power_of_two sz" shows "slots_ok sz (zero_tbl sz) 0 0"
proof -
  from assms obtain k where k: "k < 32" "sz = 2 ^ k" by (auto simp: is_power_of_two_iff)
  have "lrpc_parity sz (of_nat i) = LRPC_DONE_PARITY" if "i < unat sz" for i
  proof -
    have "i < 2 ^ k" using that k by (simp add: unat_power2)
    then have "\<not> bit i k" by (simp add: bit_iff_odd)
    then have "\<not> bit (of_nat i :: u32) k" by (simp add: bit_of_nat_iff)
    with k show ?thesis by (simp add: lrpc_parity_def and_power2_eq_0_iff)
  qed
  with assms lrpc_slot_lt show ?thesis by (simp add: slots_ok_def zero_tbl_def)
qed

lemma lrpc_init_ok:
  assumes "lrpc_init_out sz = Inr out" and "lrpc_init_in sz = Inr inn"
  shows "is_power_of_two sz" and "out = \<lparr>send_head = 0, send_tail = 0, out_size = sz\<rparr>"
    and "inn = \<lparr>recv_head = 0, in_size = sz\<rparr>"
  using assms by (auto simp: lrpc_init_out_def lrpc_init_in_def split: if_splits)

lemma lrpc_inv_init:
  assumes "lrpc_init_out sz = Inr out" and "lrpc_init_in sz = Inr inn"
  shows "lrpc_inv (out, inn, \<lparr>shm_tbl = zero_tbl sz, shm_recv_head_wb = 0\<rparr>)"
    and "lrpc_elems (out, inn, \<lparr>shm_tbl = zero_tbl sz, shm_recv_head_wb = 0\<rparr>) = []"
    and "lrpc_cap (out, inn, \<lparr>shm_tbl = zero_tbl sz, shm_recv_head_wb = 0\<rparr>) = unat sz"
  using lrpc_init_ok [OF assms] slots_ok_zero by (simp_all add: window_def slots_queue_def)

lemma sys_inv_init:
  assumes "lrpc_init_out sz = Inr out" and "lrpc_init_in sz = Inr inn"
  shows "sys_inv (lrpc_sys_init out inn (zero_tbl sz))"
  using lrpc_init_ok [OF assms] slots_ok_zero
  by (simp add: lrpc_sys_init_def sys_inv_unfold pub_head_def window_def slots_queue_def)

lemma lrpc_step_size: "lrpc_step s t \<Longrightarrow> out_size (sys_out t) = out_size (sys_out s)"
  by (induction rule: lrpc_step.induct) (simp_all add: send_begin_def Let_def)

lemma lrpc_reach_inv:
  assumes "lrpc_step\<^sup>*\<^sup>* s t" and "sys_inv s"
  shows "sys_inv t \<and> out_size (sys_out t) = out_size (sys_out s)"
  using assms by (induction rule: rtranclp_induct) (auto simp: lrpc_step_inv lrpc_step_size)

lemma sys_inv_disjoint:
  assumes inv: "sys_inv s" and r: "recv_pc s = R_payload i c"
  shows "send_pc s \<noteq> S_payload i c' p \<and> send_pc s \<noteq> S_cmd i c'"
proof -
  let ?sz = "out_size (sys_out s)" and ?len = "window (pub_head s) (wb_head s)"
  have ok: "slots_ok ?sz (sys_tbl s) (wb_head s) ?len" and pos: "0 < ?len"
    and i: "i = lrpc_slot ?sz (wb_head s)"
    using inv r by (simp_all add: sys_inv_unfold)
  have "lrpc_slot ?sz (wb_head s) \<noteq> lrpc_slot ?sz (pub_head s)" if "?len < unat ?sz"
    using lrpc_slot_inj [of ?sz 0 ?len "wb_head s"] ok that pos
    by (auto simp: slots_ok_def window_base)
  with inv i show ?thesis by (auto simp: sys_inv_unfold)
qed

lemma unat_window: "window h t \<le> unat sz \<Longrightarrow> unat (sz - h + t) = unat sz - window h t"
proof -
  assume *: "window h t \<le> unat sz"
  have "sz - h + t = sz - (h - t)" by simp
  then show ?thesis using * by (simp only: window_def unat_sub word_le_nat_alt)
qed

subsection \<open>What the channel guarantees\<close>

text \<open>
  C12. A channel set up by \<open>lrpc_init_out\<close> and \<open>lrpc_init_in\<close> on a zeroed ring is a bounded
  queue for any sequence of sends and receives: the answers \<open>lrpc_send\<close> and
  \<open>lrpc_recv\<close> give are those of a list of capacity \<open>size\<close>, however often the 32-bit
  counters wrap and whatever the sender has cached of the receiver's position.
\<close>

theorem lrpc_refines_bounded_queue:
  assumes "lrpc_init_out sz = Inr out" and "lrpc_init_in sz = Inr inn"
    and "fifo_valid lrpc_cmd_ok ops"
    and "fifo_run lrpc_enq lrpc_deq ops
      (out, inn, \<lparr>shm_tbl = zero_tbl sz, shm_recv_head_wb = 0\<rparr>) = (as, s)"
  shows "fifo_run (spec_enq (unat sz)) spec_deq ops [] = (as, lrpc_elems s)"
  using lrpc.run_refines [OF lrpc_inv_init(1) [OF assms(1,2)] assms(3,4)]
    lrpc_inv_init [OF assms(1,2)] by simp

theorem lrpc_refines_bounded_queue_witness:
  "fst (fifo_run lrpc_enq lrpc_deq [Enq (5, 7), Enq (6, 8), Enq (9, 9), Deq, Deq, Deq]
     (\<lparr>send_head = 0, send_tail = 0, out_size = 2\<rparr>, \<lparr>recv_head = 0, in_size = 2\<rparr>,
      \<lparr>shm_tbl = zero_tbl 2, shm_recv_head_wb = 0\<rparr>)) =
   [Accepted True, Accepted True, Accepted False, Got (Some (5, 7)), Got (Some (6, 8)), Got None]"
proof -
  let ?ops = "[Enq (5, 7), Enq (6, 8), Enq (9, 9), Deq, Deq, Deq] :: (u64 \<times> u64) fifo_op list"
  let ?s = "(\<lparr>send_head = 0, send_tail = 0, out_size = 2\<rparr>, \<lparr>recv_head = 0, in_size = 2\<rparr>,
    \<lparr>shm_tbl = zero_tbl 2, shm_recv_head_wb = 0\<rparr>)"
  obtain as s where run: "fifo_run lrpc_enq lrpc_deq ?ops ?s = (as, s)" by (rule prod.exhaust)
  have "lrpc_init_out 2 = Inr \<lparr>send_head = 0, send_tail = 0, out_size = 2\<rparr>"
    "lrpc_init_in 2 = Inr \<lparr>recv_head = 0, in_size = 2\<rparr>"
    by (simp_all add: lrpc_init_out_def lrpc_init_in_def is_power_of_two_def)
  from lrpc_refines_bounded_queue [OF this _ run]
  have "fifo_run (spec_enq 2) spec_deq ?ops [] = (as, lrpc_elems s)"
    by (simp add: lrpc_cmd_ok_def LRPC_DONE_PARITY_def)
  then show ?thesis using run by (simp add: spec_enq_def spec_deq_def)
qed





end
