(* ===== verification/Timer_Heap.thy ===== *)
theory Timer_Heap
  imports Stddef
begin

text \<open>
  The heap of timers (\<open>runtime/timer.c\<close>): every kthread keeps its armed timers in a 4-ary
  min-heap of deadlines stored in an array, and every armed timer remembers its kthread
  and its index in the array so that it can be cancelled. This theory holds the data
  and the two sifts; it shows that they restore the heap order, permute the timers and
  keep every timer's index right. The timer interface built on them is in \<open>Timer\<close>.

  Timer entries live at addresses (\<open>nat\<close>) in a store \<open>ents\<close>, kthreads are numbered. Array
  indices are below \<open>RUNTIME_MAX_TIMERS\<close>, far from the range of \<open>int\<close>, and are modelled as
  naturals; deadlines are 64-bit words. The time, the cycle counter calibration and the
  pending-preemption flag are inputs.
\<close>

subsection \<open>Data\<close>

datatype timer_fn = Timer_finish_sleep | Timer_other nat

record timer_entry =
  armed :: bool
  executing :: bool
  idx :: nat
  tfn :: timer_fn
  targ :: u64
  localk :: nat

record timer_idx =
  deadline_us :: u64
  tidx_e :: nat

type_synonym ents = "nat \<Rightarrow> timer_entry"

record ktimers =
  timern :: nat
  timers :: "timer_idx list"
  next_timer_tsc :: u64
  timer_softirq :: "nat option"

record tstate =
  ktm :: "nat \<Rightarrow> ktimers"
  ents :: ents

definition RUNTIME_MAX_TIMERS :: nat where
  "RUNTIME_MAX_TIMERS = 4096"

text \<open>The arity \<open>D\<close> of the heap.\<close>

definition timer_D :: nat where
  "timer_D = 4"

abbreviation dl :: "timer_idx list \<Rightarrow> nat \<Rightarrow> u64" where
  "dl heap i \<equiv> deadline_us (heap ! i)"

definition set_idx :: "ents \<Rightarrow> nat \<Rightarrow> nat \<Rightarrow> ents" where
  "set_idx es x i = es(x := (es x)\<lparr>idx := i\<rparr>)"

subsection \<open>The heap operations\<close>

text \<open>The loop of \<open>is_valid_heap\<close>, counting \<open>i\<close> down.\<close>

fun is_valid_heap_from :: "timer_idx list \<Rightarrow> nat \<Rightarrow> bool" where
  "is_valid_heap_from heap i =
     (if i > 1
      then let p = (i - 1) div timer_D
           in if dl heap p > dl heap i then False else is_valid_heap_from heap (i - 1)
      else True)"

definition is_valid_heap :: "timer_idx list \<Rightarrow> nat \<Rightarrow> bool" where
  "is_valid_heap heap n = is_valid_heap_from heap (n - 1)"

declare is_valid_heap_from.simps [simp del]

function sift_up_loop :: "timer_idx \<Rightarrow> timer_idx list \<Rightarrow> ents \<Rightarrow> nat \<Rightarrow> timer_idx list \<times> ents" where
  "sift_up_loop tmp heap es i =
     (if i > 0
      then let p = (i - 1) div timer_D
           in if deadline_us tmp \<ge> dl heap p then (heap, es)
              else let heap = heap[i := heap ! p];
                       es = set_idx es (tidx_e (heap ! i)) i;
                       heap = heap[p := tmp];
                       es = set_idx es (tidx_e (heap ! p)) p
                   in sift_up_loop tmp heap es p
      else (heap, es))"
  by pat_completeness auto
termination
  by (relation "measure (\<lambda>(tmp, heap, es, i). i)") (auto simp: timer_D_def)

declare sift_up_loop.simps [simp del]

definition sift_up :: "timer_idx list \<Rightarrow> ents \<Rightarrow> nat \<Rightarrow> timer_idx list \<times> ents" where
  "sift_up heap es i = sift_up_loop (heap ! i) heap es i"

text \<open>
  The inner loop of \<open>sift_down\<close>: \<open>r\<close> children are left from \<open>j\<close> on, \<open>w\<close> is the smallest
  deadline so far and \<open>c\<close> the child that has it (\<open>None\<close> for \<open>INT_MAX\<close>).
\<close>

fun scan_children :: "timer_idx list \<Rightarrow> nat \<Rightarrow> nat \<Rightarrow> nat \<Rightarrow> u64 \<Rightarrow> nat option \<Rightarrow> nat option" where
  "scan_children heap n j 0 w c = c"
| "scan_children heap n j (Suc r) w c =
     (if j \<ge> n then c
      else if dl heap j < w then scan_children heap n (j + 1) r (dl heap j) (Some j)
      else scan_children heap n (j + 1) r w c)"

lemma scan_children_bounds:
  "scan_children heap n j r w c = Some k \<Longrightarrow> c = Some k \<or> (j \<le> k \<and> k < n \<and> k < j + r)"
  by (induction heap n j r w c rule: scan_children.induct) (auto split: if_splits)

function sift_down_loop ::
  "timer_idx \<Rightarrow> timer_idx list \<Rightarrow> ents \<Rightarrow> nat \<Rightarrow> nat \<Rightarrow> timer_idx list \<times> ents" where
  "sift_down_loop tmp heap es i n =
     (case scan_children heap n (i * timer_D + 1) timer_D (deadline_us tmp) None of
        None \<Rightarrow> (heap, es)
      | Some c \<Rightarrow>
          let heap = heap[i := heap ! c];
              es = set_idx es (tidx_e (heap ! i)) i;
              heap = heap[c := tmp];
              es = set_idx es (tidx_e (heap ! c)) c
          in sift_down_loop tmp heap es c n)"
  by pat_completeness auto
termination
proof (relation "measure (\<lambda>(tmp, heap, es, i, n). n - i)", goal_cases)
  case (2 tmp heap es i n c)
  then have "i * timer_D + 1 \<le> c \<and> c < n" using scan_children_bounds by fastforce
  then have "i < c" "c < n" by (auto simp: timer_D_def)
  then show ?case by auto
qed simp

declare sift_down_loop.simps [simp del]

definition sift_down :: "timer_idx list \<Rightarrow> ents \<Rightarrow> nat \<Rightarrow> nat \<Rightarrow> timer_idx list \<times> ents" where
  "sift_down heap es i n = sift_down_loop (heap ! i) heap es i n"

subsection \<open>What the sifts keep\<close>

definition idx_ok :: "timer_idx list \<Rightarrow> ents \<Rightarrow> nat \<Rightarrow> bool" where
  "idx_ok heap es n \<longleftrightarrow> n \<le> length heap \<and> (\<forall>i < n. idx (es (tidx_e (heap ! i))) = i)"

definition heap_entries :: "timer_idx list \<Rightarrow> nat \<Rightarrow> nat set" where
  "heap_entries heap n = (\<lambda>i. tidx_e (heap ! i)) ` {..<n}"

text \<open>
  \<open>sift_rel n\<close>: the first \<open>n\<close> timers are permuted, nothing else moves, the index of every
  timer in the heap is right, and only these indices have changed.
\<close>

definition sift_rel :: "nat \<Rightarrow> timer_idx list \<times> ents \<Rightarrow> timer_idx list \<times> ents \<Rightarrow> bool" where
  "sift_rel n a b \<longleftrightarrow>
     length (fst b) = length (fst a) \<and> mset (take n (fst b)) = mset (take n (fst a)) \<and>
     idx_ok (fst b) (snd b) n \<and>
     (\<forall>x. (snd b x)\<lparr>idx := 0\<rparr> = (snd a x)\<lparr>idx := 0\<rparr>) \<and>
     (\<forall>x. x \<notin> heap_entries (fst a) n \<longrightarrow> snd b x = snd a x)"

lemma heap_entries_take:
  "n \<le> length heap \<Longrightarrow> heap_entries heap n = tidx_e ` set (take n heap)"
  by (simp add: heap_entries_def nth_image [symmetric] image_image lessThan_atLeast0)

lemma idx_ok_inj: "idx_ok heap es n \<Longrightarrow> i < n \<Longrightarrow> j < n \<Longrightarrow>
    tidx_e (heap ! i) = tidx_e (heap ! j) \<Longrightarrow> i = j"
  by (metis idx_ok_def)

lemma idx_ok_cong: "(\<And>x. idx (es' x) = idx (es x)) \<Longrightarrow> idx_ok heap es n \<Longrightarrow> idx_ok heap es' n"
  by (simp add: idx_ok_def)

lemma sift_rel_idx_ok: "sift_rel n a b \<Longrightarrow> idx_ok (fst b) (snd b) n"
  by (simp add: sift_rel_def)

lemma sift_rel_refl: "idx_ok heap es n \<Longrightarrow> sift_rel n (heap, es) (heap, es)"
  by (simp add: sift_rel_def)

lemma sift_rel_entries:
  assumes "sift_rel n a b" shows "heap_entries (fst b) n = heap_entries (fst a) n"
proof -
  have "n \<le> length (fst a)" "n \<le> length (fst b)" using assms by (auto simp: sift_rel_def idx_ok_def)
  moreover have "set (take n (fst b)) = set (take n (fst a))"
    using assms mset_eq_setD by (auto simp: sift_rel_def)
  ultimately show ?thesis by (simp add: heap_entries_take)
qed

lemma sift_rel_trans: "sift_rel n a b \<Longrightarrow> sift_rel n b c \<Longrightarrow> sift_rel n a c"
  using sift_rel_entries [of n a b] by (simp add: sift_rel_def)

lemma sift_rel_swap:
  assumes ok: "idx_ok heap es n" and i: "i < n" and p: "p < n" and ne: "i \<noteq> p"
  shows "sift_rel n (heap, es)
    (heap[i := heap ! p, p := heap ! i],
     set_idx (set_idx es (tidx_e (heap ! p)) i) (tidx_e (heap ! i)) p)"
proof -
  let ?h = "heap[i := heap ! p, p := heap ! i]"
  have len: "n \<le> length heap" using ok by (simp add: idx_ok_def)
  have e: "tidx_e (heap ! i) \<noteq> tidx_e (heap ! p)" using idx_ok_inj [OF ok i p] ne by blast
  have "mset (take n ?h) = mset (take n heap)"
    using mset_swap [of p "take n heap" i] i p len by (simp add: take_update_swap nth_take)
  moreover have "idx_ok ?h (set_idx (set_idx es (tidx_e (heap ! p)) i) (tidx_e (heap ! i)) p) n"
    unfolding idx_ok_def
  proof (intro conjI allI impI)
    fix j assume j: "j < n"
    have "tidx_e (heap ! j) \<noteq> tidx_e (heap ! i)" if "j \<noteq> i" using idx_ok_inj [OF ok j i] that by blast
    moreover have "tidx_e (heap ! j) \<noteq> tidx_e (heap ! p)" if "j \<noteq> p"
      using idx_ok_inj [OF ok j p] that by blast
    ultimately show "idx (set_idx (set_idx es (tidx_e (heap ! p)) i) (tidx_e (heap ! i)) p
        (tidx_e (?h ! j))) = j"
      using ok i p j len e ne by (auto simp: idx_ok_def set_idx_def nth_list_update)
  qed (simp add: len)
  ultimately show ?thesis using i p len
    by (auto simp: sift_rel_def set_idx_def heap_entries_def)
qed

lemma sift_up_loop_rel:
  assumes "idx_ok heap es n" and "i < n" and "tmp = heap ! i"
  shows "sift_rel n (heap, es) (sift_up_loop tmp heap es i)"
  using assms
proof (induction tmp heap es i rule: sift_up_loop.induct)
  case (1 tmp heap es i)
  let ?p = "(i - 1) div timer_D"
  show ?case
  proof (cases "i > 0 \<and> \<not> deadline_us tmp \<ge> dl heap ?p")
    case True
    then have p: "?p < i" by (auto simp: timer_D_def)
    let ?h = "heap[i := heap ! ?p, ?p := tmp]"
    let ?es = "set_idx (set_idx es (tidx_e (heap ! ?p)) i) (tidx_e tmp) ?p"
    have len: "i < length heap" using 1 by (simp add: idx_ok_def)
    have step: "sift_up_loop tmp heap es i = sift_up_loop tmp ?h ?es ?p"
      using True p len by (subst sift_up_loop.simps) (simp add: Let_def)
    have rel: "sift_rel n (heap, es) (?h, ?es)"
      using sift_rel_swap [of heap es n i ?p] 1 p by simp
    have "sift_rel n (?h, ?es) (sift_up_loop tmp ?h ?es ?p)"
      using "1.IH" [of ?p "heap[i := heap ! ?p]" "set_idx es (tidx_e (heap ! ?p)) i" ?h ?es]
        True p len "1.prems" sift_rel_idx_ok [OF rel] by simp
    with rel show ?thesis unfolding step by (rule sift_rel_trans)
  next
    case False
    then have "sift_up_loop tmp heap es i = (heap, es)"
      by (subst sift_up_loop.simps) (auto simp: Let_def)
    then show ?thesis using 1 by (simp add: sift_rel_refl)
  qed
qed

lemma sift_down_loop_rel:
  assumes "idx_ok heap es n" and "i < n" and "tmp = heap ! i"
  shows "sift_rel n (heap, es) (sift_down_loop tmp heap es i n)"
  using assms
proof (induction tmp heap es i n rule: sift_down_loop.induct)
  case (1 tmp heap es i n)
  show ?case
  proof (cases "scan_children heap n (i * timer_D + 1) timer_D (deadline_us tmp) None")
    case None
    then show ?thesis using 1 by (subst sift_down_loop.simps) (simp add: sift_rel_refl)
  next
    case (Some c)
    then have "i * timer_D + 1 \<le> c" and c: "c < n" using scan_children_bounds by fastforce+
    then have ic: "i < c" by (auto simp: timer_D_def)
    let ?h = "heap[i := heap ! c, c := tmp]"
    let ?es = "set_idx (set_idx es (tidx_e (heap ! c)) i) (tidx_e tmp) c"
    have len: "i < length heap" "c < length heap" using 1 c by (simp_all add: idx_ok_def)
    have step: "sift_down_loop tmp heap es i n = sift_down_loop tmp ?h ?es c n"
      using len by (subst sift_down_loop.simps) (simp add: Some [simplified] Let_def)
    have rel: "sift_rel n (heap, es) (?h, ?es)"
      using sift_rel_swap [of heap es n i c] 1 ic c by simp
    have "sift_rel n (?h, ?es) (sift_down_loop tmp ?h ?es c n)"
      using "1.IH" [OF Some, of "heap[i := heap ! c]" "set_idx es (tidx_e (heap ! c)) i" ?h ?es]
        c len "1.prems" sift_rel_idx_ok [OF rel] by simp
    with rel show ?thesis unfolding step by (rule sift_rel_trans)
  qed
qed

subsection \<open>The sifts restore the heap order\<close>

definition par :: "nat \<Rightarrow> nat" where
  "par j = (j - 1) div timer_D"

definition min_heap :: "timer_idx list \<Rightarrow> nat \<Rightarrow> bool" where
  "min_heap heap n \<longleftrightarrow> (\<forall>j < n. 0 < j \<longrightarrow> dl heap (par j) \<le> dl heap j)"

text \<open>
  The order may be broken only between \<open>i\<close> and its parent (\<open>up_ok\<close>), or only between
  \<open>i\<close> and its children (\<open>down_ok\<close>); either way the children of \<open>i\<close> are not before its parent.
\<close>

definition bridged :: "timer_idx list \<Rightarrow> nat \<Rightarrow> nat \<Rightarrow> bool" where
  "bridged heap n i \<longleftrightarrow> (\<forall>j < n. 0 < j \<and> par j = i \<and> 0 < i \<longrightarrow> dl heap (par i) \<le> dl heap j)"

definition up_ok :: "timer_idx list \<Rightarrow> nat \<Rightarrow> nat \<Rightarrow> bool" where
  "up_ok heap n i \<longleftrightarrow>
     (\<forall>j < n. 0 < j \<and> j \<noteq> i \<longrightarrow> dl heap (par j) \<le> dl heap j) \<and> bridged heap n i"

definition down_ok :: "timer_idx list \<Rightarrow> nat \<Rightarrow> nat \<Rightarrow> bool" where
  "down_ok heap n i \<longleftrightarrow>
     (\<forall>j < n. 0 < j \<and> par j \<noteq> i \<longrightarrow> dl heap (par j) \<le> dl heap j) \<and> bridged heap n i"

lemma par_less: "0 < j \<Longrightarrow> par j < j"
  by (auto simp: par_def timer_D_def)

lemma par_eq: "0 < j \<Longrightarrow> par j = i \<longleftrightarrow> i * timer_D + 1 \<le> j \<and> j < i * timer_D + 1 + timer_D"
  by (auto simp: par_def timer_D_def)

lemma up_ok_step:
  assumes up: "up_ok heap n i" and i: "0 < i" "i < n" and len: "n \<le> length heap"
    and lt: "dl heap i < dl heap (par i)"
  shows "up_ok (heap[i := heap ! par i, par i := heap ! i]) n (par i)"
proof -
  let ?p = "par i" and ?h = "heap[i := heap ! par i, par i := heap ! i]"
  have p: "?p < i" using par_less i by blast
  have at: "?h ! j = (if j = ?p then heap ! i else if j = i then heap ! ?p else heap ! j)"
    if "j < n" for j using that len p i by (auto simp: nth_list_update)
  have ord: "dl heap (par j) \<le> dl heap j" if "j < n" "0 < j" "j \<noteq> i" for j
    using up that by (auto simp: up_ok_def)
  have br: "dl heap ?p \<le> dl heap j" if "j < n" "0 < j" "par j = i" for j
    using up that i by (auto simp: up_ok_def bridged_def)
  have 1: "dl ?h (par j) \<le> dl ?h j" if j: "j < n" "0 < j" "j \<noteq> ?p" for j
  proof -
    have "par j < n" using par_less [of j] j by simp
    then show ?thesis using at [of j] at [of "par j"] j lt ord [of j] br [of j] p par_less [of j]
      by (auto simp: order.strict_implies_order intro: order.trans split: if_splits)
  qed
  have 2: "dl ?h (par ?p) \<le> dl ?h j" if j: "j < n" "0 < j" "par j = ?p" "0 < ?p" for j
  proof -
    have pp: "par ?p < ?p" using par_less j by blast
    have "dl heap (par ?p) \<le> dl heap ?p" using ord [of ?p] p i j by simp
    moreover have "j \<noteq> i \<Longrightarrow> dl heap ?p \<le> dl heap j" using ord [of j] j by simp
    moreover have "j \<noteq> ?p" using par_less [of j] j by auto
    ultimately show ?thesis using at [of j] at [of "par ?p"] pp p i j by (auto intro: order.trans)
  qed
  from 1 2 show ?thesis by (auto simp: up_ok_def bridged_def)
qed

lemma sift_up_loop_heap:
  assumes "up_ok heap n i" and "i < n" and "n \<le> length heap" and "tmp = heap ! i"
  shows "min_heap (fst (sift_up_loop tmp heap es i)) n"
  using assms
proof (induction tmp heap es i rule: sift_up_loop.induct)
  case (1 tmp heap es i)
  let ?p = "(i - 1) div timer_D"
  have par: "par i = ?p" by (simp add: par_def)
  show ?case
  proof (cases "i > 0 \<and> \<not> deadline_us tmp \<ge> dl heap ?p")
    case True
    then have p: "?p < i" by (auto simp: timer_D_def)
    let ?h = "heap[i := heap ! ?p, ?p := tmp]"
    let ?es = "set_idx (set_idx es (tidx_e (heap ! ?p)) i) (tidx_e tmp) ?p"
    have len: "i < length heap" using 1 by simp
    have step: "sift_up_loop tmp heap es i = sift_up_loop tmp ?h ?es ?p"
      using True p len by (subst sift_up_loop.simps) (simp add: Let_def)
    have "up_ok ?h n ?p" using up_ok_step [of heap n i] "1.prems" True by (simp add: par not_le)
    then have "min_heap (fst (sift_up_loop tmp ?h ?es ?p)) n"
      using "1.IH" [of ?p "heap[i := heap ! ?p]" "set_idx es (tidx_e (heap ! ?p)) i" ?h ?es]
        True p len "1.prems" by simp
    then show ?thesis unfolding step .
  next
    case False
    then have "sift_up_loop tmp heap es i = (heap, es)"
      by (subst sift_up_loop.simps) (auto simp: Let_def)
    moreover have "min_heap heap n"
      unfolding min_heap_def
    proof (intro allI impI)
      fix j assume "j < n" "0 < j"
      then show "dl heap (par j) \<le> dl heap j"
        using 1 False by (cases "j = i") (auto simp: up_ok_def par)
    qed
    ultimately show ?thesis by simp
  qed
qed

lemma scan_children_min:
  "scan_children heap n j r w c0 = c \<Longrightarrow>
     (c = c0 \<and> (\<forall>k\<in>{j..<j + r}. k < n \<longrightarrow> w \<le> dl heap k)) \<or>
     (\<exists>m\<in>{j..<j + r}. c = Some m \<and> m < n \<and> dl heap m < w \<and>
        (\<forall>k\<in>{j..<j + r}. k < n \<longrightarrow> dl heap m \<le> dl heap k))"
proof (induction heap n j r w c0 rule: scan_children.induct)
  case (2 heap n j r w c0)
  have range: "{j..<j + Suc r} = insert j {j + 1..<j + 1 + r}" by auto
  consider (out) "n \<le> j" | (less) "\<not> n \<le> j" "dl heap j < w" | (ge) "\<not> n \<le> j" "\<not> dl heap j < w"
    by blast
  then show ?case
  proof cases
    case less
    then have "scan_children heap n (j + 1) r (dl heap j) (Some j) = c" using "2.prems" by simp
    from "2.IH"(1) [OF less this] less show ?thesis unfolding range
      by (elim disjE bexE conjE) (auto intro: less_trans order.strict_implies_order)
  next
    case ge
    then have "scan_children heap n (j + 1) r w c0 = c" using "2.prems" by simp
    from "2.IH"(2) [OF ge this] ge show ?thesis unfolding range
      by (elim disjE bexE conjE) (auto simp: not_less intro: order.strict_implies_order less_le_trans)
  qed (use "2.prems" in auto)
qed simp

lemma down_ok_step:
  assumes dn: "down_ok heap n i" and c: "0 < c" "c < n" "par c = i" and len: "n \<le> length heap"
    and lt: "dl heap c < dl heap i"
    and least: "\<And>j. 0 < j \<Longrightarrow> j < n \<Longrightarrow> par j = i \<Longrightarrow> dl heap c \<le> dl heap j"
  shows "down_ok (heap[i := heap ! c, c := heap ! i]) n c"
proof -
  let ?h = "heap[i := heap ! c, c := heap ! i]"
  have ic: "i < c" using par_less c by blast
  have at: "?h ! j = (if j = c then heap ! i else if j = i then heap ! c else heap ! j)"
    if "j < n" for j using that len ic c by (auto simp: nth_list_update)
  have ord: "dl heap (par j) \<le> dl heap j" if "j < n" "0 < j" "par j \<noteq> i" for j
    using dn that by (auto simp: down_ok_def)
  have br: "dl heap (par i) \<le> dl heap c" if "0 < i"
    using dn that c by (auto simp: down_ok_def bridged_def)
  have 1: "dl ?h (par j) \<le> dl ?h j" if j: "j < n" "0 < j" "par j \<noteq> c" for j
  proof -
    have pj: "par j < j" "par j < n" using par_less [of j] j by simp_all
    consider "j = i" | "j = c" | "j \<noteq> i" "j \<noteq> c" "par j = i" | "j \<noteq> i" "j \<noteq> c" "par j \<noteq> i" by blast
    then show ?thesis
      using at [of j] at [of "par j"] j pj lt least [of j] ord [of j] br ic c
      by cases (simp_all add: order.strict_implies_order)
  qed
  have 2: "dl ?h (par c) \<le> dl ?h j" if j: "j < n" "0 < j" "par j = c" for j
  proof -
    have "c < j" using par_less [of j] j by simp
    then show ?thesis using at [of j] at [of i] ord [of j] j ic c by simp
  qed
  from 1 2 show ?thesis by (auto simp: down_ok_def bridged_def)
qed

lemma sift_down_loop_heap:
  assumes "down_ok heap n i" and "i < n" and "n \<le> length heap" and "tmp = heap ! i"
  shows "min_heap (fst (sift_down_loop tmp heap es i n)) n"
  using assms
proof (induction tmp heap es i n rule: sift_down_loop.induct)
  case (1 tmp heap es i n)
  let ?scan = "scan_children heap n (i * timer_D + 1) timer_D (deadline_us tmp) None"
  note scan = scan_children_min [of heap n "i * timer_D + 1" timer_D "deadline_us tmp" None]
  show ?case
  proof (cases ?scan)
    case None
    then have "sift_down_loop tmp heap es i n = (heap, es)" by (subst sift_down_loop.simps) simp
    moreover have "min_heap heap n"
      unfolding min_heap_def
    proof (intro allI impI)
      fix j assume j: "j < n" "0 < j"
      show "dl heap (par j) \<le> dl heap j"
      proof (cases "par j = i")
        case True
        then show ?thesis using scan [OF None] par_eq [of j i] j 1 by auto
      next
        case False
        then show ?thesis using 1 j by (auto simp: down_ok_def)
      qed
    qed
    ultimately show ?thesis by simp
  next
    case (Some c)
    from scan [OF Some] have c: "i * timer_D + 1 \<le> c" "c < i * timer_D + 1 + timer_D" "c < n"
      and lt: "dl heap c < deadline_us tmp"
      and least: "\<And>j. j \<in> {i * timer_D + 1..<i * timer_D + 1 + timer_D} \<Longrightarrow> j < n \<Longrightarrow> dl heap c \<le> dl heap j"
      by auto
    have pc: "par c = i" using c par_eq [of c i] by simp
    let ?h = "heap[i := heap ! c, c := tmp]"
    let ?es = "set_idx (set_idx es (tidx_e (heap ! c)) i) (tidx_e tmp) c"
    have len: "i < length heap" "c < length heap" using 1 c by simp_all
    have step: "sift_down_loop tmp heap es i n = sift_down_loop tmp ?h ?es c n"
      using len by (subst sift_down_loop.simps) (simp add: Some [simplified] Let_def)
    have "down_ok ?h n c"
      using down_ok_step [of heap n i c] "1.prems" c pc lt least par_eq by simp
    then have "min_heap (fst (sift_down_loop tmp ?h ?es c n)) n"
      using "1.IH" [OF Some, of "heap[i := heap ! c]" "set_idx es (tidx_e (heap ! c)) i" ?h ?es]
        c len "1.prems" by simp
    then show ?thesis unfolding step .
  qed
qed

text \<open>On a heap that is in order already, sifting down does nothing.\<close>

lemma sift_down_id:
  assumes "min_heap heap n" and "i < n"
  shows "sift_down heap es i n = (heap, es)"
proof -
  have "scan_children heap n (i * timer_D + 1) timer_D (dl heap i) None = None"
  proof (rule ccontr)
    assume "scan_children heap n (i * timer_D + 1) timer_D (dl heap i) None \<noteq> None"
    then obtain c where c: "c \<in> {i * timer_D + 1..<i * timer_D + 1 + timer_D}" "c < n"
        "dl heap c < dl heap i"
      using scan_children_min [OF refl, of heap n "i * timer_D + 1" timer_D "dl heap i" None] by auto
    then have "par c = i" using par_eq [of c i] by simp
    moreover have "dl heap (par c) \<le> dl heap c" using assms c by (auto simp: min_heap_def)
    ultimately show False using c by simp
  qed
  then show ?thesis unfolding sift_down_def by (subst sift_down_loop.simps) simp
qed

text \<open>
  Replacing the timer at \<open>i\<close>: sifting up and then down from \<open>i\<close> restores the order.
\<close>

definition hole_ok :: "timer_idx list \<Rightarrow> nat \<Rightarrow> nat \<Rightarrow> bool" where
  "hole_ok heap n i \<longleftrightarrow>
     (\<forall>j < n. 0 < j \<and> j \<noteq> i \<and> par j \<noteq> i \<longrightarrow> dl heap (par j) \<le> dl heap j) \<and> bridged heap n i"

lemma sift_up_down:
  assumes hole: "hole_ok heap n i" and i: "i < n" and ok: "idx_ok heap es n"
  defines "u \<equiv> sift_up heap es i"
  defines "d \<equiv> sift_down (fst u) (snd u) i n"
  shows "min_heap (fst d) n \<and> sift_rel n (heap, es) d"
proof (cases "0 < i \<and> dl heap i < dl heap (par i)")
  case True
  have len: "n \<le> length heap" using ok by (simp add: idx_ok_def)
  have "up_ok heap n i"
    unfolding up_ok_def
  proof (intro conjI allI impI)
    fix j assume j: "j < n" "0 < j \<and> j \<noteq> i"
    then show "dl heap (par j) \<le> dl heap j"
      using hole True by (cases "par j = i") (auto simp: hole_ok_def bridged_def intro: order.trans)
  qed (use hole in \<open>simp add: hole_ok_def\<close>)
  then have h: "min_heap (fst u) n"
    unfolding u_def sift_up_def by (rule sift_up_loop_heap [OF _ i len refl])
  then have "d = u" unfolding d_def using sift_down_id [OF h i] by simp
  with h show ?thesis using sift_up_loop_rel [OF ok i refl] by (simp add: u_def sift_up_def)
next
  case False
  have len: "n \<le> length heap" using ok by (simp add: idx_ok_def)
  have u: "u = (heap, es)"
    using False unfolding u_def sift_up_def
    by (subst sift_up_loop.simps) (auto simp: Let_def par_def not_less)
  have "down_ok heap n i"
    unfolding down_ok_def
  proof (intro conjI allI impI)
    fix j assume j: "j < n" "0 < j \<and> par j \<noteq> i"
    then show "dl heap (par j) \<le> dl heap j"
      using hole False by (cases "j = i") (auto simp: hole_ok_def not_less)
  qed (use hole in \<open>simp add: hole_ok_def\<close>)
  then show ?thesis
    unfolding d_def u sift_down_def fst_conv snd_conv
    using sift_down_loop_heap [OF _ i len refl] sift_down_loop_rel [OF ok i refl] by blast
qed

end
