(* ===== verification/Timer.thy ===== *)
theory Timer
  imports Timer_Heap
begin

text \<open>
  The timer interface (\<open>runtime/timer.c\<close>, \<open>inc/runtime/timer.h\<close>): starting and cancelling
  timers, sleeping, and the softirq that runs the handlers of expired timers. The
  invariant ties every armed timer to its place in the heap of its kthread; the
  interface is shown to be a priority queue of deadlines (the locale \<open>timer_queue\<close>), and
  the life of a timer (armed, then fired or cancelled, once) is an invariant of the
  machine whose steps are the operations in any order.
\<close>

subsection \<open>The timer interface\<close>

text \<open>
  \<open>cpu\<close> and \<open>st\<close> stand for \<open>cycles_per_us\<close> and \<open>start_tsc\<close>, fixed by the calibration of the
  cycle counter at start-up. Every operation below runs under the kthread's \<open>timer_lock\<close>.
\<close>

definition timer_init :: "nat \<Rightarrow> timer_fn \<Rightarrow> u64 \<Rightarrow> tstate \<Rightarrow> tstate" where
  "timer_init e f a s =
     s\<lparr>ents := (ents s)(e := (ents s e)\<lparr>armed := False, executing := False, tfn := f, targ := a\<rparr>)\<rparr>"

definition timer_busy :: "nat \<Rightarrow> tstate \<Rightarrow> bool" where
  "timer_busy e s \<longleftrightarrow> armed (ents s e) \<or> executing (ents s e)"

definition update_q_ptrs :: "u64 \<Rightarrow> u64 \<Rightarrow> nat \<Rightarrow> tstate \<Rightarrow> tstate" where
  "update_q_ptrs cpu st k s =
     (let kt = ktm s k;
          next_tsc = (if timern kt \<noteq> 0 then dl (timers kt) 0 * cpu + st else - 1)
      in s\<lparr>ktm := (ktm s)(k := kt\<lparr>next_timer_tsc := next_tsc\<rparr>)\<rparr>)"

definition timer_earliest_deadline :: "nat \<Rightarrow> tstate \<Rightarrow> u64" where
  "timer_earliest_deadline k s = (if timern (ktm s k) = 0 then 0 else dl (timers (ktm s k)) 0)"

definition timer_start_locked :: "nat \<Rightarrow> nat \<Rightarrow> u64 \<Rightarrow> tstate \<Rightarrow> tstate exec" where
  "timer_start_locked k e d s =
     (let kt = ktm s k; es = ents s
      in if armed (es e) then Inl Bug_on
         else let i = timern kt; n = i + 1
              in if n \<ge> RUNTIME_MAX_TIMERS then Inl Bug_on
                 else let heap = (timers kt)[i := \<lparr>deadline_us = d, tidx_e = e\<rparr>];
                          es = es(e := (es e)\<lparr>idx := i, localk := k\<rparr>);
                          (heap, es) = sift_up heap es i;
                          es = es(e := (es e)\<lparr>armed := True, executing := False\<rparr>)
                      in Inr (s\<lparr>ktm := (ktm s)(k := kt\<lparr>timern := n, timers := heap\<rparr>), ents := es\<rparr>))"

definition timer_start :: "u64 \<Rightarrow> u64 \<Rightarrow> nat \<Rightarrow> nat \<Rightarrow> u64 \<Rightarrow> tstate \<Rightarrow> tstate exec" where
  "timer_start cpu st k e d s =
     bind_exec (timer_start_locked k e d s) (\<lambda>s. Inr (update_q_ptrs cpu st k s))"

text \<open>
  The part of \<open>__timer_cancel\<close> under the lock. The answer \<open>False\<close> stands for the branch in
  which the timer is not armed: the caller then waits until its handler is not running
  before it returns \<open>false\<close>.
\<close>

definition timer_cancel_locked :: "u64 \<Rightarrow> u64 \<Rightarrow> nat \<Rightarrow> tstate \<Rightarrow> bool \<times> tstate" where
  "timer_cancel_locked cpu st e s =
     (let k = localk (ents s e); kt = ktm s k; es = ents s
      in if \<not> armed (es e) then (False, s)
         else let es = es(e := (es e)\<lparr>armed := False\<rparr>);
                  last = timern kt - 1;
                  i = idx (es e)
              in if i = last
                 then (True, update_q_ptrs cpu st k
                        (s\<lparr>ktm := (ktm s)(k := kt\<lparr>timern := last\<rparr>), ents := es\<rparr>))
                 else let heap = (timers kt)[i := timers kt ! last];
                          es = set_idx es (tidx_e (heap ! i)) i;
                          (heap, es) = sift_up heap es i;
                          (heap, es) = sift_down heap es i last
                      in (True, update_q_ptrs cpu st k
                            (s\<lparr>ktm := (ktm s)(k := kt\<lparr>timern := last, timers := heap\<rparr>), ents := es\<rparr>)))"

definition timer_cancel :: "u64 \<Rightarrow> u64 \<Rightarrow> nat \<Rightarrow> tstate \<Rightarrow> bool \<times> tstate" where
  "timer_cancel cpu st e s = (if \<not> armed (ents s e) then (False, s) else timer_cancel_locked cpu st e s)"

text \<open>
  \<open>__timer_sleep\<close> up to the point where the calling thread parks: a fresh entry \<open>e\<close> on its
  stack, armed with the handler that makes the thread \<open>self\<close> ready again.
  \<open>timer_sleep_until\<close> and \<open>timer_sleep\<close> read the time first; \<open>None\<close> means that the caller
  does not sleep.
\<close>

definition timer_sleep_start :: "u64 \<Rightarrow> u64 \<Rightarrow> nat \<Rightarrow> nat \<Rightarrow> u64 \<Rightarrow> u64 \<Rightarrow> tstate \<Rightarrow> tstate exec" where
  "timer_sleep_start cpu st k e self d s = timer_start cpu st k e d (timer_init e Timer_finish_sleep self s)"

definition timer_sleep_until ::
  "u64 \<Rightarrow> u64 \<Rightarrow> u64 \<Rightarrow> nat \<Rightarrow> nat \<Rightarrow> u64 \<Rightarrow> u64 \<Rightarrow> tstate \<Rightarrow> tstate exec option" where
  "timer_sleep_until now cpu st k e self d s =
     (if now \<ge> d then None else Some (timer_sleep_start cpu st k e self d s))"

definition timer_sleep :: "u64 \<Rightarrow> u64 \<Rightarrow> u64 \<Rightarrow> nat \<Rightarrow> nat \<Rightarrow> u64 \<Rightarrow> u64 \<Rightarrow> tstate \<Rightarrow> tstate exec" where
  "timer_sleep now cpu st k e self dur s = timer_sleep_start cpu st k e self (now + dur) s"

text \<open>
  One round of the loop of \<open>timer_softirq_one\<close> up to the call of the handler: the timer to
  run, taken out of the heap, marked as executing and disarmed.
\<close>

definition timer_softirq_pop :: "u64 \<Rightarrow> u64 \<Rightarrow> nat \<Rightarrow> u64 \<Rightarrow> tstate \<Rightarrow> (nat \<times> tstate) option" where
  "timer_softirq_pop cpu st k now s =
     (let kt = ktm s k; es = ents s
      in if timern kt > 0 \<and> dl (timers kt) 0 \<le> now
         then let i = timern kt - 1;
                  e = tidx_e (timers kt ! 0);
                  (heap, es) =
                    (if i > 0
                     then let heap = (timers kt)[0 := timers kt ! i];
                              es = set_idx es (tidx_e (heap ! 0)) 0
                          in sift_down heap es 0 i
                     else (timers kt, es));
                  s = update_q_ptrs cpu st k
                        (s\<lparr>ktm := (ktm s)(k := kt\<lparr>timern := i, timers := heap\<rparr>), ents := es\<rparr>);
                  es = ents s
              in Some (e, s\<lparr>ents := es(e := (es e)\<lparr>executing := True, armed := False\<rparr>)\<rparr>)
         else None)"

text \<open>After the handler has returned.\<close>

definition timer_softirq_done :: "nat \<Rightarrow> tstate \<Rightarrow> tstate" where
  "timer_softirq_done e s = s\<lparr>ents := (ents s)(e := (ents s e)\<lparr>executing := False\<rparr>)\<rparr>"

text \<open>
  The loop of \<open>timer_softirq_one\<close>. Each round reads the preemption flag and the time, the
  elements of \<open>polls\<close>; the handlers are a parameter. \<open>None\<close> means that the loop has not
  ended within the given readings. The list collects the timers that ran.
\<close>

fun timer_softirq_one ::
  "(timer_fn \<Rightarrow> u64 \<Rightarrow> tstate \<Rightarrow> tstate) \<Rightarrow> u64 \<Rightarrow> u64 \<Rightarrow> nat \<Rightarrow> (bool \<times> u64) list \<Rightarrow> tstate
     \<Rightarrow> (nat list \<times> tstate) option" where
  "timer_softirq_one run cpu st k [] s = None"
| "timer_softirq_one run cpu st k ((preempt_needed, now) # polls) s =
     (if preempt_needed then Some ([], s)
      else case timer_softirq_pop cpu st k now s of
             None \<Rightarrow> Some ([], s)
           | Some (e, s') \<Rightarrow>
               let s'' = timer_softirq_done e (run (tfn (ents s' e)) (targ (ents s' e)) s')
               in case timer_softirq_one run cpu st k polls s'' of
                    None \<Rightarrow> None
                  | Some (es, t) \<Rightarrow> Some (e # es, t))"

text \<open>
  \<open>timer_init_thread\<close>: the array comes from the allocator and the thread from
  \<open>thread_create\<close>; either may fail.
\<close>

definition timer_init_thread :: "nat \<Rightarrow> timer_idx list option \<Rightarrow> nat option \<Rightarrow> tstate \<Rightarrow> int \<times> tstate" where
  "timer_init_thread k arr th s =
     (case arr of None \<Rightarrow> (- 12, s\<lparr>ktm := (ktm s)(k := (ktm s k)\<lparr>timers := []\<rparr>)\<rparr>)
      | Some a \<Rightarrow>
          let s = s\<lparr>ktm := (ktm s)(k := (ktm s k)\<lparr>timers := a\<rparr>)\<rparr>
          in case th of None \<Rightarrow> (- 12, s)
             | Some t \<Rightarrow> (0, s\<lparr>ktm := (ktm s)(k := (ktm s k)\<lparr>timer_softirq := Some t, next_timer_tsc := - 1\<rparr>)\<rparr>))"

subsection \<open>The invariant\<close>

definition kt_ok :: "nat \<Rightarrow> ktimers \<Rightarrow> ents \<Rightarrow> bool" where
  "kt_ok k kt es \<longleftrightarrow>
     length (timers kt) = RUNTIME_MAX_TIMERS \<and> timern kt < RUNTIME_MAX_TIMERS \<and>
     min_heap (timers kt) (timern kt) \<and> idx_ok (timers kt) es (timern kt) \<and>
     (\<forall>x \<in> heap_entries (timers kt) (timern kt). armed (es x) \<and> localk (es x) = k)"

definition timer_inv :: "tstate \<Rightarrow> bool" where
  "timer_inv s \<longleftrightarrow>
     (\<forall>k. kt_ok k (ktm s k) (ents s)) \<and>
     (\<forall>x. armed (ents s x) \<longrightarrow>
        (let kt = ktm s (localk (ents s x)) in x \<in> heap_entries (timers kt) (timern kt)))"

text \<open>What the cores polling on behalf of a kthread see: the time of its earliest timer.\<close>

definition q_ptrs_ok :: "u64 \<Rightarrow> u64 \<Rightarrow> ktimers \<Rightarrow> bool" where
  "q_ptrs_ok cpu st kt \<longleftrightarrow>
     next_timer_tsc kt = (if timern kt = 0 then - 1 else dl (timers kt) 0 * cpu + st)"

definition heap_elems :: "timer_idx list \<Rightarrow> nat \<Rightarrow> (nat \<times> u64) multiset" where
  "heap_elems heap n = image_mset (\<lambda>t. (tidx_e t, deadline_us t)) (mset (take n heap))"

definition kt_elems :: "tstate \<Rightarrow> nat \<Rightarrow> (nat \<times> u64) multiset" where
  "kt_elems s k = heap_elems (timers (ktm s k)) (timern (ktm s k))"

lemma kt_ok_cong:
  assumes "\<And>x. x \<in> heap_entries (timers kt) (timern kt) \<Longrightarrow> es' x = es x"
  shows "kt_ok k kt es' = kt_ok k kt es"
proof -
  have "es' (tidx_e (timers kt ! i)) = es (tidx_e (timers kt ! i))" if "i < timern kt" for i
    using assms that by (auto simp: heap_entries_def)
  then show ?thesis using assms by (auto simp: kt_ok_def idx_ok_def)
qed

text \<open>Changing the heap of one kthread and the entries in it, or not in any heap.\<close>

lemma timer_inv_update:
  assumes inv: "timer_inv s"
    and old: "heap_entries (timers (ktm s k)) (timern (ktm s k)) \<subseteq> A"
    and A: "\<And>x. x \<in> A \<Longrightarrow> armed (ents s x) \<Longrightarrow> localk (ents s x) = k"
    and frame: "\<And>x. x \<notin> A \<Longrightarrow> es' x = ents s x"
    and ok: "kt_ok k kt' es'"
    and arm: "\<And>x. x \<in> A \<Longrightarrow> armed (es' x) \<Longrightarrow>
      x \<in> heap_entries (timers kt') (timern kt') \<and> localk (es' x) = k"
  shows "timer_inv (s\<lparr>ktm := (ktm s)(k := kt'), ents := es'\<rparr>)"
proof -
  have ok_old: "kt_ok k' (ktm s k') (ents s)" for k' using inv by (simp add: timer_inv_def)
  have "kt_ok k' (((ktm s)(k := kt')) k') es'" for k'
  proof (cases "k' = k")
    case False
    have "es' x = ents s x" if "x \<in> heap_entries (timers (ktm s k')) (timern (ktm s k'))" for x
    proof -
      have "armed (ents s x)" "localk (ents s x) = k'" using ok_old [of k'] that by (simp_all add: kt_ok_def)
      then have "x \<notin> A" using A [of x] False by blast
      then show ?thesis by (rule frame)
    qed
    then show ?thesis using ok_old [of k'] False kt_ok_cong [of "ktm s k'" es' "ents s" k'] by simp
  qed (simp add: ok)
  moreover have "x \<in> heap_entries (timers (((ktm s)(k := kt')) (localk (es' x))))
      (timern (((ktm s)(k := kt')) (localk (es' x))))" if x: "armed (es' x)" for x
  proof (cases "x \<in> A")
    case True
    then show ?thesis using arm [OF True x] by simp
  next
    case False
    then have es: "es' x = ents s x" by (rule frame)
    with x inv have "x \<in> heap_entries (timers (ktm s (localk (ents s x)))) (timern (ktm s (localk (ents s x))))"
      by (simp add: timer_inv_def Let_def)
    moreover from this False old have "localk (ents s x) \<noteq> k" by blast
    ultimately show ?thesis by (simp add: es)
  qed
  ultimately show ?thesis by (simp add: timer_inv_def Let_def)
qed

lemma armed_in_heap:
  assumes "timer_inv s" and "armed (ents s e)"
  defines "kt \<equiv> ktm s (localk (ents s e))"
  shows "idx (ents s e) < timern kt" and "tidx_e (timers kt ! idx (ents s e)) = e"
proof -
  have "e \<in> heap_entries (timers kt) (timern kt)" and "idx_ok (timers kt) (ents s) (timern kt)"
    using assms by (simp_all add: timer_inv_def kt_ok_def Let_def)
  then show "idx (ents s e) < timern kt" "tidx_e (timers kt ! idx (ents s e)) = e"
    by (auto simp: heap_entries_def idx_ok_def)
qed

lemma sift_rel_elems: "sift_rel n a b \<Longrightarrow> heap_elems (fst b) n = heap_elems (fst a) n"
  by (simp add: sift_rel_def heap_elems_def)

lemma sift_rel_fields:
  assumes "sift_rel n a b"
  shows "armed (snd b x) = armed (snd a x)" "localk (snd b x) = localk (snd a x)"
    "executing (snd b x) = executing (snd a x)" "tfn (snd b x) = tfn (snd a x)"
    "targ (snd b x) = targ (snd a x)"
proof -
  have e: "(snd b x)\<lparr>idx := 0\<rparr> = (snd a x)\<lparr>idx := 0\<rparr>" using assms by (simp add: sift_rel_def)
  show "armed (snd b x) = armed (snd a x)" using arg_cong [OF e, of armed] by simp
  show "localk (snd b x) = localk (snd a x)" using arg_cong [OF e, of localk] by simp
  show "executing (snd b x) = executing (snd a x)" using arg_cong [OF e, of executing] by simp
  show "tfn (snd b x) = tfn (snd a x)" using arg_cong [OF e, of tfn] by simp
  show "targ (snd b x) = targ (snd a x)" using arg_cong [OF e, of targ] by simp
qed

lemma sift_rel_other: "sift_rel n a b \<Longrightarrow> x \<notin> heap_entries (fst a) n \<Longrightarrow> snd b x = snd a x"
  by (simp add: sift_rel_def)

lemma heap_entries_Suc:
  "heap_entries heap (Suc n) = insert (tidx_e (heap ! n)) (heap_entries heap n)"
  by (auto simp: heap_entries_def lessThan_Suc)

lemma heap_entries_update_ge: "n \<le> i \<Longrightarrow> heap_entries (heap[i := t]) n = heap_entries heap n"
  by (auto simp: heap_entries_def)

lemma heap_elems_Suc:
  "n < length heap \<Longrightarrow> heap_elems heap (Suc n) =
     add_mset (tidx_e (heap ! n), deadline_us (heap ! n)) (heap_elems heap n)"
  by (simp add: heap_elems_def take_Suc_conv_app_nth)

lemma heap_elems_update_ge: "n \<le> i \<Longrightarrow> heap_elems (heap[i := t]) n = heap_elems heap n"
  by (simp add: heap_elems_def take_update_cancel)

lemma update_q_ptrs_fields [simp]:
  "timern (ktm (update_q_ptrs cpu st k s) k') = timern (ktm s k')"
  "timers (ktm (update_q_ptrs cpu st k s) k') = timers (ktm s k')"
  "ents (update_q_ptrs cpu st k s) = ents s"
  by (simp_all add: update_q_ptrs_def Let_def)

lemma update_q_ptrs_inv [simp]: "timer_inv (update_q_ptrs cpu st k s) = timer_inv s"
  by (simp add: timer_inv_def kt_ok_def Let_def)

lemma update_q_ptrs_elems [simp]: "kt_elems (update_q_ptrs cpu st k s) k' = kt_elems s k'"
  by (simp add: kt_elems_def)

lemma update_q_ptrs_ok: "q_ptrs_ok cpu st (ktm (update_q_ptrs cpu st k s) k)"
  by (simp add: update_q_ptrs_def q_ptrs_ok_def Let_def)

lemma update_q_ptrs_other: "k' \<noteq> k \<Longrightarrow> ktm (update_q_ptrs cpu st k s) k' = ktm s k'"
  by (simp add: update_q_ptrs_def Let_def)

subsubsection \<open>Starting a timer\<close>

lemma timer_inv_ktD:
  assumes "timer_inv s"
  shows "length (timers (ktm s k)) = RUNTIME_MAX_TIMERS" "timern (ktm s k) < RUNTIME_MAX_TIMERS"
    "min_heap (timers (ktm s k)) (timern (ktm s k))"
    "idx_ok (timers (ktm s k)) (ents s) (timern (ktm s k))"
    "\<And>x. x \<in> heap_entries (timers (ktm s k)) (timern (ktm s k)) \<Longrightarrow> armed (ents s x) \<and> localk (ents s x) = k"
  using assms by (simp_all add: timer_inv_def kt_ok_def)

lemma up_ok_append:
  assumes "min_heap heap n" shows "up_ok (heap[n := t]) (Suc n) n"
proof -
  have "dl (heap[n := t]) (par j) \<le> dl (heap[n := t]) j" if "j < Suc n" "0 < j" "j \<noteq> n" for j
    using assms that par_less [of j] by (auto simp: min_heap_def nth_list_update)
  moreover have "bridged (heap[n := t]) (Suc n) n"
    by (auto simp: bridged_def dest: par_less)
  ultimately show ?thesis by (simp add: up_ok_def)
qed

lemma idx_ok_append:
  assumes "idx_ok heap es n" and "n < length heap" and "e \<notin> heap_entries heap n"
  shows "idx_ok (heap[n := \<lparr>deadline_us = d, tidx_e = e\<rparr>]) (es(e := (es e)\<lparr>idx := n, localk := k\<rparr>)) (Suc n)"
  using assms by (auto simp: idx_ok_def heap_entries_def nth_list_update less_Suc_eq)

lemma timer_start_locked_ok:
  assumes inv: "timer_inv s" and run: "timer_start_locked k e d s = Inr s'"
  shows "timer_inv s'" and "kt_elems s' k = add_mset (e, d) (kt_elems s k)"
    and "k' \<noteq> k \<Longrightarrow> ktm s' k' = ktm s k'"
    and "armed (ents s' e) \<and> localk (ents s' e) = k \<and> \<not> executing (ents s' e)"
    and "x \<noteq> e \<Longrightarrow> (ents s' x)\<lparr>idx := 0\<rparr> = (ents s x)\<lparr>idx := 0\<rparr>"
proof -
  define kt n where "kt = ktm s k" and "n = timern kt"
  define h1 where "h1 = (timers kt)[n := \<lparr>deadline_us = d, tidx_e = e\<rparr>]"
  define es1 where "es1 = (ents s)(e := (ents s e)\<lparr>idx := n, localk := k\<rparr>)"
  obtain h2 es2 where r: "sift_up h1 es1 n = (h2, es2)" by fastforce
  define es3 where "es3 = es2(e := (es2 e)\<lparr>armed := True, executing := False\<rparr>)"
  note defs = kt_def n_def h1_def es1_def
  note kt = timer_inv_ktD [OF inv, where k = k, folded kt_def n_def]
  from run have un: "\<not> armed (ents s e)" and room: "Suc n < RUNTIME_MAX_TIMERS"
    and s': "s' = s\<lparr>ktm := (ktm s)(k := kt\<lparr>timern := Suc n, timers := h2\<rparr>), ents := es3\<rparr>"
    using r unfolding defs es3_def
    by (auto simp: timer_start_locked_def Let_def split: if_splits)
  have fresh: "e \<notin> heap_entries (timers kt) n" using kt(5) un by blast
  have len: "n < length (timers kt)" using kt room by simp
  have ok1: "idx_ok h1 es1 (Suc n)" unfolding h1_def es1_def by (rule idx_ok_append [OF kt(4) len fresh])
  have "up_ok h1 (Suc n) n" unfolding h1_def by (rule up_ok_append [OF kt(3)])
  then have heap: "min_heap h2 (Suc n)"
    using sift_up_loop_heap [of h1 "Suc n" n "h1 ! n" es1] r len by (simp add: sift_up_def h1_def)
  have rel: "sift_rel (Suc n) (h1, es1) (h2, es2)"
    using sift_up_loop_rel [OF ok1, of n] r by (simp add: sift_up_def)
  have entries1: "heap_entries h1 (Suc n) = insert e (heap_entries (timers kt) n)"
    using len by (simp add: h1_def heap_entries_Suc heap_entries_update_ge)
  have entries: "heap_entries h2 (Suc n) = insert e (heap_entries (timers kt) n)"
    using sift_rel_entries [OF rel] entries1 by simp
  have fields: "armed (es3 x) = (x = e \<or> armed (ents s x))"
    "localk (es3 x) = (if x = e then k else localk (ents s x))" for x
    using sift_rel_fields [OF rel, of x] by (cases "x = e"; simp add: es3_def es1_def)+
  have "idx (es3 x) = idx (es2 x)" for x by (simp add: es3_def)
  then have idx3: "idx_ok h2 es3 (Suc n)"
    using sift_rel_idx_ok [OF rel] by (simp add: idx_ok_def)
  have lenr: "length h2 = length (timers kt)" using rel by (simp add: sift_rel_def h1_def)
  have ok: "kt_ok k (kt\<lparr>timern := Suc n, timers := h2\<rparr>) es3"
    using heap idx3 lenr kt(1) room by (simp add: kt_ok_def entries fields) (use kt(5) in blast)
  show "timer_inv s'" unfolding s'
  proof (rule timer_inv_update [OF inv, where A = "insert e (heap_entries (timers kt) n)"])
    fix x assume "x \<notin> insert e (heap_entries (timers kt) n)"
    then show "es3 x = ents s x"
      using sift_rel_other [OF rel, of x] by (simp add: entries1 es3_def es1_def)
  next
    fix x assume "x \<in> insert e (heap_entries (timers kt) n)" and "armed (ents s x)"
    then show "localk (ents s x) = k" using un kt(5) by blast
  next
    fix x assume x: "x \<in> insert e (heap_entries (timers kt) n)"
    then have "localk (es3 x) = k" using kt(5) [of x] by (auto simp: fields)
    with x show "x \<in> heap_entries (timers (kt\<lparr>timern := Suc n, timers := h2\<rparr>))
        (timern (kt\<lparr>timern := Suc n, timers := h2\<rparr>)) \<and> localk (es3 x) = k"
      by (simp add: entries)
  next
    show "kt_ok k (kt\<lparr>timern := Suc n, timers := h2\<rparr>) es3" by (rule ok)
  next
    show "heap_entries (timers (ktm s k)) (timern (ktm s k)) \<subseteq> insert e (heap_entries (timers kt) n)"
      unfolding kt_def n_def by (rule subset_insertI)
  qed
  have "heap_elems h2 (Suc n) = add_mset (e, d) (heap_elems (timers kt) n)"
    using sift_rel_elems [OF rel] len by (simp add: h1_def heap_elems_Suc heap_elems_update_ge)
  then show "kt_elems s' k = add_mset (e, d) (kt_elems s k)" by (simp add: kt_elems_def s' kt_def n_def)
  show "k' \<noteq> k \<Longrightarrow> ktm s' k' = ktm s k'" by (simp add: s')
  show "armed (ents s' e) \<and> localk (ents s' e) = k \<and> \<not> executing (ents s' e)"
    using fields [of e] by (simp add: s') (simp add: es3_def)
  show "x \<noteq> e \<Longrightarrow> (ents s' x)\<lparr>idx := 0\<rparr> = (ents s x)\<lparr>idx := 0\<rparr>"
    using rel by (simp add: s' sift_rel_def es3_def es1_def)
qed

lemma timer_start_locked_Inl:
  "timer_start_locked k e d s = Inl err \<longleftrightarrow>
     err = Bug_on \<and> (armed (ents s e) \<or> RUNTIME_MAX_TIMERS \<le> Suc (timern (ktm s k)))"
  by (auto simp: timer_start_locked_def Let_def split_beta)

subsubsection \<open>Taking a timer out of the heap\<close>

lemma heap_remove_last:
  assumes "min_heap h (Suc m)" and "idx_ok h es (Suc m)"
  shows "min_heap h m" and "idx_ok h es m"
    and "heap_entries h m = heap_entries h (Suc m) - {tidx_e (h ! m)}"
proof -
  show "min_heap h m" "idx_ok h es m" using assms by (auto simp: min_heap_def idx_ok_def)
  have "tidx_e (h ! m) \<noteq> tidx_e (h ! j)" if "j < m" for j
    using idx_ok_inj [OF assms(2), of m j] that by auto
  then have "tidx_e (h ! m) \<notin> heap_entries h m" by (auto simp: heap_entries_def)
  then show "heap_entries h m = heap_entries h (Suc m) - {tidx_e (h ! m)}"
    by (simp add: heap_entries_Suc)
qed

lemma heap_remove_hole:
  assumes heap: "min_heap h (Suc m)" and i: "i < m" and len: "Suc m \<le> length h"
  shows "hole_ok (h[i := h ! m]) m i"
proof -
  let ?h = "h[i := h ! m]"
  have ord: "dl h (par j) \<le> dl h j" if "0 < j" "j \<le> m" for j using heap that by (simp add: min_heap_def)
  have same: "?h ! j = h ! j" if "j \<noteq> i" for j using that by simp
  have "dl ?h (par j) \<le> dl ?h j" if "j < m" "0 < j" "j \<noteq> i" "par j \<noteq> i" for j
    using ord [of j] that by (simp add: same)
  moreover have "dl ?h (par i) \<le> dl ?h j" if "j < m" "0 < j" "par j = i" "0 < i" for j
  proof -
    have "dl h (par i) \<le> dl h i" "dl h i \<le> dl h j" using ord [of i] ord [of j] that i by simp_all
    moreover have "par i \<noteq> i" "j \<noteq> i" using par_less [of i] par_less [of j] that by auto
    ultimately show ?thesis by (simp add: same)
  qed
  ultimately show ?thesis by (simp add: hole_ok_def bridged_def)
qed

lemma heap_remove_idx:
  assumes ok: "idx_ok h es (Suc m)" and i: "i < m" and same: "\<And>x. idx (es' x) = idx (es x)"
  shows "idx_ok (h[i := h ! m]) (set_idx es' (tidx_e (h ! m)) i) m"
  unfolding idx_ok_def
proof (intro conjI allI impI)
  show "m \<le> length (h[i := h ! m])" using ok by (simp add: idx_ok_def)
  fix j assume j: "j < m"
  have "tidx_e (h ! j) \<noteq> tidx_e (h ! m)" using idx_ok_inj [OF ok, of j m] j by auto
  with j ok show "idx (set_idx es' (tidx_e (h ! m)) i (tidx_e (h[i := h ! m] ! j))) = j"
    by (cases "j = i") (auto simp: set_idx_def same idx_ok_def nth_list_update)
qed

lemma heap_remove_entries:
  assumes ok: "idx_ok h es (Suc m)" and i: "i < m"
  shows "heap_entries (h[i := h ! m]) m = heap_entries h (Suc m) - {tidx_e (h ! i)}"
proof -
  have len: "Suc m \<le> length h" using ok by (simp add: idx_ok_def)
  have ne: "tidx_e (h ! j) \<noteq> tidx_e (h ! i)" if "j < Suc m" "j \<noteq> i" for j
    using idx_ok_inj [OF ok, of j i] that i by auto
  have "heap_entries (h[i := h ! m]) m = (\<lambda>j. tidx_e (h[i := h ! m] ! j)) ` insert i ({..<m} - {i})"
    using i by (simp add: heap_entries_def insert_absorb)
  also have "\<dots> = insert (tidx_e (h ! m)) ((\<lambda>j. tidx_e (h[i := h ! m] ! j)) ` ({..<m} - {i}))"
  proof -
    have "i < length h" using i len by simp
    then show ?thesis by (simp only: image_insert nth_list_update_eq)
  qed
  also have "(\<lambda>j. tidx_e (h[i := h ! m] ! j)) ` ({..<m} - {i}) = (\<lambda>j. tidx_e (h ! j)) ` ({..<m} - {i})"
    by (rule image_cong) auto
  also have "insert (tidx_e (h ! m)) \<dots> = (\<lambda>j. tidx_e (h ! j)) ` insert m ({..<m} - {i})" by simp
  also have "insert m ({..<m} - {i}) = {..<Suc m} - {i}" using i by auto
  finally have "heap_entries (h[i := h ! m]) m = (\<lambda>j. tidx_e (h ! j)) ` ({..<Suc m} - {i})" .
  also have "\<dots> = heap_entries h (Suc m) - {tidx_e (h ! i)}"
    using ne i by (auto simp: heap_entries_def)
  finally show ?thesis .
qed

lemma heap_remove_elems:
  assumes i: "i < m" and len: "m < length h"
  shows "heap_elems h (Suc m) =
    add_mset (tidx_e (h ! i), deadline_us (h ! i)) (heap_elems (h[i := h ! m]) m)"
proof -
  have "mset (take m (h[i := h ! m])) = add_mset (h ! m) (mset (take m h) - {#h ! i#})"
    using i len by (simp add: take_update_swap mset_update)
  moreover have "h ! i \<in># mset (take m h)" 
    using i len by (auto simp: in_set_conv_nth intro!: exI [of _ i])
  ultimately have "add_mset (h ! i) (mset (take m (h[i := h ! m]))) = add_mset (h ! m) (mset (take m h))"
    by simp
  then have "mset (take (Suc m) h) = add_mset (h ! i) (mset (take m (h[i := h ! m])))"
    using len by (simp add: take_Suc_conv_app_nth)
  then show ?thesis unfolding heap_elems_def by (simp only: image_mset_add_mset)
qed

text \<open>
  The effect of taking entry \<open>e\<close> out of the heap of kthread \<open>k\<close>, whichever way: the new
  heap holds the other entries, in order and with the right indices, and only \<open>e\<close> and
  indices of the others may have changed.
\<close>

lemma timer_inv_remove:
  assumes inv: "timer_inv s"
    and e: "e \<in> heap_entries (timers (ktm s k)) (timern (ktm s k))"
    and n: "timern (ktm s k) = Suc m"
    and heap: "min_heap h m" and ok: "idx_ok h es m" and len: "length h = RUNTIME_MAX_TIMERS"
    and entries: "heap_entries h m = heap_entries (timers (ktm s k)) (Suc m) - {e}"
    and others: "\<And>x. x \<notin> heap_entries (timers (ktm s k)) (Suc m) \<Longrightarrow> es x = ents s x"
    and fields: "\<And>x. x \<noteq> e \<Longrightarrow> armed (es x) = armed (ents s x) \<and> localk (es x) = localk (ents s x)"
    and un: "\<not> armed (es e)"
  shows "timer_inv (s\<lparr>ktm := (ktm s)(k := (ktm s k)\<lparr>timern := m, timers := h\<rparr>), ents := es\<rparr>)"
proof (rule timer_inv_update [OF inv, where A = "heap_entries (timers (ktm s k)) (Suc m)"])
  note kt = timer_inv_ktD [OF inv, where k = k, unfolded n]
  show "heap_entries (timers (ktm s k)) (timern (ktm s k)) \<subseteq> heap_entries (timers (ktm s k)) (Suc m)"
    by (simp add: n)
  show "kt_ok k ((ktm s k)\<lparr>timern := m, timers := h\<rparr>) es"
    using heap ok len kt(2,5) fields by (auto simp: kt_ok_def entries)
  fix x
  show "localk (ents s x) = k" if "x \<in> heap_entries (timers (ktm s k)) (Suc m)" using kt(5) that by blast
  show "es x = ents s x" if "x \<notin> heap_entries (timers (ktm s k)) (Suc m)" by (rule others [OF that])
  show "x \<in> heap_entries (timers ((ktm s k)\<lparr>timern := m, timers := h\<rparr>))
      (timern ((ktm s k)\<lparr>timern := m, timers := h\<rparr>)) \<and> localk (es x) = k"
    if "x \<in> heap_entries (timers (ktm s k)) (Suc m)" "armed (es x)"
    using that un fields [of x] kt(5) [of x] by (auto simp: entries)
qed

lemma set_idx_other [simp]: "x \<noteq> y \<Longrightarrow> set_idx es y i x = es x"
  by (simp add: set_idx_def)

lemma set_idx_fields [simp]:
  "armed (set_idx es y i x) = armed (es x)" "localk (set_idx es y i x) = localk (es x)"
  "executing (set_idx es y i x) = executing (es x)" "tfn (set_idx es y i x) = tfn (es x)"
  "targ (set_idx es y i x) = targ (es x)"
  by (simp_all add: set_idx_def)

text \<open>What the caller of a cancel or a pop sees of the entries.\<close>

definition same_but_idx :: "timer_entry \<Rightarrow> timer_entry \<Rightarrow> bool" where
  "same_but_idx a b \<longleftrightarrow> a\<lparr>idx := 0\<rparr> = b\<lparr>idx := 0\<rparr>"

lemma same_but_idx_iff:
  "same_but_idx a b \<longleftrightarrow> armed a = armed b \<and> executing a = executing b \<and> tfn a = tfn b \<and>
     targ a = targ b \<and> localk a = localk b"
  by (cases a; cases b) (auto simp: same_but_idx_def)

lemma timer_cancel_locked_armed:
  fixes cpu st :: u64
  assumes inv: "timer_inv s" and arm: "armed (ents s e)"
  defines "k \<equiv> localk (ents s e)"
  defines "s' \<equiv> snd (timer_cancel_locked cpu st e s)"
  shows "fst (timer_cancel_locked cpu st e s)" and "timer_inv s'"
    and "\<exists>d. kt_elems s k = add_mset (e, d) (kt_elems s' k)"
    and "k' \<noteq> k \<Longrightarrow> ktm s' k' = ktm s k'"
    and "q_ptrs_ok cpu st (ktm s' k)"
    and "same_but_idx (ents s' x) (if x = e then (ents s e)\<lparr>armed := False\<rparr> else ents s x)"
proof -
  define kt es1 i where "kt = ktm s k" and "es1 = (ents s)(e := (ents s e)\<lparr>armed := False\<rparr>)"
    and "i = idx (ents s e)"
  note kt = timer_inv_ktD [OF inv, where k = k, folded kt_def]
  have i: "i < timern kt" "tidx_e (timers kt ! i) = e"
    using armed_in_heap [OF inv arm] by (simp_all add: k_def kt_def i_def)
  then obtain m where n: "timern kt = Suc m" by (cases "timern kt") auto
  have e: "e \<in> heap_entries (timers kt) (timern kt)" using i by (auto simp: heap_entries_def)
  have lenm: "m < length (timers kt)" using kt(1,2) n by simp
  have "\<exists>h es. timer_cancel_locked cpu st e s =
      (True, update_q_ptrs cpu st k (s\<lparr>ktm := (ktm s)(k := kt\<lparr>timern := m, timers := h\<rparr>), ents := es\<rparr>)) \<and>
      min_heap h m \<and> idx_ok h es m \<and> length h = length (timers kt) \<and>
      heap_entries h m = heap_entries (timers kt) (Suc m) - {e} \<and>
      heap_elems (timers kt) (Suc m) = add_mset (e, dl (timers kt) i) (heap_elems h m) \<and>
      (\<forall>x. same_but_idx (es x) (es1 x)) \<and> (\<forall>x. x \<notin> heap_entries (timers kt) (Suc m) \<longrightarrow> es x = es1 x)"
  proof (cases "i = m")
    case True
    have "timer_cancel_locked cpu st e s =
      (True, update_q_ptrs cpu st k (s\<lparr>ktm := (ktm s)(k := kt\<lparr>timern := m, timers := timers kt\<rparr>), ents := es1\<rparr>))"
      using arm True n by (simp add: timer_cancel_locked_def Let_def k_def kt_def es1_def i_def)
    moreover have "idx_ok (timers kt) es1 m"
      by (rule idx_ok_cong [OF _ heap_remove_last(2) [OF kt(3,4) [unfolded n]]]) (simp add: es1_def)
    ultimately show ?thesis
      using heap_remove_last [OF kt(3,4) [unfolded n]] heap_elems_Suc [OF lenm] True i
      by (intro exI [of _ "timers kt"] exI [of _ es1]) (simp add: same_but_idx_def)
  next
    case False
    then have im: "i < m" using i n by simp
    define h1 where "h1 = (timers kt)[i := timers kt ! m]"
    define es2 where "es2 = set_idx es1 (tidx_e (timers kt ! m)) i"
    obtain h3 es3 where u: "sift_up h1 es2 i = (h3, es3)" by fastforce
    obtain h4 es4 where d: "sift_down h3 es3 i m = (h4, es4)" by fastforce
    have h1i: "h1 ! i = timers kt ! m" using im lenm by (simp add: h1_def)
    have eq: "timer_cancel_locked cpu st e s =
      (True, update_q_ptrs cpu st k (s\<lparr>ktm := (ktm s)(k := kt\<lparr>timern := m, timers := h4\<rparr>), ents := es4\<rparr>))"
      using arm False n u d h1i
      by (simp add: timer_cancel_locked_def Let_def k_def kt_def es1_def es2_def i_def h1_def)
    have "idx (es1 x) = idx (ents s x)" for x by (simp add: es1_def)
    then have ok: "idx_ok h1 es2 m"
      unfolding h1_def es2_def by (rule heap_remove_idx [OF kt(4) [unfolded n] im])
    have hole: "hole_ok h1 m i"
      unfolding h1_def by (rule heap_remove_hole [OF kt(3) [unfolded n] im]) (use lenm in simp)
    have rel: "sift_rel m (h1, es2) (h4, es4)" and heap: "min_heap h4 m"
      using sift_up_down [OF hole im ok] by (simp_all add: u d)
    have entries1: "heap_entries h1 m = heap_entries (timers kt) (Suc m) - {e}"
      using heap_remove_entries [OF kt(4) [unfolded n] im] i by (simp add: h1_def)
    have entries: "heap_entries h4 m = heap_entries (timers kt) (Suc m) - {e}"
      using entries1 sift_rel_entries [OF rel] by simp
    have elems: "heap_elems (timers kt) (Suc m) = add_mset (e, dl (timers kt) i) (heap_elems h4 m)"
      using heap_remove_elems [OF im lenm] sift_rel_elems [OF rel] i by (simp add: h1_def)
    have same: "same_but_idx (es4 x) (es1 x)" for x
      using sift_rel_fields [OF rel, of x] by (simp add: same_but_idx_iff es2_def)
    have "es4 x = es1 x" if "x \<notin> heap_entries (timers kt) (Suc m)" for x
    proof -
      have "x \<noteq> tidx_e (timers kt ! m)" using that by (simp add: heap_entries_Suc)
      moreover have "es4 x = es2 x" using sift_rel_other [OF rel, of x] that entries1 by simp
      ultimately show ?thesis by (simp add: es2_def)
    qed
    moreover have "length h4 = length (timers kt)" using rel by (simp add: sift_rel_def h1_def)
    ultimately show ?thesis using eq heap sift_rel_idx_ok [OF rel] entries elems same
      by (intro exI [of _ h4] exI [of _ es4]) simp
  qed
  then obtain h es where run: "timer_cancel_locked cpu st e s =
      (True, update_q_ptrs cpu st k (s\<lparr>ktm := (ktm s)(k := kt\<lparr>timern := m, timers := h\<rparr>), ents := es\<rparr>))"
    and h: "min_heap h m" "idx_ok h es m" "length h = length (timers kt)"
      "heap_entries h m = heap_entries (timers kt) (Suc m) - {e}"
      "heap_elems (timers kt) (Suc m) = add_mset (e, dl (timers kt) i) (heap_elems h m)"
    and es: "\<And>x. same_but_idx (es x) (es1 x)"
      "\<And>x. x \<notin> heap_entries (timers kt) (Suc m) \<Longrightarrow> es x = es1 x" by blast
  show "fst (timer_cancel_locked cpu st e s)" by (simp add: run)
  have "timer_inv (s\<lparr>ktm := (ktm s)(k := kt\<lparr>timern := m, timers := h\<rparr>), ents := es\<rparr>)"
  proof (rule timer_inv_remove [OF inv, where k = k, folded kt_def, OF e n h(1,2)])
    show "es x = ents s x" if "x \<notin> heap_entries (timers kt) (Suc m)" for x
    proof -
      have "x \<noteq> e" using that e n by auto
      then show ?thesis using es(2) [OF that] by (simp add: es1_def)
    qed
    show "\<not> armed (es e)" using es(1) [of e] by (simp add: same_but_idx_iff es1_def)
    show "armed (es x) = armed (ents s x) \<and> localk (es x) = localk (ents s x)" if "x \<noteq> e" for x
      using es(1) [of x] that by (simp add: same_but_idx_iff es1_def)
  qed (use h kt in simp_all)
  then show "timer_inv s'" by (simp add: s'_def run)
  show "\<exists>d. kt_elems s k = add_mset (e, d) (kt_elems s' k)"
    using h(5) by (auto simp: s'_def run kt_elems_def n kt_def [symmetric])
  show "k' \<noteq> k \<Longrightarrow> ktm s' k' = ktm s k'" by (simp add: s'_def run update_q_ptrs_other)
  show "q_ptrs_ok cpu st (ktm s' k)" by (simp add: s'_def run update_q_ptrs_ok)
  show "same_but_idx (ents s' x) (if x = e then (ents s e)\<lparr>armed := False\<rparr> else ents s x)"
    using es(1) [of x] by (simp add: s'_def run es1_def)
qed

subsubsection \<open>Running expired timers\<close>

lemma min_heap_root: "min_heap h n \<Longrightarrow> j < n \<Longrightarrow> dl h 0 \<le> dl h j"
proof (induction j rule: less_induct)
  case (less j)
  show ?case
  proof (cases "j = 0")
    case False
    then have "par j < j" by (simp add: par_less)
    then have "dl h 0 \<le> dl h (par j)" using less by simp
    also have "\<dots> \<le> dl h j" using less.prems False by (simp add: min_heap_def)
    finally show ?thesis .
  qed simp
qed

lemma heap_elems_all:
  "n \<le> length h \<Longrightarrow> (\<forall>p \<in># heap_elems h n. P p) \<longleftrightarrow> (\<forall>j < n. P (tidx_e (h ! j), dl h j))"
  by (auto simp: heap_elems_def all_set_conv_all_nth)

lemma timer_softirq_pop_None:
  assumes inv: "timer_inv s"
  shows "timer_softirq_pop cpu st k now s = None \<longleftrightarrow> (\<forall>p \<in># kt_elems s k. now < snd p)"
proof -
  note kt = timer_inv_ktD [OF inv, where k = k]
  have "(\<forall>j < timern (ktm s k). now < dl (timers (ktm s k)) j) \<longleftrightarrow>
      timern (ktm s k) = 0 \<or> now < dl (timers (ktm s k)) 0"
    using min_heap_root [OF kt(3)] by (auto intro: less_le_trans)
  moreover have "timern (ktm s k) \<le> length (timers (ktm s k))" using kt by simp
  ultimately show ?thesis
    by (auto simp: timer_softirq_pop_def Let_def kt_elems_def heap_elems_all split_beta not_le)
qed

lemma timer_softirq_pop_Some:
  assumes inv: "timer_inv s" and pop: "timer_softirq_pop cpu st k now s = Some (e, s')"
  shows "timer_inv s'"
    and "\<exists>d \<le> now. kt_elems s k = add_mset (e, d) (kt_elems s' k) \<and> (\<forall>p \<in># kt_elems s k. d \<le> snd p)"
    and "k' \<noteq> k \<Longrightarrow> ktm s' k' = ktm s k'"
    and "q_ptrs_ok cpu st (ktm s' k)"
    and "armed (ents s e) \<and> localk (ents s e) = k"
    and "same_but_idx (ents s' x)
      (if x = e then (ents s e)\<lparr>armed := False, executing := True\<rparr> else ents s x)"
proof -
  define kt where "kt = ktm s k"
  note kt = timer_inv_ktD [OF inv, where k = k, folded kt_def]
  define m where "m = timern kt - 1"
  from pop have pos: "timern kt > 0" and due: "dl (timers kt) 0 \<le> now" and e: "e = tidx_e (timers kt ! 0)"
    by (auto simp: timer_softirq_pop_def Let_def kt_def split_beta split: if_splits)
  have n: "timern kt = Suc m" using pos by (simp add: m_def)
  have ein: "e \<in> heap_entries (timers kt) (timern kt)" using pos by (auto simp: heap_entries_def e)
  have lenm: "m < length (timers kt)" using kt(1,2) n by simp
  have "\<exists>h es. s' = (let s1 = update_q_ptrs cpu st k (s\<lparr>ktm := (ktm s)(k := kt\<lparr>timern := m, timers := h\<rparr>), ents := es\<rparr>)
        in s1\<lparr>ents := es(e := (es e)\<lparr>executing := True, armed := False\<rparr>)\<rparr>) \<and>
      min_heap h m \<and> idx_ok h es m \<and> length h = length (timers kt) \<and>
      heap_entries h m = heap_entries (timers kt) (Suc m) - {e} \<and>
      heap_elems (timers kt) (Suc m) = add_mset (e, dl (timers kt) 0) (heap_elems h m) \<and>
      (\<forall>x. same_but_idx (es x) (ents s x)) \<and>
      (\<forall>x. x \<notin> heap_entries (timers kt) (Suc m) \<longrightarrow> es x = ents s x)"
  proof (cases "m = 0")
    case True
    with pop pos due n e have "s' = (let s1 = update_q_ptrs cpu st k
        (s\<lparr>ktm := (ktm s)(k := kt\<lparr>timern := m, timers := timers kt\<rparr>), ents := ents s\<rparr>)
        in s1\<lparr>ents := (ents s)(e := (ents s e)\<lparr>executing := True, armed := False\<rparr>)\<rparr>)"
      by (simp add: timer_softirq_pop_def Let_def kt_def)
    then show ?thesis
      using heap_remove_last [OF kt(3,4) [unfolded n]] heap_elems_Suc [OF lenm] True e
      by (intro exI [of _ "timers kt"] exI [of _ "ents s"]) (simp add: same_but_idx_def)
  next
    case False
    then have im: "0 < m" by simp
    define h1 where "h1 = (timers kt)[0 := timers kt ! m]"
    define es2 where "es2 = set_idx (ents s) (tidx_e (timers kt ! m)) 0"
    obtain h4 es4 where d: "sift_down h1 es2 0 m = (h4, es4)" by fastforce
    have "0 < length (timers kt)" using lenm by linarith
    then have h10: "h1 ! 0 = timers kt ! m" unfolding h1_def by (rule nth_list_update_eq)
    have eq: "s' = (let s1 = update_q_ptrs cpu st k
        (s\<lparr>ktm := (ktm s)(k := kt\<lparr>timern := m, timers := h4\<rparr>), ents := es4\<rparr>)
        in s1\<lparr>ents := es4(e := (es4 e)\<lparr>executing := True, armed := False\<rparr>)\<rparr>)"
      using pop pos due n e False d h10 m_def
      by (simp add: timer_softirq_pop_def Let_def kt_def h1_def es2_def)
    have ok: "idx_ok h1 es2 m"
      unfolding h1_def es2_def by (rule heap_remove_idx [OF kt(4) [unfolded n] im refl])
    have "hole_ok h1 m 0"
      unfolding h1_def by (rule heap_remove_hole [OF kt(3) [unfolded n] im]) (use lenm in simp)
    then have "down_ok h1 m 0" by (simp add: hole_ok_def down_ok_def)
    then have heap: "min_heap h4 m"
      using sift_down_loop_heap [of h1 m 0 "h1 ! 0" es2] im lenm d by (simp add: sift_down_def h1_def)
    have rel: "sift_rel m (h1, es2) (h4, es4)"
      using sift_down_loop_rel [OF ok im refl] d by (simp add: sift_down_def)
    have entries1: "heap_entries h1 m = heap_entries (timers kt) (Suc m) - {e}"
      using heap_remove_entries [OF kt(4) [unfolded n] im] e by (simp add: h1_def)
    have entries: "heap_entries h4 m = heap_entries (timers kt) (Suc m) - {e}"
      using entries1 sift_rel_entries [OF rel] by simp
    have elems: "heap_elems (timers kt) (Suc m) = add_mset (e, dl (timers kt) 0) (heap_elems h4 m)"
      using heap_remove_elems [OF im lenm] sift_rel_elems [OF rel] e by (simp add: h1_def)
    have same: "same_but_idx (es4 x) (ents s x)" for x
      using sift_rel_fields [OF rel, of x] by (simp add: same_but_idx_iff es2_def)
    have "es4 x = ents s x" if "x \<notin> heap_entries (timers kt) (Suc m)" for x
    proof -
      have "x \<noteq> tidx_e (timers kt ! m)" using that by (simp add: heap_entries_Suc)
      moreover have "es4 x = es2 x" using sift_rel_other [OF rel, of x] that entries1 by simp
      ultimately show ?thesis by (simp add: es2_def)
    qed
    moreover have "length h4 = length (timers kt)" using rel by (simp add: sift_rel_def h1_def)
    ultimately show ?thesis using eq heap sift_rel_idx_ok [OF rel] entries elems same
      by (intro exI [of _ h4] exI [of _ es4]) simp
  qed
  then obtain h es where run: "s' = (let s1 = update_q_ptrs cpu st k
        (s\<lparr>ktm := (ktm s)(k := kt\<lparr>timern := m, timers := h\<rparr>), ents := es\<rparr>)
        in s1\<lparr>ents := es(e := (es e)\<lparr>executing := True, armed := False\<rparr>)\<rparr>)"
    and h: "min_heap h m" "idx_ok h es m" "length h = length (timers kt)"
      "heap_entries h m = heap_entries (timers kt) (Suc m) - {e}"
      "heap_elems (timers kt) (Suc m) = add_mset (e, dl (timers kt) 0) (heap_elems h m)"
    and es: "\<And>x. same_but_idx (es x) (ents s x)"
      "\<And>x. x \<notin> heap_entries (timers kt) (Suc m) \<Longrightarrow> es x = ents s x" by blast
  define es5 where "es5 = es(e := (es e)\<lparr>executing := True, armed := False\<rparr>)"
  have "idx (es5 x) = idx (es x)" for x by (simp add: es5_def)
  then have ok5: "idx_ok h es5 m" using h(2) by (rule idx_ok_cong)
  have "timer_inv (s\<lparr>ktm := (ktm s)(k := kt\<lparr>timern := m, timers := h\<rparr>), ents := es5\<rparr>)"
  proof (rule timer_inv_remove [OF inv, where k = k, folded kt_def, OF ein n h(1) ok5])
    show "es5 x = ents s x" if "x \<notin> heap_entries (timers kt) (Suc m)" for x
    proof -
      have "x \<noteq> e" using that ein n by auto
      then show ?thesis using es(2) [OF that] by (simp add: es5_def)
    qed
    show "\<not> armed (es5 e)" by (simp add: es5_def)
    show "armed (es5 x) = armed (ents s x) \<and> localk (es5 x) = localk (ents s x)" if "x \<noteq> e" for x
      using es(1) [of x] that by (simp add: same_but_idx_iff es5_def)
  qed (use h kt in simp_all)
  moreover have s': "s' = update_q_ptrs cpu st k
      (s\<lparr>ktm := (ktm s)(k := kt\<lparr>timern := m, timers := h\<rparr>), ents := es5\<rparr>)"
    by (simp add: run update_q_ptrs_def Let_def es5_def)
  ultimately show "timer_inv s'" by simp
  have "\<forall>p \<in># kt_elems s k. dl (timers kt) 0 \<le> snd p"
    using min_heap_root [OF kt(3)] lenm n by (simp add: kt_elems_def kt_def [symmetric] heap_elems_all)
  then show "\<exists>d \<le> now. kt_elems s k = add_mset (e, d) (kt_elems s' k) \<and> (\<forall>p \<in># kt_elems s k. d \<le> snd p)"
    using h(5) due by (intro exI [of _ "dl (timers kt) 0"]) (simp add: s' kt_elems_def n kt_def [symmetric])
  show "k' \<noteq> k \<Longrightarrow> ktm s' k' = ktm s k'" by (simp add: s' update_q_ptrs_other)
  show "q_ptrs_ok cpu st (ktm s' k)" unfolding s' by (rule update_q_ptrs_ok)
  show "armed (ents s e) \<and> localk (ents s e) = k" using kt(5) ein by blast
  show "same_but_idx (ents s' x)
      (if x = e then (ents s e)\<lparr>armed := False, executing := True\<rparr> else ents s x)"
    using es(1) [of x] by (auto simp: s' es5_def same_but_idx_iff)
qed

subsection \<open>A queue of deadlines\<close>

text \<open>
  Popping due elements until none is left, with something done after each pop. The
  number bounds the pops; \<open>None\<close> means that it was too small.
\<close>

fun drain :: "('d \<Rightarrow> 's \<Rightarrow> ('x \<times> 's) option) \<Rightarrow> ('x \<Rightarrow> 's \<Rightarrow> 's) \<Rightarrow> 'd \<Rightarrow> nat \<Rightarrow> 's \<Rightarrow> ('x list \<times> 's) option" where
  "drain pop after now 0 s = None"
| "drain pop after now (Suc n) s =
     (case pop now s of
        None \<Rightarrow> Some ([], s)
      | Some (x, s') \<Rightarrow>
          (case drain pop after now n (after x s') of
             None \<Rightarrow> None
           | Some (xs, t) \<Rightarrow> Some (x # xs, t)))"

locale timer_queue =
  fixes inv :: "'s \<Rightarrow> bool"
    and elems :: "'s \<Rightarrow> ('x \<times> 'd::linorder) multiset"
    and pop :: "'d \<Rightarrow> 's \<Rightarrow> ('x \<times> 's) option"
  assumes pop_None: "inv s \<Longrightarrow> pop now s = None \<longleftrightarrow> (\<forall>p \<in># elems s. now < snd p)"
    and pop_inv: "inv s \<Longrightarrow> pop now s = Some (x, s') \<Longrightarrow> inv s'"
    and pop_Some: "inv s \<Longrightarrow> pop now s = Some (x, s') \<Longrightarrow>
      \<exists>d \<le> now. elems s = add_mset (x, d) (elems s') \<and> (\<forall>p \<in># elems s. d \<le> snd p)"
begin

lemma drain_due:
  assumes "inv s" and after: "\<And>x s. inv s \<Longrightarrow> inv (after x s) \<and> elems (after x s) = elems s"
    and "size (elems s) < n"
  shows "\<exists>xs t ds. drain pop after now n s = Some (xs, t) \<and> inv t \<and>
    length ds = length xs \<and> sorted ds \<and>
    mset (zip xs ds) = filter_mset (\<lambda>p. snd p \<le> now) (elems s) \<and>
    elems t = filter_mset (\<lambda>p. now < snd p) (elems s)"
  using assms(1,3)
proof (induction n arbitrary: s)
  case (Suc n)
  show ?case
  proof (cases "pop now s")
    case None
    then have all: "\<forall>p \<in># elems s. now < snd p" using pop_None [OF Suc.prems(1)] by simp
    then have "filter_mset (\<lambda>p. snd p \<le> now) (elems s) = {#}"
      "filter_mset (\<lambda>p. now < snd p) (elems s) = elems s"
      using filter_mset_cong [OF refl, of "elems s" "\<lambda>p. snd p \<le> now" "\<lambda>p. False"]
        filter_mset_cong [OF refl, of "elems s" "\<lambda>p. now < snd p" "\<lambda>p. True"]
      by (auto simp: not_le)
    with None Suc.prems show ?thesis by (intro exI [of _ "[]"] exI [of _ s]) simp
  next
    case (Some r)
    obtain x s' where r: "r = (x, s')" by fastforce
    note pop = Some [unfolded r]
    obtain d where d: "d \<le> now" "elems s = add_mset (x, d) (elems s')" "\<forall>p \<in># elems s. d \<le> snd p"
      using pop_Some [OF Suc.prems(1) pop] by blast
    have s': "inv (after x s')" "elems (after x s') = elems s'"
      using after [OF pop_inv [OF Suc.prems(1) pop]] by simp_all
    have "size (elems (after x s')) < n" using Suc.prems(2) d s' by simp
    from Suc.IH [OF s'(1) this] obtain xs t ds where
      IH: "drain pop after now n (after x s') = Some (xs, t)" "inv t" "length ds = length xs" "sorted ds"
        "mset (zip xs ds) = filter_mset (\<lambda>p. snd p \<le> now) (elems s')"
        "elems t = filter_mset (\<lambda>p. now < snd p) (elems s')"
      using s' by auto
    have "d \<le> d'" if "d' \<in> set ds" for d'
    proof -
      have "d' \<in> snd ` set (zip xs ds)" using that IH(3) by (simp flip: set_map)
      then have "d' \<in> snd ` set_mset (mset (zip xs ds))" by simp
      then show ?thesis unfolding IH(5) using d by auto
    qed
    with IH d pop show ?thesis
      by (intro exI [of _ "x # xs"] exI [of _ t] exI [of _ "d # ds"]) auto
  qed
qed simp

end

interpretation tq: timer_queue timer_inv "\<lambda>s. kt_elems s k" "timer_softirq_pop cpu st k" for k cpu st
  by unfold_locales (auto dest: timer_softirq_pop_None timer_softirq_pop_Some(1,2))

lemma timer_inv_entry_cong:
  assumes "\<And>x. armed (es x) = armed (ents s x) \<and> localk (es x) = localk (ents s x) \<and> idx (es x) = idx (ents s x)"
  shows "timer_inv (s\<lparr>ents := es\<rparr>) = timer_inv s"
  using assms by (simp add: timer_inv_def kt_ok_def idx_ok_def Let_def)

lemma timer_softirq_done_inv [simp]: "timer_inv (timer_softirq_done e s) = timer_inv s"
  unfolding timer_softirq_done_def by (rule timer_inv_entry_cong) simp

lemma timer_softirq_done_fields [simp]:
  "ktm (timer_softirq_done e s) = ktm s" "armed (ents (timer_softirq_done e s) x) = armed (ents s x)"
  by (simp_all add: timer_softirq_done_def)

lemma timer_softirq_done_elems [simp]: "kt_elems (timer_softirq_done e s) k = kt_elems s k"
  by (simp add: timer_softirq_done_def kt_elems_def)

lemma timer_softirq_one_drain:
  "timer_softirq_one run cpu st k (replicate n (False, now)) s =
     drain (timer_softirq_pop cpu st k)
       (\<lambda>e s. timer_softirq_done e (run (tfn (ents s e)) (targ (ents s e)) s)) now n s"
  by (induction n arbitrary: s) (auto simp: Let_def split: option.splits)

subsection \<open>The life of a timer\<close>

text \<open>
  The operations in any order, on any kthread: each step is one critical section of a
  kthread's \<open>timer_lock\<close> (or the store that ends a handler). The counters record, per
  entry, how often it was started, run and successfully cancelled.
\<close>

record tm_sys =
  tst :: tstate
  starts :: "nat \<Rightarrow> nat"
  fires :: "nat \<Rightarrow> nat"
  cancels :: "nat \<Rightarrow> nat"

definition bump :: "(nat \<Rightarrow> nat) \<Rightarrow> nat \<Rightarrow> nat \<Rightarrow> nat" where
  "bump f e = f(e := Suc (f e))"

inductive tm_step :: "u64 \<Rightarrow> u64 \<Rightarrow> tm_sys \<Rightarrow> tm_sys \<Rightarrow> bool" for cpu st where
  tm_init: "\<not> armed (ents (tst m) e) \<Longrightarrow> tm_step cpu st m (m\<lparr>tst := timer_init e f a (tst m)\<rparr>)"
| tm_start: "timer_start cpu st k e d (tst m) = Inr s' \<Longrightarrow>
    tm_step cpu st m (m\<lparr>tst := s', starts := bump (starts m) e\<rparr>)"
| tm_cancel: "timer_cancel cpu st e (tst m) = (True, s') \<Longrightarrow>
    tm_step cpu st m (m\<lparr>tst := s', cancels := bump (cancels m) e\<rparr>)"
| tm_cancel_miss: "timer_cancel cpu st e (tst m) = (False, s') \<Longrightarrow> tm_step cpu st m (m\<lparr>tst := s'\<rparr>)"
| tm_fire: "timer_softirq_pop cpu st k now (tst m) = Some (e, s') \<Longrightarrow>
    tm_step cpu st m (m\<lparr>tst := s', fires := bump (fires m) e\<rparr>)"
| tm_done: "tm_step cpu st m (m\<lparr>tst := timer_softirq_done e (tst m)\<rparr>)"

definition tm_inv :: "u64 \<Rightarrow> u64 \<Rightarrow> tm_sys \<Rightarrow> bool" where
  "tm_inv cpu st m \<longleftrightarrow>
     timer_inv (tst m) \<and> (\<forall>k. q_ptrs_ok cpu st (ktm (tst m) k)) \<and>
     (\<forall>e. starts m e = fires m e + cancels m e + (if armed (ents (tst m) e) then 1 else 0))"

lemma timer_start_ok:
  assumes inv: "timer_inv s" and run: "timer_start cpu st k e d s = Inr s'"
  shows "timer_inv s'" and "kt_elems s' k = add_mset (e, d) (kt_elems s k)"
    and "k' \<noteq> k \<Longrightarrow> ktm s' k' = ktm s k'" and "q_ptrs_ok cpu st (ktm s' k)"
    and "\<not> armed (ents s e)" and "armed (ents s' x) \<longleftrightarrow> x = e \<or> armed (ents s x)"
proof -
  obtain s1 where s1: "timer_start_locked k e d s = Inr s1" and s': "s' = update_q_ptrs cpu st k s1"
    using run by (auto simp: timer_start_def bind_exec_eq_Inr)
  note ok = timer_start_locked_ok [OF inv s1]
  show "timer_inv s'" "kt_elems s' k = add_mset (e, d) (kt_elems s k)"
    "k' \<noteq> k \<Longrightarrow> ktm s' k' = ktm s k'" "q_ptrs_ok cpu st (ktm s' k)"
    using ok by (simp_all add: s' update_q_ptrs_other update_q_ptrs_ok)
  show "\<not> armed (ents s e)" using s1 by (auto simp: timer_start_locked_def Let_def split: if_splits)
  show "armed (ents s' x) \<longleftrightarrow> x = e \<or> armed (ents s x)"
  proof (cases "x = e")
    case True
    then show ?thesis using ok(4) by (simp add: s')
  next
    case False
    then have "same_but_idx (ents s1 x) (ents s x)" using ok(5) by (simp add: same_but_idx_def)
    then show ?thesis using False by (simp add: s' same_but_idx_iff)
  qed
qed

lemma q_ptrs_ok_cong: "(\<And>k'. k' \<noteq> k \<Longrightarrow> ktm s' k' = ktm s k') \<Longrightarrow> q_ptrs_ok cpu st (ktm s' k) \<Longrightarrow>
    (\<And>k. q_ptrs_ok cpu st (ktm s k)) \<Longrightarrow> q_ptrs_ok cpu st (ktm s' k'')"
  by (cases "k'' = k") auto

lemma tm_step_inv:
  assumes "tm_step cpu st m m'" and "tm_inv cpu st m" shows "tm_inv cpu st m'"
  using assms(1)
proof cases
  case (tm_init e f a)
  moreover have "timer_inv (timer_init e f a (tst m)) = timer_inv (tst m)"
    unfolding timer_init_def using tm_init by (intro timer_inv_entry_cong) simp
  ultimately show ?thesis using assms(2) by (auto simp: tm_inv_def timer_init_def)
next
  case (tm_start k e d s')
  have inv: "timer_inv (tst m)" using assms(2) by (simp add: tm_inv_def)
  note ok = timer_start_ok [OF inv tm_start(2)]
  show ?thesis using assms(2) ok(1,5,6) q_ptrs_ok_cong [OF ok(3,4)] tm_start(1)
    by (auto simp: tm_inv_def bump_def)
next
  case (tm_cancel e s')
  have inv: "timer_inv (tst m)" using assms(2) by (simp add: tm_inv_def)
  from tm_cancel have arm: "armed (ents (tst m) e)" and s': "s' = snd (timer_cancel_locked cpu st e (tst m))"
    by (auto simp: timer_cancel_def split: if_splits)
  note ok = timer_cancel_locked_armed [OF inv arm, where cpu = cpu and st = st, folded s']
  have "armed (ents s' x) \<longleftrightarrow> x \<noteq> e \<and> armed (ents (tst m) x)" for x
    using ok(6) [of x] by (auto simp: same_but_idx_iff split: if_splits)
  then show ?thesis using assms(2) arm ok(2) q_ptrs_ok_cong [OF ok(4,5)] tm_cancel(1)
    by (auto simp: tm_inv_def bump_def)
next
  case (tm_cancel_miss e s')
  have inv: "timer_inv (tst m)" using assms(2) by (simp add: tm_inv_def)
  have "s' = tst m"
    using tm_cancel_miss timer_cancel_locked_armed(1) [OF inv, of e cpu st]
    by (auto simp: timer_cancel_def split: if_splits)
  then show ?thesis using assms(2) tm_cancel_miss by simp
next
  case (tm_fire k now e s')
  have inv: "timer_inv (tst m)" using assms(2) by (simp add: tm_inv_def)
  note ok = timer_softirq_pop_Some [OF inv tm_fire(2)]
  have "armed (ents s' x) \<longleftrightarrow> x \<noteq> e \<and> armed (ents (tst m) x)" for x
    using ok(6) [of x] by (auto simp: same_but_idx_iff split: if_splits)
  then show ?thesis using assms(2) ok(1,5) q_ptrs_ok_cong [OF ok(3,4)] tm_fire(1)
    by (auto simp: tm_inv_def bump_def)
next
  case (tm_done e)
  then show ?thesis using assms(2) by (simp add: tm_inv_def)
qed

text \<open>The state after every kthread has run \<open>timer_init_thread\<close> and no timer is armed.\<close>

definition tm_start_state :: "tm_sys \<Rightarrow> bool" where
  "tm_start_state m \<longleftrightarrow>
     (\<forall>k. timern (ktm (tst m) k) = 0 \<and> length (timers (ktm (tst m) k)) = RUNTIME_MAX_TIMERS \<and>
          next_timer_tsc (ktm (tst m) k) = - 1) \<and>
     (\<forall>e. \<not> armed (ents (tst m) e)) \<and> starts m = (\<lambda>e. 0) \<and> fires m = (\<lambda>e. 0) \<and> cancels m = (\<lambda>e. 0)"

lemma tm_start_inv: "tm_start_state m \<Longrightarrow> tm_inv cpu st m"
  by (simp add: tm_start_state_def tm_inv_def timer_inv_def kt_ok_def q_ptrs_ok_def min_heap_def
      idx_ok_def heap_entries_def RUNTIME_MAX_TIMERS_def)

lemma tm_reach_inv:
  assumes "(tm_step cpu st)\<^sup>*\<^sup>* m m'" and "tm_inv cpu st m" shows "tm_inv cpu st m'"
  using assms by (induction rule: rtranclp_induct) (auto intro: tm_step_inv)

lemma is_valid_heap_from_iff:
  "is_valid_heap_from heap i \<longleftrightarrow> (\<forall>j. 1 < j \<and> j \<le> i \<longrightarrow> dl heap (par j) \<le> dl heap j)"
proof (induction i)
  case (Suc i)
  have "(\<forall>j. 1 < j \<and> j \<le> Suc i \<longrightarrow> P j) \<longleftrightarrow> (1 < Suc i \<longrightarrow> P (Suc i)) \<and> (\<forall>j. 1 < j \<and> j \<le> i \<longrightarrow> P j)" for P
    by (auto simp: le_Suc_eq)
  with Suc show ?case
    by (subst is_valid_heap_from.simps) (auto simp: Let_def par_def not_less)
qed (simp add: is_valid_heap_from.simps)

lemma timer_start_total:
  "\<not> armed (ents s e) \<Longrightarrow> Suc (timern (ktm s k)) < RUNTIME_MAX_TIMERS \<Longrightarrow>
     \<exists>s'. timer_start cpu st k e d s = Inr s'"
  using timer_start_locked_Inl [of k e d s]
  by (cases "timer_start_locked k e d s") (auto simp: timer_start_def)

subsection \<open>What the timer interface guarantees\<close>

definition tm_demo :: tm_sys where
  "tm_demo = \<lparr>tst = \<lparr>ktm = \<lambda>k. \<lparr>timern = 0, timers = replicate RUNTIME_MAX_TIMERS \<lparr>deadline_us = 0, tidx_e = 0\<rparr>,
                                next_timer_tsc = - 1, timer_softirq = None\<rparr>,
                     ents = \<lambda>e. \<lparr>armed = False, executing = False, idx = 0, tfn = Timer_finish_sleep,
                                 targ = 0, localk = 0\<rparr>\<rparr>,
              starts = \<lambda>e. 0, fires = \<lambda>e. 0, cancels = \<lambda>e. 0\<rparr>"

lemma tm_demo_start: "tm_start_state tm_demo"
  by (simp add: tm_demo_def tm_start_state_def)

lemma tm_demo_inv: "timer_inv (tst tm_demo)" "kt_elems (tst tm_demo) k = {#}"
  "\<not> armed (ents (tst tm_demo) e)" "timern (ktm (tst tm_demo) k) = 0"
  using tm_start_inv [OF tm_demo_start] by (simp_all add: tm_inv_def) (simp_all add: tm_demo_def kt_elems_def heap_elems_def)

lemma tm_demo_started:
  obtains s where "timer_start 1 0 0 7 5 (tst tm_demo) = Inr s" "timer_inv s"
    "kt_elems s 0 = {#(7, 5)#}" "armed (ents s 7)"
proof -
  obtain s where run: "timer_start 1 0 0 7 5 (tst tm_demo) = Inr s"
    using timer_start_total [of "tst tm_demo" 7 0 1 0 5] tm_demo_inv
    by (auto simp: RUNTIME_MAX_TIMERS_def)
  from timer_start_ok [OF tm_demo_inv(1) run] tm_demo_inv(2) show ?thesis
    by (intro that [OF run]) simp_all
qed

text \<open>
  C7. Every armed timer ends exactly once: from the state after initialisation, under any
  sequence of starts, cancels and expiries on any kthreads, each entry has been started
  as often as it has fired plus been cancelled, plus once more if it is armed now; every
  armed entry is in the heap of its kthread at its recorded index, every heap is in
  order, and the published next-timer time of each kthread is that of its earliest timer.
\<close>

theorem timer_fires_or_cancels_once:
  assumes "tm_start_state m" and "(tm_step cpu st)\<^sup>*\<^sup>* m m'"
  shows "starts m' e = fires m' e + cancels m' e + (if armed (ents (tst m') e) then 1 else 0) \<and>
    (armed (ents (tst m') e) \<longrightarrow>
      (let kt = ktm (tst m') (localk (ents (tst m') e)); i = idx (ents (tst m') e)
       in i < timern kt \<and> tidx_e (timers kt ! i) = e)) \<and>
    min_heap (timers (ktm (tst m') k)) (timern (ktm (tst m') k)) \<and>
    q_ptrs_ok cpu st (ktm (tst m') k)"
proof -
  have inv: "tm_inv cpu st m'" by (rule tm_reach_inv [OF assms(2) tm_start_inv [OF assms(1)]])
  then have "timer_inv (tst m')" by (simp add: tm_inv_def)
  from armed_in_heap [OF this, of e] timer_inv_ktD(3) [OF this] inv show ?thesis
    by (simp add: tm_inv_def Let_def)
qed

theorem timer_fires_or_cancels_once_witness:
  "\<exists>m'. (tm_step 1 0)\<^sup>*\<^sup>* tm_demo m' \<and> starts m' 7 = 1 \<and>
     starts m' 7 = fires m' 7 + cancels m' 7 + (if armed (ents (tst m') 7) then 1 else 0)"
proof -
  obtain s where "timer_start 1 0 0 7 5 (tst tm_demo) = Inr s" by (rule tm_demo_started)
  then have "tm_step 1 0 tm_demo (tm_demo\<lparr>tst := s, starts := bump (starts tm_demo) 7\<rparr>)" by (rule tm_start)
  then have reach: "(tm_step 1 0)\<^sup>*\<^sup>* tm_demo (tm_demo\<lparr>tst := s, starts := bump (starts tm_demo) 7\<rparr>)" by blast
  have "starts (tm_demo\<lparr>tst := s, starts := bump (starts tm_demo) 7\<rparr>) 7 = 1"
    by (simp add: bump_def tm_demo_def)
  with reach timer_fires_or_cancels_once [OF tm_demo_start reach, of 7] show ?thesis by metis
qed

text \<open>
  C15. The softirq runs exactly the expired timers, earliest deadline first: at a time
  \<open>now\<close>, with no preemption pending and handlers that leave the kthread's timers alone,
  \<open>timer_softirq_one\<close> ends, the entries it runs are those whose deadline is at most \<open>now\<close>,
  in the order of their deadlines, and the heap keeps the others.
\<close>

theorem timer_softirq_runs_due_in_order:
  assumes "timer_inv s" and "size (kt_elems s k) < n"
    and "\<And>f a s. timer_inv s \<Longrightarrow> timer_inv (run f a s) \<and> kt_elems (run f a s) k = kt_elems s k"
  shows "\<exists>es t ds. timer_softirq_one run cpu st k (replicate n (False, now)) s = Some (es, t) \<and>
    timer_inv t \<and> length ds = length es \<and> sorted ds \<and>
    mset (zip es ds) = filter_mset (\<lambda>p. snd p \<le> now) (kt_elems s k) \<and>
    kt_elems t k = filter_mset (\<lambda>p. now < snd p) (kt_elems s k)"
  unfolding timer_softirq_one_drain
  by (rule tq.drain_due [OF assms(1) _ assms(2)]) (simp add: assms(3))

theorem timer_softirq_runs_due_in_order_witness:
  "\<exists>s es t ds. kt_elems s 0 = {#(7, 5)#} \<and>
     timer_softirq_one (\<lambda>f a s. s) 1 0 0 (replicate 2 (False, 9)) s = Some (es, t) \<and>
     mset (zip es ds) = {#(7, 5 :: u64)#} \<and> kt_elems t 0 = {#}"
proof -
  obtain s where "timer_inv s" "kt_elems s 0 = {#(7, 5)#}" by (rule tm_demo_started)
  with timer_softirq_runs_due_in_order [of s 0 2 "\<lambda>f a s. s" 1 0 9]
  obtain es t and ds :: "u64 list" where
    "timer_softirq_one (\<lambda>f a s. s) 1 0 0 (replicate 2 (False, 9)) s = Some (es, t)"
    "mset (zip es ds) = {#(7, 5)#}" "kt_elems t 0 = {#}" by auto
  with \<open>kt_elems s 0 = {#(7, 5)#}\<close> show ?thesis by blast
qed

text \<open>
  Starting a timer stops the program exactly when the entry is armed already or the
  kthread's array is full; otherwise the kthread has the timer with the given deadline
  in addition to the ones it had.
\<close>

theorem timer_start_adds:
  assumes "timer_inv s"
  shows "(case timer_start cpu st k e d s of
      Inl err \<Rightarrow> err = Bug_on \<and> (armed (ents s e) \<or> RUNTIME_MAX_TIMERS \<le> Suc (timern (ktm s k)))
    | Inr s' \<Rightarrow> \<not> armed (ents s e) \<and> Suc (timern (ktm s k)) < RUNTIME_MAX_TIMERS \<and> timer_inv s' \<and>
        kt_elems s' k = add_mset (e, d) (kt_elems s k) \<and> armed (ents s' e))"
proof (cases "timer_start cpu st k e d s")
  case (Inl err)
  then have "timer_start_locked k e d s = Inl err"
    by (cases "timer_start_locked k e d s") (auto simp: timer_start_def)
  with Inl show ?thesis by (simp add: timer_start_locked_Inl)
next
  case (Inr s')
  then have "timer_start_locked k e d s \<noteq> Inl Bug_on" by (auto simp: timer_start_def)
  with Inr timer_start_ok [OF assms Inr] show ?thesis by (simp add: timer_start_locked_Inl)
qed

theorem timer_start_adds_witness:
  "\<exists>s'. timer_start 1 0 0 7 5 (tst tm_demo) = Inr s' \<and> kt_elems s' 0 = {#(7, 5)#} \<and> armed (ents s' 7)"
proof -
  obtain s where run: "timer_start 1 0 0 7 5 (tst tm_demo) = Inr s" by (rule tm_demo_started)
  from timer_start_adds [OF tm_demo_inv(1), where cpu = 1 and st = 0 and k = 0 and e = 7 and d = 5] run tm_demo_inv(2) show ?thesis by simp
qed

text \<open>
  C16. Cancelling an armed timer succeeds and removes it, and only it, from the heap of the
  kthread that armed it, wherever in the heap it is; cancelling any other timer fails and
  changes nothing.
\<close>

theorem timer_cancel_removes:
  assumes "timer_inv s"
  shows "case timer_cancel cpu st e s of
      (True, s') \<Rightarrow> armed (ents s e) \<and> timer_inv s' \<and> \<not> armed (ents s' e) \<and>
        (\<exists>d. kt_elems s (localk (ents s e)) = add_mset (e, d) (kt_elems s' (localk (ents s e)))) \<and>
        (\<forall>k. k \<noteq> localk (ents s e) \<longrightarrow> ktm s' k = ktm s k) \<and>
        (\<forall>x. x \<noteq> e \<longrightarrow> same_but_idx (ents s' x) (ents s x))
    | (False, s') \<Rightarrow> \<not> armed (ents s e) \<and> s' = s"
proof (cases "armed (ents s e)")
  case True
  note ok = timer_cancel_locked_armed [OF assms True, where cpu = cpu and st = st]
  obtain s' where r: "timer_cancel cpu st e s = (True, s')"
    using ok(1) True by (cases "timer_cancel_locked cpu st e s") (auto simp: timer_cancel_def)
  then have s': "s' = snd (timer_cancel_locked cpu st e s)" using True by (simp add: timer_cancel_def)
  have "\<not> armed (ents s' e)" using ok(6) [of e] by (simp add: s' same_but_idx_iff)
  moreover have "\<forall>x. x \<noteq> e \<longrightarrow> same_but_idx (ents s' x) (ents s x)"
  proof (intro allI impI)
    fix x assume "x \<noteq> e"
    then show "same_but_idx (ents s' x) (ents s x)" using ok(6) [of x] by (simp add: s')
  qed
  ultimately show ?thesis using True ok(2-4) by (simp add: r) (simp add: s')
qed (simp add: timer_cancel_def)

theorem timer_cancel_removes_witness:
  "\<exists>s s'. armed (ents s 7) \<and> timer_cancel 1 0 7 s = (True, s') \<and> \<not> armed (ents s' 7)"
proof -
  obtain s where s: "timer_inv s" "armed (ents s 7)" by (rule tm_demo_started)
  obtain b s' where r: "timer_cancel 1 0 7 s = (b, s')" by fastforce
  have "b \<and> \<not> armed (ents s' 7)"
    using timer_cancel_removes [OF s(1), where cpu = 1 and st = 0 and e = 7] s(2) by (cases b) (simp_all add: r)
  with s r show ?thesis by auto
qed



end
