(* ===== verification/Mutex.thy ===== *)
theory Mutex
  imports Stddef
begin

text \<open>
  Mutexes (\<open>runtime/sync.c\<close>, \<open>inc/runtime/sync.h\<close>). The word \<open>held\<close> is changed by atomic
  instructions without any lock on the fast paths; the list of waiting threads is guarded
  by \<open>waiter_lock\<close>. A thread that cannot get the mutex queues itself and parks; an unlock
  that sees the waiter flag hands the mutex over to the first waiter without ever
  clearing \<open>held\<close>.

  The model is the machine whose steps are the single accesses to the shared words, so
  all the races between lock and unlock are in it. The ghost component \<open>owner\<close> records
  who has acquired the mutex and \<open>waker\<close> who is handing it over; they are written where
  the code acquires and releases, and nowhere read. The spin lock itself is taken as given: \<open>waiter_lock\<close> is the thread that
  holds it.
\<close>

definition WAITER_FLAG :: u32 where
  "WAITER_FLAG = push_bit 31 1"

text \<open>
  Where a thread is in \<open>mutex_lock\<close>/\<open>__mutex_lock\<close> (\<open>M_\<close>) or \<open>mutex_unlock\<close>/\<open>__mutex_unlock\<close>
  (\<open>U_\<close>): \<open>M_spin\<close> waits for the spin lock, \<open>M_or\<close> is before the fetch-and-or, \<open>M_race\<close> after
  it found the mutex free, \<open>M_enq\<close> after it found it taken; \<open>U_pop\<close> is before the pop,
  \<open>U_clear\<close> after it found no waiter, \<open>U_wake\<close> before \<open>thread_ready\<close>.
\<close>

datatype mutex_pc =
    M_idle | M_spin | M_or | M_race | M_enq | M_parked | M_holds
  | U_spin | U_pop | U_clear | U_wake tid

record mutex_sys =
  held :: u32
  waiter_lock :: "tid option"
  waiters :: "tid list"
  mpc :: "tid \<Rightarrow> mutex_pc"
  owner :: "tid option"
  waker :: "tid option"

definition mutex_init :: "(tid \<Rightarrow> mutex_pc) \<Rightarrow> mutex_sys" where
  "mutex_init pcs = \<lparr>held = 0, waiter_lock = None, waiters = [], mpc = pcs, owner = None, waker = None\<rparr>"

definition mutex_held :: "mutex_sys \<Rightarrow> bool" where
  "mutex_held s \<longleftrightarrow> held s \<noteq> 0"

definition set_pc :: "mutex_sys \<Rightarrow> tid \<Rightarrow> mutex_pc \<Rightarrow> mutex_sys" where
  "set_pc s t pc = s\<lparr>mpc := (mpc s)(t := pc)\<rparr>"

text \<open>The compare-and-swap of \<open>mutex_try_lock\<close> and of the fast path of \<open>mutex_lock\<close>.\<close>

definition mutex_try_lock :: "tid \<Rightarrow> mutex_sys \<Rightarrow> bool \<times> mutex_sys" where
  "mutex_try_lock t s =
     (let (ok, h) = atomic_cmpxchg (held s) 0 1
      in if ok then (True, set_pc (s\<lparr>held := h, owner := Some t\<rparr>) t M_holds) else (False, s))"

definition mutex_lock_fast :: "tid \<Rightarrow> mutex_sys \<Rightarrow> mutex_sys" where
  "mutex_lock_fast t s =
     (let (ok, s') = mutex_try_lock t s in if ok then s' else set_pc s' t M_spin)"

definition mutex_unlock_fast :: "tid \<Rightarrow> mutex_sys \<Rightarrow> mutex_sys" where
  "mutex_unlock_fast t s =
     (let (ok, h) = atomic_cmpxchg (held s) 1 0
      in if ok then set_pc (s\<lparr>held := h, owner := None\<rparr>) t M_idle else set_pc s t U_spin)"

text \<open>The fetch-and-or of \<open>__mutex_lock\<close>.\<close>

definition mutex_lock_or :: "tid \<Rightarrow> mutex_sys \<Rightarrow> mutex_sys" where
  "mutex_lock_or t s =
     (let (old, h) = atomic_fetch_and_or (held s) WAITER_FLAG
      in if old = 0 then set_pc (s\<lparr>held := h, owner := Some t\<rparr>) t M_race
         else set_pc (s\<lparr>held := h\<rparr>) t M_enq)"

text \<open>The pop of \<open>__mutex_unlock\<close>.\<close>

definition mutex_unlock_pop :: "tid \<Rightarrow> mutex_sys \<Rightarrow> mutex_sys" where
  "mutex_unlock_pop t s =
     (case waiters s of
        [] \<Rightarrow> set_pc s t U_clear
      | w # ws \<Rightarrow> set_pc (s\<lparr>waiters := ws, waiter_lock := None, owner := Some w, waker := Some t\<rparr>) t (U_wake w))"

text \<open>\<open>mutex_unlock\<close> run to its end with nobody holding the spin lock.\<close>

definition mutex_unlock :: "tid \<Rightarrow> mutex_sys \<Rightarrow> mutex_sys" where
  "mutex_unlock t s =
     (let s = mutex_unlock_fast t s
      in if mpc s t \<noteq> U_spin then s
         else let s = mutex_unlock_pop t (set_pc (s\<lparr>waiter_lock := Some t\<rparr>) t U_pop)
              in case mpc s t of
                   U_clear \<Rightarrow> set_pc (s\<lparr>held := 0, waiter_lock := None, owner := None\<rparr>) t M_idle
                 | U_wake w \<Rightarrow> set_pc (set_pc (s\<lparr>waker := None\<rparr>) t M_idle) w M_holds
                 | _ \<Rightarrow> s)"

inductive mutex_step :: "mutex_sys \<Rightarrow> mutex_sys \<Rightarrow> bool" where
  try_fail: "mpc s t = M_idle \<Longrightarrow> mutex_try_lock t s = (False, s') \<Longrightarrow> mutex_step s s'"
| try_ok: "mpc s t = M_idle \<Longrightarrow> mutex_try_lock t s = (True, s') \<Longrightarrow> mutex_step s s'"
| lock: "mpc s t = M_idle \<Longrightarrow> mutex_step s (mutex_lock_fast t s)"
| lock_spin: "mpc s t = M_spin \<Longrightarrow> waiter_lock s = None \<Longrightarrow>
    mutex_step s (set_pc (s\<lparr>waiter_lock := Some t\<rparr>) t M_or)"
| lock_or: "mpc s t = M_or \<Longrightarrow> mutex_step s (mutex_lock_or t s)"
| lock_race: "mpc s t = M_race \<Longrightarrow> mutex_step s (set_pc (s\<lparr>held := 1, waiter_lock := None\<rparr>) t M_holds)"
| lock_enq: "mpc s t = M_enq \<Longrightarrow>
    mutex_step s (set_pc (s\<lparr>waiters := waiters s @ [t], waiter_lock := None\<rparr>) t M_parked)"
| unlock: "mpc s t = M_holds \<Longrightarrow> mutex_step s (mutex_unlock_fast t s)"
| unlock_spin: "mpc s t = U_spin \<Longrightarrow> waiter_lock s = None \<Longrightarrow>
    mutex_step s (set_pc (s\<lparr>waiter_lock := Some t\<rparr>) t U_pop)"
| unlock_pop: "mpc s t = U_pop \<Longrightarrow> mutex_step s (mutex_unlock_pop t s)"
| unlock_clear: "mpc s t = U_clear \<Longrightarrow>
    mutex_step s (set_pc (s\<lparr>held := 0, waiter_lock := None, owner := None\<rparr>) t M_idle)"
| unlock_wake: "mpc s t = U_wake w \<Longrightarrow> 
    mutex_step s (set_pc (set_pc (s\<lparr>waker := None\<rparr>) t M_idle) w M_holds)"

subsection \<open>The invariant\<close>

definition HELD_WAIT :: u32 where
  "HELD_WAIT = 1 OR WAITER_FLAG"

text \<open>What each place means for the shared words.\<close>

definition thread_ok :: "mutex_sys \<Rightarrow> tid \<Rightarrow> bool" where
  "thread_ok s t \<longleftrightarrow>
     (let own = (owner s = Some t); spin = (waiter_lock s = Some t); queued = (t \<in> set (waiters s));
          wakes = (waker s = Some t)
      in case mpc s t of
           M_idle \<Rightarrow> \<not> own \<and> \<not> spin \<and> \<not> queued \<and> \<not> wakes
         | M_spin \<Rightarrow> \<not> own \<and> \<not> spin \<and> \<not> queued \<and> \<not> wakes
         | M_or \<Rightarrow> \<not> own \<and> spin \<and> \<not> queued \<and> \<not> wakes
         | M_race \<Rightarrow> own \<and> spin \<and> \<not> queued \<and> \<not> wakes \<and> held s = WAITER_FLAG
         | M_enq \<Rightarrow> \<not> own \<and> spin \<and> \<not> queued \<and> \<not> wakes \<and> held s = HELD_WAIT
         | M_parked \<Rightarrow> \<not> spin \<and> \<not> wakes \<and> queued = (\<not> own) \<and> (own \<longrightarrow> waker s \<noteq> None)
         | M_holds \<Rightarrow> own \<and> \<not> spin \<and> \<not> queued \<and> \<not> wakes
         | U_spin \<Rightarrow> own \<and> \<not> spin \<and> \<not> queued \<and> \<not> wakes
         | U_pop \<Rightarrow> own \<and> spin \<and> \<not> queued \<and> \<not> wakes
         | U_clear \<Rightarrow> own \<and> spin \<and> \<not> queued \<and> \<not> wakes \<and> waiters s = []
         | U_wake w \<Rightarrow> owner s = Some w \<and> mpc s w = M_parked \<and> \<not> spin \<and> \<not> queued \<and> wakes)"

definition shared_ok :: "mutex_sys \<Rightarrow> bool" where
  "shared_ok s \<longleftrightarrow>
     (owner s = None \<longleftrightarrow> held s = 0) \<and> distinct (waiters s) \<and>
     (waiters s \<noteq> [] \<longrightarrow> held s = HELD_WAIT) \<and>
     (held s \<in> {0, 1, HELD_WAIT} \<or>
       (case waiter_lock s of None \<Rightarrow> False | Some t \<Rightarrow> mpc s t = M_race)) \<and>
     (case waker s of None \<Rightarrow> True | Some u \<Rightarrow> (case mpc s u of U_wake w \<Rightarrow> True | _ \<Rightarrow> False))"

definition mutex_inv :: "mutex_sys \<Rightarrow> bool" where
  "mutex_inv s \<longleftrightarrow> shared_ok s \<and> (\<forall>t. thread_ok s t)"

lemma flag_facts [simp]:
  "WAITER_FLAG \<noteq> 0" "WAITER_FLAG \<noteq> 1" "HELD_WAIT \<noteq> 0" "HELD_WAIT \<noteq> 1" "HELD_WAIT \<noteq> WAITER_FLAG"
  "WAITER_FLAG \<noteq> HELD_WAIT"
  "0 OR WAITER_FLAG = WAITER_FLAG" "1 OR WAITER_FLAG = HELD_WAIT"
  "HELD_WAIT OR WAITER_FLAG = HELD_WAIT" "WAITER_FLAG OR WAITER_FLAG = WAITER_FLAG"
  by (simp_all add: WAITER_FLAG_def HELD_WAIT_def)

lemma set_pc_fields [simp]:
  "held (set_pc s t pc) = held s" "waiter_lock (set_pc s t pc) = waiter_lock s"
  "waiters (set_pc s t pc) = waiters s" "owner (set_pc s t pc) = owner s"
  "waker (set_pc s t pc) = waker s" "mpc (set_pc s t pc) = (mpc s)(t := pc)"
  by (simp_all add: set_pc_def)

text \<open>While the mutex is free nobody is in a place that owns it, and nobody waits.\<close>

lemma mutex_free:
  assumes "mutex_inv s" and "held s = 0"
  shows "owner s = None" and "waiters s = []" and "waker s = None"
    and "mpc s t \<in> {M_idle, M_spin, M_or}"
proof -
  show o: "owner s = None" and w: "waiters s = []" using assms by (auto simp: mutex_inv_def shared_ok_def)
  have ok: "thread_ok s t" for t using assms by (simp add: mutex_inv_def)
  show free: "mpc s t \<in> {M_idle, M_spin, M_or}" for t
    using ok [of t] o w assms(2) by (auto simp: thread_ok_def Let_def split: mutex_pc.splits)
  show "waker s = None"
  proof (cases "waker s")
    case (Some u)
    then show ?thesis using free [of u] assms(1) by (auto simp: mutex_inv_def shared_ok_def)
  qed
qed

text \<open>
  A step of thread \<open>t\<close>: it is enough to look at \<open>t\<close> and at one other thread at a time.
\<close>

lemma mutex_inv_step:
  assumes inv: "mutex_inv s"
    and t: "shared_ok s \<Longrightarrow> thread_ok s t \<Longrightarrow> thread_ok s' t"
    and x: "\<And>x. x \<noteq> t \<Longrightarrow> shared_ok s \<Longrightarrow> thread_ok s t \<Longrightarrow> thread_ok s x \<Longrightarrow> thread_ok s' x"
    and g: "shared_ok s \<Longrightarrow> thread_ok s t \<Longrightarrow> shared_ok s'"
  shows "mutex_inv s'"
proof -
  have ok: "thread_ok s x" and sh: "shared_ok s" for x using inv by (simp_all add: mutex_inv_def)
  have "thread_ok s' x" for x using t [OF sh ok] x [OF _ sh ok ok] by (cases "x = t") auto
  with g [OF sh ok] show ?thesis by (simp add: mutex_inv_def)
qed

lemmas mutex_unfold = thread_ok_def shared_ok_def Let_def

lemma inv_acquire:
  assumes inv: "mutex_inv s" and t: "mpc s t = M_idle" "held s = 0"
  shows "mutex_inv (set_pc (s\<lparr>held := 1, owner := Some t\<rparr>) t M_holds)"
  by (rule mutex_inv_step [OF inv, where t = t])
    (use t mutex_free [OF inv t(2)] in \<open>auto simp: mutex_unfold split: mutex_pc.splits option.splits\<close>)

lemma inv_to_spin:
  assumes inv: "mutex_inv s" and t: "mpc s t = M_idle"
  shows "mutex_inv (set_pc s t M_spin)"
  by (rule mutex_inv_step [OF inv, where t = t])
    (use t in \<open>auto simp: mutex_unfold split: mutex_pc.splits option.splits\<close>)

lemma inv_to_unlock:
  assumes inv: "mutex_inv s" and t: "mpc s t = M_holds"
  shows "mutex_inv (set_pc s t U_spin)"
  by (rule mutex_inv_step [OF inv, where t = t])
    (use t in \<open>auto simp: mutex_unfold split: mutex_pc.splits option.splits\<close>)

lemma inv_lock_spin:
  assumes inv: "mutex_inv s" and t: "mpc s t = M_spin" "waiter_lock s = None"
  shows "mutex_inv (set_pc (s\<lparr>waiter_lock := Some t\<rparr>) t M_or)"
  by (rule mutex_inv_step [OF inv, where t = t])
    (use t in \<open>auto simp: mutex_unfold split: mutex_pc.splits option.splits\<close>)

lemma inv_unlock_spin:
  assumes inv: "mutex_inv s" and t: "mpc s t = U_spin" "waiter_lock s = None"
  shows "mutex_inv (set_pc (s\<lparr>waiter_lock := Some t\<rparr>) t U_pop)"
  by (rule mutex_inv_step [OF inv, where t = t])
    (use t in \<open>auto simp: mutex_unfold split: mutex_pc.splits option.splits\<close>)

lemma inv_or_free:
  assumes inv: "mutex_inv s" and t: "mpc s t = M_or" "held s = 0"
  shows "mutex_inv (set_pc (s\<lparr>held := WAITER_FLAG, owner := Some t\<rparr>) t M_race)"
  by (rule mutex_inv_step [OF inv, where t = t])
    (use t mutex_free [OF inv t(2)] in \<open>auto simp: mutex_unfold split: mutex_pc.splits option.splits\<close>)

lemma inv_or_taken:
  assumes inv: "mutex_inv s" and t: "mpc s t = M_or" "held s \<noteq> 0"
  shows "mutex_inv (set_pc (s\<lparr>held := held s OR WAITER_FLAG\<rparr>) t M_enq)"
  by (rule mutex_inv_step [OF inv, where t = t])
    (use t in \<open>auto simp: mutex_unfold split: mutex_pc.splits option.splits\<close>)

lemma inv_lock_race:
  assumes inv: "mutex_inv s" and t: "mpc s t = M_race"
  shows "mutex_inv (set_pc (s\<lparr>held := 1, waiter_lock := None\<rparr>) t M_holds)"
  by (rule mutex_inv_step [OF inv, where t = t])
    (use t in \<open>auto simp: mutex_unfold split: mutex_pc.splits option.splits\<close>)

lemma inv_lock_enq:
  assumes inv: "mutex_inv s" and t: "mpc s t = M_enq"
  shows "mutex_inv (set_pc (s\<lparr>waiters := waiters s @ [t], waiter_lock := None\<rparr>) t M_parked)"
  by (rule mutex_inv_step [OF inv, where t = t])
    (use t in \<open>auto simp: mutex_unfold split: mutex_pc.splits option.splits\<close>)

lemma inv_unlock_fast:
  assumes inv: "mutex_inv s" and t: "mpc s t = M_holds" "held s = 1"
  shows "mutex_inv (set_pc (s\<lparr>held := 0, owner := None\<rparr>) t M_idle)"
  by (rule mutex_inv_step [OF inv, where t = t])
    (use t in \<open>auto simp: mutex_unfold split: mutex_pc.splits option.splits\<close>)

lemma inv_unlock_clear:
  assumes inv: "mutex_inv s" and t: "mpc s t = U_clear"
  shows "mutex_inv (set_pc (s\<lparr>held := 0, waiter_lock := None, owner := None\<rparr>) t M_idle)"
  by (rule mutex_inv_step [OF inv, where t = t])
    (use t in \<open>auto simp: mutex_unfold split: mutex_pc.splits option.splits\<close>)

lemma inv_unlock_empty:
  assumes inv: "mutex_inv s" and t: "mpc s t = U_pop" "waiters s = []"
  shows "mutex_inv (set_pc s t U_clear)"
  by (rule mutex_inv_step [OF inv, where t = t])
    (use t in \<open>auto simp: mutex_unfold split: mutex_pc.splits option.splits\<close>)

lemma queued_parked:
  assumes "mutex_inv s" and "w \<in> set (waiters s)"
  shows "mpc s w = M_parked" "owner s \<noteq> Some w"
proof -
  have "thread_ok s w" using assms by (simp add: mutex_inv_def)
  then show "mpc s w = M_parked" "owner s \<noteq> Some w"
    using assms(2) by (auto simp: thread_ok_def Let_def split: mutex_pc.splits)
qed

lemma inv_unlock_pop:
  assumes inv: "mutex_inv s" and t: "mpc s t = U_pop" "waiters s = w # ws"
  shows "mutex_inv (set_pc (s\<lparr>waiters := ws, waiter_lock := None, owner := Some w, waker := Some t\<rparr>) t (U_wake w))"
  by (rule mutex_inv_step [OF inv, where t = t])
    (use t queued_parked [OF inv, of w] in \<open>auto simp: mutex_unfold split: mutex_pc.splits option.splits\<close>)

lemma inv_unlock_wake:
  assumes inv: "mutex_inv s" and t: "mpc s t = U_wake w"
  shows "mutex_inv (set_pc (set_pc (s\<lparr>waker := None\<rparr>) t M_idle) w M_holds)"
  by (rule mutex_inv_step [OF inv, where t = t])
    (use t in \<open>auto simp: mutex_unfold split: mutex_pc.splits option.splits\<close>)

lemma mutex_try_lock_eq:
  "mutex_try_lock t s =
     (if held s = 0 then (True, set_pc (s\<lparr>held := 1, owner := Some t\<rparr>) t M_holds) else (False, s))"
  by (simp add: mutex_try_lock_def atomic_cmpxchg_def)

lemma mutex_step_inv:
  assumes "mutex_step s s'" and "mutex_inv s" shows "mutex_inv s'"
  using assms(1)
proof cases
  case (lock t)
  with assms(2) show ?thesis
    by (cases "held s = 0") (simp_all add: mutex_lock_fast_def mutex_try_lock_eq inv_acquire inv_to_spin)
next
  case (lock_or t)
  with assms(2) show ?thesis
    by (cases "held s = 0") (simp_all add: mutex_lock_or_def atomic_fetch_and_or_def inv_or_free inv_or_taken)
next
  case (unlock t)
  with assms(2) show ?thesis
    by (cases "held s = 1") (simp_all add: mutex_unlock_fast_def atomic_cmpxchg_def inv_unlock_fast inv_to_unlock)
next
  case (unlock_pop t)
  with assms(2) show ?thesis
    by (cases "waiters s") (simp_all add: mutex_unlock_pop_def inv_unlock_empty inv_unlock_pop)
qed (use assms(2) in \<open>auto simp: mutex_try_lock_eq inv_acquire inv_lock_spin inv_lock_race inv_lock_enq
      inv_unlock_spin inv_unlock_clear inv_unlock_wake split: if_splits\<close>)

lemma mutex_unlock_steps:
  assumes "mpc s t = M_holds" and "waiter_lock s = None"
  shows "mutex_step\<^sup>*\<^sup>* s (mutex_unlock t s)"
proof (cases "held s = 1")
  case True
  then have "mutex_unlock t s = mutex_unlock_fast t s"
    by (simp add: mutex_unlock_def mutex_unlock_fast_def atomic_cmpxchg_def Let_def)
  then show ?thesis using unlock [OF assms(1)] by (simp add: r_into_rtranclp)
next
  case False
  then have f: "mutex_unlock_fast t s = set_pc s t U_spin"
    by (simp add: mutex_unlock_fast_def atomic_cmpxchg_def)
  let ?s1 = "set_pc s t U_spin"
  let ?s2 = "set_pc (?s1\<lparr>waiter_lock := Some t\<rparr>) t U_pop"
  let ?s3 = "mutex_unlock_pop t ?s2"
  have 1: "mutex_step s ?s1" using unlock [OF assms(1)] f by simp
  have 2: "mutex_step ?s1 ?s2" by (rule unlock_spin) (simp_all add: assms)
  have 3: "mutex_step ?s2 ?s3" by (rule unlock_pop) simp
  have 4: "mutex_step ?s3 (mutex_unlock t s)"
  proof (cases "waiters s")
    case Nil
    then have "mpc ?s3 t = U_clear" by (simp add: mutex_unlock_pop_def)
    from unlock_clear [OF this] this show ?thesis by (simp add: mutex_unlock_def f Let_def)
  next
    case (Cons w ws)
    then have "mpc ?s3 t = U_wake w" by (simp add: mutex_unlock_pop_def)
    from unlock_wake [OF this] this show ?thesis by (simp add: mutex_unlock_def f Let_def)
  qed
  from 1 2 3 4 show ?thesis by (blast intro: converse_rtranclp_into_rtranclp r_into_rtranclp)
qed

lemma mutex_reach_inv:
  assumes "mutex_step\<^sup>*\<^sup>* s s'" and "mutex_inv s" shows "mutex_inv s'"
  using assms by (induction rule: rtranclp_induct) (auto intro: mutex_step_inv)

lemma mutex_inv_init: "mutex_inv (mutex_init (\<lambda>t. M_idle))"
  by (simp add: mutex_inv_def shared_ok_def thread_ok_def mutex_init_def Let_def)

subsection \<open>Every waiter can be woken\<close>

text \<open>From \<open>s\<close>, \<open>w\<close> can come to hold the mutex with \<open>q\<close> still waiting.\<close>

definition hands_over :: "mutex_sys \<Rightarrow> tid \<Rightarrow> tid list \<Rightarrow> bool" where
  "hands_over s w q \<longleftrightarrow> (\<exists>s'. mutex_step\<^sup>*\<^sup>* s s' \<and> waiters s' = q \<and> mpc s' w = M_holds)"

lemma hands_over_done: "waiters s = q \<Longrightarrow> mpc s w = M_holds \<Longrightarrow> hands_over s w q"
  unfolding hands_over_def by blast

lemma hands_over_step:
  assumes "mutex_step s s1" and "hands_over s1 w q" shows "hands_over s w q"
proof -
  obtain s' where "mutex_step\<^sup>*\<^sup>* s1 s'" "waiters s' = q" "mpc s' w = M_holds"
    using assms(2) by (auto simp: hands_over_def)
  with assms(1) show ?thesis unfolding hands_over_def by (blast intro: converse_rtranclp_into_rtranclp)
qed

lemma pop_hands_over:
  assumes "mpc s u = U_pop" and "waiters s = w # ws"
  shows "hands_over s w ws"
proof -
  let ?s1 = "mutex_unlock_pop u s"
  have s1: "mpc ?s1 u = U_wake w" "waiters ?s1 = ws" using assms by (simp_all add: mutex_unlock_pop_def)
  show ?thesis
    by (rule hands_over_step [OF mutex_step.unlock_pop [OF assms(1)]],
        rule hands_over_step [OF mutex_step.unlock_wake [OF s1(1)]], rule hands_over_done)
      (simp_all add: s1)
qed

lemma unlock_hands_over:
  assumes u: "mpc s u = U_spin" and l: "waiter_lock s = None" and w: "waiters s = w # ws"
  shows "hands_over s w ws"
  by (rule hands_over_step [OF mutex_step.unlock_spin [OF u l]], rule pop_hands_over [where u = u])
    (simp_all add: w)

lemma holder_hands_over:
  assumes inv: "mutex_inv s" and u: "mpc s u = M_holds" and l: "waiter_lock s = None"
    and w: "waiters s = w # ws"
  shows "hands_over s w ws"
proof (rule hands_over_step [OF mutex_step.unlock [OF u]], rule unlock_hands_over [where u = u])
  have "held s = HELD_WAIT" using inv w by (simp add: mutex_inv_def shared_ok_def)
  then have e: "mutex_unlock_fast u s = set_pc s u U_spin"
    by (simp add: mutex_unlock_fast_def atomic_cmpxchg_def)
  show "mpc (mutex_unlock_fast u s) u = U_spin" "waiter_lock (mutex_unlock_fast u s) = None"
    "waiters (mutex_unlock_fast u s) = w # ws" using l w by (simp_all add: e)
qed

lemma unlocked_hands_over:
  assumes inv: "mutex_inv s" and l: "waiter_lock s = None" and w: "waiters s = w # ws"
  shows "hands_over s w ws"
proof -
  have sh: "shared_ok s" and ok: "thread_ok s x" for x using inv by (simp_all add: mutex_inv_def)
  obtain u where u: "owner s = Some u" using sh w by (auto simp: shared_ok_def)
  consider (holds) "mpc s u = M_holds" | (spin) "mpc s u = U_spin"
    | (parked) v where "mpc s u = M_parked" "waker s = Some v"
    using ok [of u] u l by (auto simp: thread_ok_def Let_def split: mutex_pc.splits)
  then show ?thesis
  proof cases
    case holds
    then show ?thesis by (rule holder_hands_over [OF inv _ l w])
  next
    case spin
    then show ?thesis by (rule unlock_hands_over [OF _ l w])
  next
    case parked
    then have v: "mpc s v = U_wake u"
      using sh ok [of v] u by (auto simp: shared_ok_def thread_ok_def split: mutex_pc.splits)
    show ?thesis
      by (rule hands_over_step [OF mutex_step.unlock_wake [OF v]],
          rule holder_hands_over [OF inv_unlock_wake [OF inv v], where u = u]) (use l w in simp_all)
  qed
qed

lemma enq_hands_over:
  assumes inv: "mutex_inv s" and x: "mpc s x = M_enq" and w: "waiters s = w # ws"
  shows "hands_over s w (ws @ [x])"
  by (rule hands_over_step [OF mutex_step.lock_enq [OF x]],
      rule unlocked_hands_over [OF inv_lock_enq [OF inv x]]) (use w in simp_all)

lemma queue_advances:
  assumes inv: "mutex_inv s" and w: "waiters s = w # ws"
  shows "\<exists>ys. hands_over s w (ws @ ys)"
proof (cases "waiter_lock s")
  case None
  have "hands_over s w (ws @ [])" using unlocked_hands_over [OF inv None w] by simp
  then show ?thesis by blast
next
  case (Some x)
  have sh: "shared_ok s" and ok: "thread_ok s x" using inv by (simp_all add: mutex_inv_def)
  have h: "held s = HELD_WAIT" using sh w by (simp add: shared_ok_def)
  consider (or_) "mpc s x = M_or" | (enq) "mpc s x = M_enq" | (pop) "mpc s x = U_pop"
    using ok Some h w by (auto simp: thread_ok_def Let_def split: mutex_pc.splits)
  then show ?thesis
  proof cases
    case or_
    have e: "mutex_lock_or x s = set_pc (s\<lparr>held := held s OR WAITER_FLAG\<rparr>) x M_enq"
      using h by (simp add: mutex_lock_or_def atomic_fetch_and_or_def)
    have "mutex_inv (mutex_lock_or x s)" unfolding e by (rule inv_or_taken [OF inv or_]) (simp add: h)
    then have "hands_over (mutex_lock_or x s) w (ws @ [x])" by (rule enq_hands_over) (simp_all add: e w)
    then show ?thesis using hands_over_step [OF mutex_step.lock_or [OF or_]] by blast
  next
    case enq
    then show ?thesis using enq_hands_over [OF inv _ w] by blast
  next
    case pop
    then have "hands_over s w (ws @ [])" using pop_hands_over [OF _ w] by simp
    then show ?thesis by blast
  qed
qed

lemma queued_gets_mutex:
  assumes "mutex_inv s" and "t \<in> set (waiters s)"
  shows "\<exists>s'. mutex_step\<^sup>*\<^sup>* s s' \<and> mpc s' t = M_holds"
  using assms
proof (induction "length (takeWhile (\<lambda>x. x \<noteq> t) (waiters s))" arbitrary: s rule: less_induct)
  case less
  obtain w ws where w: "waiters s = w # ws" using less.prems(2) by (cases "waiters s") auto
  obtain s1 ys where s1: "mutex_step\<^sup>*\<^sup>* s s1" "waiters s1 = ws @ ys" "mpc s1 w = M_holds"
    using queue_advances [OF less.prems(1) w] by (auto simp: hands_over_def)
  show ?case
  proof (cases "w = t")
    case True
    then show ?thesis using s1 by blast
  next
    case False
    then have t: "t \<in> set ws" using less.prems(2) w by simp
    have "length (takeWhile (\<lambda>x. x \<noteq> t) (waiters s1)) < length (takeWhile (\<lambda>x. x \<noteq> t) (waiters s))"
      using s1(2) w False t by (simp add: takeWhile_append1)
    moreover have "mutex_inv s1" by (rule mutex_reach_inv [OF s1(1) less.prems(1)])
    ultimately obtain s2 where "mutex_step\<^sup>*\<^sup>* s1 s2" "mpc s2 t = M_holds"
      using less.hyps [of s1] s1(2) t by auto
    then show ?thesis using s1(1) by (meson rtranclp_trans)
  qed
qed

subsection \<open>What a mutex guarantees\<close>

text \<open>A reachable state: thread 1 holds the mutex and thread 2 waits for it.\<close>

lemma mutex_demo:
  obtains s where "mutex_step\<^sup>*\<^sup>* (mutex_init (\<lambda>t. M_idle)) s" "mpc s 1 = M_holds" "mpc s 2 = M_parked"
proof -
  let ?s0 = "mutex_init (\<lambda>t. M_idle)"
  let ?s1 = "mutex_lock_fast 1 ?s0"
  let ?s2 = "mutex_lock_fast 2 ?s1"
  let ?s3 = "set_pc (?s2\<lparr>waiter_lock := Some 2\<rparr>) 2 M_or"
  let ?s4 = "mutex_lock_or 2 ?s3"
  let ?s5 = "set_pc (?s4\<lparr>waiters := waiters ?s4 @ [2], waiter_lock := None\<rparr>) 2 M_parked"
  note ev = mutex_lock_fast_def mutex_try_lock_def mutex_lock_or_def atomic_cmpxchg_def
    atomic_fetch_and_or_def mutex_init_def
  have "mutex_step ?s0 ?s1" by (rule lock) (simp add: mutex_init_def)
  moreover have "mutex_step ?s1 ?s2" by (rule lock) (simp add: ev)
  moreover have "mutex_step ?s2 ?s3" by (rule lock_spin) (simp_all add: ev)
  moreover have "mutex_step ?s3 ?s4" by (rule lock_or) simp
  moreover have "mutex_step ?s4 ?s5" by (rule lock_enq) (simp add: ev)
  ultimately have "mutex_step\<^sup>*\<^sup>* ?s0 ?s5"
    by (blast intro: converse_rtranclp_into_rtranclp r_into_rtranclp)
  moreover have "mpc ?s5 1 = M_holds" "mpc ?s5 2 = M_parked" by (simp_all add: ev)
  ultimately show ?thesis by (rule that)
qed

text \<open>
  C4. Mutual exclusion under every interleaving of the atomic accesses of any number of
  threads: at most one thread is between acquiring and releasing the mutex (counting the
  thread a release is handing it to), and \<open>mutex_held\<close> is true exactly while there is one.
\<close>

theorem mutex_mutual_exclusion:
  assumes "mutex_step\<^sup>*\<^sup>* (mutex_init (\<lambda>t. M_idle)) s"
  defines "owns \<equiv> \<lambda>t. mpc s t \<in> {M_holds, M_race, U_spin, U_pop, U_clear} \<or> (\<exists>u. mpc s u = U_wake t)"
  shows "(\<forall>t u. owns t \<and> owns u \<longrightarrow> t = u) \<and> (mutex_held s \<longleftrightarrow> (\<exists>t. owns t))"
proof -
  have "mutex_inv s" by (rule mutex_reach_inv [OF assms(1) mutex_inv_init])
  then have ok: "thread_ok s t" and sh: "shared_ok s" for t by (simp_all add: mutex_inv_def)
  have own: "owns t \<Longrightarrow> owner s = Some t" for t
    using ok unfolding owns_def by (fastforce simp: thread_ok_def Let_def split: mutex_pc.splits)
  have "owns t" if "owner s = Some t" for t
  proof (cases "mpc s t = M_parked")
    case True
    then have "waker s \<noteq> None" using ok [of t] that by (simp add: thread_ok_def Let_def)
    then obtain u where u: "waker s = Some u" by blast
    then obtain w where "mpc s u = U_wake w" using sh by (auto simp: shared_ok_def split: mutex_pc.splits)
    with ok [of u] that show ?thesis by (auto simp: owns_def thread_ok_def Let_def)
  next
    case False
    then show ?thesis
      using ok [of t] that by (auto simp: owns_def thread_ok_def Let_def split: mutex_pc.splits)
  qed
  then have "(\<exists>t. owns t) \<longleftrightarrow> owner s \<noteq> None" using own by blast
  moreover have "mutex_held s \<longleftrightarrow> owner s \<noteq> None" using sh by (simp add: mutex_held_def shared_ok_def)
  ultimately show ?thesis using own by (metis option.inject)
qed

theorem mutex_mutual_exclusion_witness:
  "\<exists>s :: mutex_sys. mpc s 1 = M_holds \<and> mutex_held s \<and> (\<forall>u. mpc s u = M_holds \<longrightarrow> u = 1)"
proof -
  obtain s where r: "mutex_step\<^sup>*\<^sup>* (mutex_init (\<lambda>t. M_idle)) s" and s: "mpc s 1 = M_holds"
    by (rule mutex_demo)
  from mutex_mutual_exclusion [OF r] s have "mutex_held s \<and> (\<forall>u. mpc s u = M_holds \<longrightarrow> u = 1)" by blast
  with s show ?thesis by blast
qed



end
