(* ===== verification/Sync.thy ===== *)
theory Sync
  imports Mutex
begin

text \<open>
  Read-write mutexes, condition variables, wait groups and barriers (\<open>runtime/sync.c\<close>).
  Each operation is one critical section of the object's spin lock, so it is a function
  of the object's state; its result says whether the caller goes on or parks, and which
  threads it makes ready (in that order) after leaving the critical section.
\<close>

datatype wait_result = Runs | Parks

subsection \<open>Read-write mutexes\<close>

record rwmutex =
  rw_count :: int
  read_waiters :: "tid list"
  write_waiters :: "tid list"
  read_waiter_count :: int

definition rwmutex_init :: rwmutex where
  "rwmutex_init = \<lparr>rw_count = 0, read_waiters = [], write_waiters = [], read_waiter_count = 0\<rparr>"

definition rwmutex_held :: "rwmutex \<Rightarrow> bool" where
  "rwmutex_held m \<longleftrightarrow> rw_count m \<noteq> 0"

definition rwmutex_rdlock :: "tid \<Rightarrow> rwmutex \<Rightarrow> wait_result \<times> rwmutex" where
  "rwmutex_rdlock self m =
     (if rw_count m \<ge> 0 then (Runs, m\<lparr>rw_count := rw_count m + 1\<rparr>)
      else (Parks, m\<lparr>read_waiter_count := read_waiter_count m + 1,
                     read_waiters := read_waiters m @ [self]\<rparr>))"

definition rwmutex_try_rdlock :: "rwmutex \<Rightarrow> bool \<times> rwmutex" where
  "rwmutex_try_rdlock m =
     (if rw_count m \<ge> 0 then (True, m\<lparr>rw_count := rw_count m + 1\<rparr>) else (False, m))"

definition rwmutex_wrlock :: "tid \<Rightarrow> rwmutex \<Rightarrow> wait_result \<times> rwmutex" where
  "rwmutex_wrlock self m =
     (if rw_count m = 0 then (Runs, m\<lparr>rw_count := -1\<rparr>)
      else (Parks, m\<lparr>write_waiters := write_waiters m @ [self]\<rparr>))"

definition rwmutex_try_wrlock :: "rwmutex \<Rightarrow> bool \<times> rwmutex" where
  "rwmutex_try_wrlock m =
     (if rw_count m = 0 then (True, m\<lparr>rw_count := -1\<rparr>) else (False, m))"

definition rwmutex_unlock :: "rwmutex \<Rightarrow> tid list \<times> rwmutex" where
  "rwmutex_unlock m =
     (let m = (if rw_count m < 0 then m\<lparr>rw_count := 0\<rparr> else m\<lparr>rw_count := rw_count m - 1\<rparr>)
      in if rw_count m = 0 \<and> read_waiter_count m > 0
         then (read_waiters m,
               m\<lparr>rw_count := read_waiter_count m, read_waiter_count := 0, read_waiters := []\<rparr>)
         else if rw_count m = 0
         then (case write_waiters m of
                 [] \<Rightarrow> ([], m)
               | th # ws \<Rightarrow> ([th], m\<lparr>write_waiters := ws, rw_count := -1\<rparr>))
         else ([], m))"

text \<open>
  Threads using a read-write mutex in any order. \<open>readers\<close> and \<open>writers\<close> are the threads
  that have been granted the mutex and have not released it; a thread asks only when it
  neither holds the mutex nor waits for it, and releases only what it holds.
\<close>

record rw_sys =
  rwm :: rwmutex
  readers :: "tid list"
  writers :: "tid list"

definition rw_involved :: "rw_sys \<Rightarrow> tid list" where
  "rw_involved s = readers s @ writers s @ read_waiters (rwm s) @ write_waiters (rwm s)"

inductive rw_step :: "rw_sys \<Rightarrow> rw_sys \<Rightarrow> bool" where
  rd_go: "t \<notin> set (rw_involved s) \<Longrightarrow> rwmutex_rdlock t (rwm s) = (Runs, m) \<Longrightarrow>
    rw_step s (s\<lparr>rwm := m, readers := readers s @ [t]\<rparr>)"
| rd_park: "t \<notin> set (rw_involved s) \<Longrightarrow> rwmutex_rdlock t (rwm s) = (Parks, m) \<Longrightarrow>
    rw_step s (s\<lparr>rwm := m\<rparr>)"
| rd_try: "t \<notin> set (rw_involved s) \<Longrightarrow> rwmutex_try_rdlock (rwm s) = (ok, m) \<Longrightarrow>
    rw_step s (s\<lparr>rwm := m, readers := (if ok then readers s @ [t] else readers s)\<rparr>)"
| wr_go: "t \<notin> set (rw_involved s) \<Longrightarrow> rwmutex_wrlock t (rwm s) = (Runs, m) \<Longrightarrow>
    rw_step s (s\<lparr>rwm := m, writers := writers s @ [t]\<rparr>)"
| wr_park: "t \<notin> set (rw_involved s) \<Longrightarrow> rwmutex_wrlock t (rwm s) = (Parks, m) \<Longrightarrow>
    rw_step s (s\<lparr>rwm := m\<rparr>)"
| wr_try: "t \<notin> set (rw_involved s) \<Longrightarrow> rwmutex_try_wrlock (rwm s) = (ok, m) \<Longrightarrow>
    rw_step s (s\<lparr>rwm := m, writers := (if ok then writers s @ [t] else writers s)\<rparr>)"
| rw_release: "t \<in> set (readers s) \<union> set (writers s) \<Longrightarrow> rwmutex_unlock (rwm s) = (ths, m) \<Longrightarrow>
    rw_step s (s\<lparr>rwm := m,
      readers := remove1 t (readers s) @ filter (\<lambda>th. th \<in> set (read_waiters (rwm s))) ths,
      writers := remove1 t (writers s) @ filter (\<lambda>th. th \<in> set (write_waiters (rwm s))) ths\<rparr>)"

definition rw_inv :: "rw_sys \<Rightarrow> bool" where
  "rw_inv s \<longleftrightarrow>
     distinct (rw_involved s) \<and> length (writers s) \<le> 1 \<and> (writers s \<noteq> [] \<longrightarrow> readers s = []) \<and>
     rw_count (rwm s) = (if writers s \<noteq> [] then -1 else int (length (readers s))) \<and>
     read_waiter_count (rwm s) = int (length (read_waiters (rwm s))) \<and>
     (read_waiters (rwm s) \<noteq> [] \<longrightarrow> writers s \<noteq> []) \<and>
     (write_waiters (rwm s) \<noteq> [] \<longrightarrow> readers s \<noteq> [] \<or> writers s \<noteq> [])"

lemmas rw_ops = rwmutex_rdlock_def rwmutex_try_rdlock_def rwmutex_wrlock_def rwmutex_try_wrlock_def

lemma rw_count_ge0: "rw_inv s \<Longrightarrow> rw_count (rwm s) \<ge> 0 \<longleftrightarrow> writers s = []"
  by (auto simp: rw_inv_def)

lemma rw_count_eq0: "rw_inv s \<Longrightarrow> rw_count (rwm s) = 0 \<longleftrightarrow> writers s = [] \<and> readers s = []"
  by (auto simp: rw_inv_def)

lemma rw_release_writer:
  assumes inv: "rw_inv s" and t: "t \<in> set (writers s)" and u: "rwmutex_unlock (rwm s) = (ths, m)"
  shows "rw_inv (s\<lparr>rwm := m,
      readers := remove1 t (readers s) @ filter (\<lambda>th. th \<in> set (read_waiters (rwm s))) ths,
      writers := remove1 t (writers s) @ filter (\<lambda>th. th \<in> set (write_waiters (rwm s))) ths\<rparr>)"
proof -
  have w: "writers s = [t]" "readers s = []" using inv t
    by (cases "writers s"; auto simp: rw_inv_def)+
  have c: "rw_count (rwm s) = -1" using inv w by (simp add: rw_inv_def)
  show ?thesis
  proof (cases "read_waiters (rwm s)")
    case Nil
    then have "read_waiter_count (rwm s) = 0" using inv by (simp add: rw_inv_def)
    with u w c inv Nil show ?thesis
      by (cases "write_waiters (rwm s)") (auto simp: rwmutex_unlock_def rw_inv_def rw_involved_def)
  next
    case (Cons r rs)
    have d: "distinct (read_waiters (rwm s) @ write_waiters (rwm s))"
      using inv by (auto simp: rw_inv_def rw_involved_def)
    then have f: "filter (\<lambda>th. th \<in> set (write_waiters (rwm s))) (read_waiters (rwm s)) = []"
      by (auto simp: filter_empty_conv)
    have "read_waiter_count (rwm s) = int (length (read_waiters (rwm s)))" using inv by (simp add: rw_inv_def)
    then have "ths = read_waiters (rwm s)"
      "m = (rwm s)\<lparr>rw_count := read_waiter_count (rwm s), read_waiter_count := 0, read_waiters := []\<rparr>"
      using u c Cons by (auto simp: rwmutex_unlock_def)
    with w d f inv Cons show ?thesis by (simp add: rw_inv_def rw_involved_def)
  qed
qed

lemma rw_release_reader:
  assumes inv: "rw_inv s" and t: "t \<in> set (readers s)" and u: "rwmutex_unlock (rwm s) = (ths, m)"
  shows "rw_inv (s\<lparr>rwm := m,
      readers := remove1 t (readers s) @ filter (\<lambda>th. th \<in> set (read_waiters (rwm s))) ths,
      writers := remove1 t (writers s) @ filter (\<lambda>th. th \<in> set (write_waiters (rwm s))) ths\<rparr>)"
proof -
  have w: "writers s = []" "read_waiters (rwm s) = []" "read_waiter_count (rwm s) = 0"
    "rw_count (rwm s) = int (length (readers s))"
    using inv t by (auto simp: rw_inv_def)
  obtain n where n: "length (readers s) = Suc n" using t by (cases "readers s") auto
  have d: "distinct (remove1 t (readers s))" "set (remove1 t (readers s)) \<subseteq> set (readers s)"
    using inv set_remove1_subset by (auto simp: rw_inv_def rw_involved_def distinct_remove1)
  show ?thesis
  proof (cases "n = 0")
    case True
    then have "readers s = [t]" using t n by (cases "readers s") auto
    with u w inv True n show ?thesis
      by (cases "write_waiters (rwm s)") (auto simp: rwmutex_unlock_def rw_inv_def rw_involved_def)
  next
    case False
    then have "ths = []" "m = (rwm s)\<lparr>rw_count := int n\<rparr>" using u w n by (auto simp: rwmutex_unlock_def Let_def)
    moreover have "length (remove1 t (readers s)) = n" using n t by (simp add: length_remove1)
    ultimately show ?thesis using w inv d False
      by (auto simp: rw_inv_def rw_involved_def)
  qed
qed

lemma rw_step_inv:
  assumes "rw_step s s'" and "rw_inv s" shows "rw_inv s'"
  using assms
proof (induction rule: rw_step.induct)
  case (rw_release t s ths m)
  then show ?case using rw_release_writer rw_release_reader by (auto simp del: Un_iff dest!: UnE)
qed (auto simp: rw_inv_def rw_involved_def rw_ops split: if_splits)

definition rw_sys_init :: rw_sys where
  "rw_sys_init = \<lparr>rwm = rwmutex_init, readers = [], writers = []\<rparr>"

lemma rw_reach_inv:
  assumes "rw_step\<^sup>*\<^sup>* rw_sys_init s" shows "rw_inv s"
  using assms
proof (induction rule: rtranclp_induct)
  case base
  show ?case by (simp add: rw_sys_init_def rwmutex_init_def rw_inv_def rw_involved_def)
qed (auto intro: rw_step_inv)

subsection \<open>Condition variables\<close>

text \<open>
  The waiters of a condition variable, and the two flags of each timed wait that outlive
  the critical section: whether its timer is armed and whether it has timed out.
\<close>

record condvar =
  cv_waiters :: "tid list"
  cv_timer :: "tid \<Rightarrow> bool"
  cv_timed_out :: "tid \<Rightarrow> bool"

definition condvar_init :: condvar where
  "condvar_init = \<lparr>cv_waiters = [], cv_timer = \<lambda>t. False, cv_timed_out = \<lambda>t. False\<rparr>"

text \<open>
  \<open>condvar_wait\<close> up to the point where the caller parks, in its critical section: it
  releases the mutex and queues itself. When it runs again it takes the mutex.
\<close>

definition condvar_wait :: "tid \<Rightarrow> condvar \<times> mutex_sys \<Rightarrow> condvar \<times> mutex_sys" where
  "condvar_wait self s =
     (case s of (cv, m) \<Rightarrow>
        let m = mutex_unlock self m in (cv\<lparr>cv_waiters := cv_waiters cv @ [self]\<rparr>, m))"

definition condvar_signal :: "condvar \<Rightarrow> tid list \<times> condvar" where
  "condvar_signal cv =
     (case cv_waiters cv of [] \<Rightarrow> ([], cv) | w # ws \<Rightarrow> ([w], cv\<lparr>cv_waiters := ws\<rparr>))"

definition condvar_broadcast :: "condvar \<Rightarrow> tid list \<times> condvar" where
  "condvar_broadcast cv = (cv_waiters cv, cv\<lparr>cv_waiters := []\<rparr>)"

text \<open>
  A timed wait: the caller arms its timer before it enters the critical section; in
  the critical section it gives up if the timer has timed out, and queues itself
  otherwise. The handler removes the thread from the queue if it finds it there.
\<close>

definition condvar_timed_arm :: "tid \<Rightarrow> condvar \<Rightarrow> condvar" where
  "condvar_timed_arm self cv =
     cv\<lparr>cv_timer := (cv_timer cv)(self := True), cv_timed_out := (cv_timed_out cv)(self := False)\<rparr>"

definition condvar_timed_enter ::
  "tid \<Rightarrow> condvar \<times> mutex_sys \<Rightarrow> wait_result \<times> condvar \<times> mutex_sys" where
  "condvar_timed_enter self s =
     (case s of (cv, m) \<Rightarrow>
        if cv_timed_out cv self then (Runs, cv, m)
        else let m = mutex_unlock self m in (Parks, cv\<lparr>cv_waiters := cv_waiters cv @ [self]\<rparr>, m))"

definition condvar_timeout :: "tid \<Rightarrow> condvar \<Rightarrow> tid list \<times> condvar" where
  "condvar_timeout th cv =
     (let cv = cv\<lparr>cv_timer := (cv_timer cv)(th := False)\<rparr>
      in if th \<in> set (cv_waiters cv)
         then ([th], cv\<lparr>cv_waiters := remove1 th (cv_waiters cv),
                        cv_timed_out := (cv_timed_out cv)(th := True)\<rparr>)
         else ([], cv))"

text \<open>After the wait: the timer is cancelled if it has not fired, the result is \<open>!timed_out\<close>.\<close>

definition condvar_timed_leave :: "tid \<Rightarrow> condvar \<Rightarrow> bool \<times> condvar" where
  "condvar_timed_leave self cv =
     (\<not> cv_timed_out cv self,
      if cv_timed_out cv self then cv else cv\<lparr>cv_timer := (cv_timer cv)(self := False)\<rparr>)"

datatype cv_op = Cv_wait tid | Cv_signal | Cv_broadcast

text \<open>Waits, signals and broadcasts in any order: who was woken, in order, and who still waits.\<close>

fun cv_run :: "cv_op list \<Rightarrow> condvar \<times> mutex_sys \<Rightarrow> tid list \<times> condvar \<times> mutex_sys" where
  "cv_run [] s = ([], s)"
| "cv_run (Cv_wait t # ops) s = cv_run ops (condvar_wait t s)"
| "cv_run (Cv_signal # ops) s =
     (let (ready, cv) = condvar_signal (fst s); (woken, s') = cv_run ops (cv, snd s) in (ready @ woken, s'))"
| "cv_run (Cv_broadcast # ops) s =
     (let (ready, cv) = condvar_broadcast (fst s); (woken, s') = cv_run ops (cv, snd s) in (ready @ woken, s'))"

fun cv_waited :: "cv_op list \<Rightarrow> tid list" where
  "cv_waited (Cv_wait t # ops) = t # cv_waited ops"
| "cv_waited (_ # ops) = cv_waited ops"
| "cv_waited [] = []"

lemma cv_run_order:
  "cv_run ops s = (woken, s') \<Longrightarrow> cv_waiters (fst s) @ cv_waited ops = woken @ cv_waiters (fst s')"
proof (induction ops s arbitrary: woken rule: cv_run.induct)
  case (2 t ops s)
  then show ?case by (auto simp: condvar_wait_def Let_def split: prod.splits)
next
  case (3 ops s)
  then show ?case by (auto simp: condvar_signal_def Let_def split: prod.splits list.splits)
next
  case (4 ops s)
  then show ?case by (auto simp: condvar_broadcast_def Let_def split: prod.splits)
qed simp

subsection \<open>Wait groups\<close>

record waitgroup =
  wg_cnt :: int
  wg_waiters :: "tid list"

definition waitgroup_init :: waitgroup where
  "waitgroup_init = \<lparr>wg_cnt = 0, wg_waiters = []\<rparr>"

definition waitgroup_add :: "int \<Rightarrow> waitgroup \<Rightarrow> (tid list \<times> waitgroup) exec" where
  "waitgroup_add cnt wg =
     (let wg = wg\<lparr>wg_cnt := wg_cnt wg + cnt\<rparr>
      in if wg_cnt wg < 0 then Inl Bug_on
         else if wg_cnt wg = 0 then Inr (wg_waiters wg, wg\<lparr>wg_waiters := []\<rparr>)
         else Inr ([], wg))"

definition waitgroup_done :: "waitgroup \<Rightarrow> (tid list \<times> waitgroup) exec" where
  "waitgroup_done wg = waitgroup_add (-1) wg"

definition waitgroup_wait :: "tid \<Rightarrow> waitgroup \<Rightarrow> wait_result \<times> waitgroup" where
  "waitgroup_wait self wg =
     (if wg_cnt wg = 0 then (Runs, wg) else (Parks, wg\<lparr>wg_waiters := wg_waiters wg @ [self]\<rparr>))"

datatype wg_op = Wg_add int | Wg_wait tid

text \<open>A run of operations: who was woken, who parked, and the final state.\<close>

fun wg_run :: "wg_op list \<Rightarrow> waitgroup \<Rightarrow> (tid list \<times> tid list \<times> waitgroup) exec" where
  "wg_run [] wg = Inr ([], [], wg)"
| "wg_run (Wg_add c # ops) wg =
     bind_exec (waitgroup_add c wg) (\<lambda>(ready, wg').
       bind_exec (wg_run ops wg') (\<lambda>(woken, parked, wg''). Inr (ready @ woken, parked, wg'')))"
| "wg_run (Wg_wait t # ops) wg =
     (case waitgroup_wait t wg of (r, wg') \<Rightarrow>
        bind_exec (wg_run ops wg') (\<lambda>(woken, parked, wg'').
          Inr (woken, if r = Parks then t # parked else parked, wg'')))"

fun wg_sum :: "wg_op list \<Rightarrow> int" where
  "wg_sum [] = 0"
| "wg_sum (Wg_add c # ops) = c + wg_sum ops"
| "wg_sum (Wg_wait t # ops) = wg_sum ops"

lemma wg_run_ok:
  assumes "wg_run ops wg = Inr (woken, parked, wg')" and "wg_cnt wg = 0 \<longrightarrow> wg_waiters wg = []"
  shows "wg_cnt wg' = wg_cnt wg + wg_sum ops \<and> (wg_cnt wg' = 0 \<longrightarrow> wg_waiters wg' = []) \<and>
    wg_waiters wg @ parked = woken @ wg_waiters wg'"
  using assms
proof (induction ops wg arbitrary: woken parked rule: wg_run.induct)
  case (2 c ops wg)
  then obtain ready wg1 w1 where add: "waitgroup_add c wg = Inr (ready, wg1)"
    and run: "wg_run ops wg1 = Inr (w1, parked, wg')" and woken: "woken = ready @ w1"
    by (auto simp: bind_exec_eq_Inr)
  have "wg_cnt wg1 = wg_cnt wg + c" "wg_cnt wg1 = 0 \<longrightarrow> wg_waiters wg1 = []"
    "wg_waiters wg = ready @ wg_waiters wg1"
    using add by (auto simp: waitgroup_add_def Let_def split: if_splits)
  with "2.IH" [OF run] woken show ?case by simp
next
  case (3 t ops wg)
  then obtain r wg1 p1 where wt: "waitgroup_wait t wg = (r, wg1)"
    and run: "wg_run ops wg1 = Inr (woken, p1, wg')" and p: "parked = (if r = Parks then t # p1 else p1)"
    by (auto simp: bind_exec_eq_Inr split: prod.splits)
  have "wg_cnt wg1 = wg_cnt wg" "wg_cnt wg1 = 0 \<longrightarrow> wg_waiters wg1 = []"
    "wg_waiters wg1 = wg_waiters wg @ (if r = Parks then [t] else [])"
    using wt "3.prems"(2) by (auto simp: waitgroup_wait_def split: if_splits)
  with "3.IH" [OF wt [symmetric] run] p show ?case by auto
qed auto

subsection \<open>Barriers\<close>

record barrier =
  b_waiting :: int
  b_count :: int
  b_waiters :: "tid list"

definition barrier_init :: "int \<Rightarrow> barrier" where
  "barrier_init cnt = \<lparr>b_waiting = 0, b_count = cnt, b_waiters = []\<rparr>"

definition barrier_wait :: "tid \<Rightarrow> barrier \<Rightarrow> wait_result \<times> tid list \<times> barrier" where
  "barrier_wait self b =
     (let b = b\<lparr>b_waiting := b_waiting b + 1\<rparr>
      in if b_waiting b \<ge> b_count b then (Runs, b_waiters b, b\<lparr>b_waiters := [], b_waiting := 0\<rparr>)
         else (Parks, [], b\<lparr>b_waiters := b_waiters b @ [self]\<rparr>))"

text \<open>Threads arriving one after the other; each release gives the threads that go on together.\<close>

fun barrier_run :: "tid list \<Rightarrow> barrier \<Rightarrow> tid list list \<times> barrier" where
  "barrier_run [] b = ([], b)"
| "barrier_run (t # ts) b =
     (case barrier_wait t b of (r, ready, b') \<Rightarrow>
        (case barrier_run ts b' of (rs, b'') \<Rightarrow> (if r = Runs then (ready @ [t]) # rs else rs, b'')))"

function chunks :: "nat \<Rightarrow> 'a list \<Rightarrow> 'a list list" where
  "chunks c xs = (if 0 < c \<and> c \<le> length xs then take c xs # chunks c (drop c xs) else [])"
  by pat_completeness auto
termination by (relation "measure (\<lambda>(c, xs). length xs)") auto

declare chunks.simps [simp del]

lemma barrier_run_append:
  "barrier_run (xs @ ys) b =
     (let (rs, b1) = barrier_run xs b; (rs', b2) = barrier_run ys b1 in (rs @ rs', b2))"
  by (induction xs arbitrary: b) (auto simp: Let_def split: prod.splits)

lemma barrier_run_fill:
  assumes "b = \<lparr>b_waiting = int (length ws), b_count = int c, b_waiters = ws\<rparr>"
    and "length ws + length ts < c"
  shows "barrier_run ts b =
    ([], \<lparr>b_waiting = int (length (ws @ ts)), b_count = int c, b_waiters = ws @ ts\<rparr>)"
  using assms
proof (induction ts arbitrary: b ws)
  case (Cons t ts)
  have step: "barrier_wait t b =
      (Parks, [], \<lparr>b_waiting = int (length (ws @ [t])), b_count = int c, b_waiters = ws @ [t]\<rparr>)"
    using Cons.prems by (simp add: barrier_wait_def Let_def)
  show ?case using Cons.IH [OF refl, of "ws @ [t]"] Cons.prems(2) by (simp add: step)
qed simp

lemma barrier_run_chunk:
  assumes "length ts = c" and "0 < c"
  shows "barrier_run ts (barrier_init (int c)) = ([ts], barrier_init (int c))"
proof -
  obtain us t where ts: "ts = us @ [t]" using assms by (cases ts rule: rev_cases) auto
  have "barrier_run us (barrier_init (int c)) =
      ([], \<lparr>b_waiting = int (length us), b_count = int c, b_waiters = us\<rparr>)"
    using barrier_run_fill [of _ "[]" c us] assms ts by (simp add: barrier_init_def)
  then show ?thesis using assms ts
    by (simp add: barrier_run_append barrier_wait_def Let_def barrier_init_def)
qed

lemma barrier_run_chunks:
  assumes "0 < c"
  shows "barrier_run ts (barrier_init (int c)) =
    (chunks c ts, \<lparr>b_waiting = int (length ts mod c), b_count = int c,
                  b_waiters = drop (length ts div c * c) ts\<rparr>)"
  using assms
proof (induction c ts rule: chunks.induct)
  case (1 c ts)
  show ?case
  proof (cases "c \<le> length ts")
    case True
    have "barrier_run ts (barrier_init (int c)) = barrier_run (take c ts @ drop c ts) (barrier_init (int c))"
      by simp
    also have "\<dots> = (take c ts # chunks c (drop c ts),
        \<lparr>b_waiting = int ((length ts - c) mod c), b_count = int c,
         b_waiters = drop ((length ts - c) div c * c) (drop c ts)\<rparr>)"
      unfolding barrier_run_append using barrier_run_chunk [of "take c ts" c] 1 True by simp
    also have "(length ts - c) mod c = length ts mod c" using True by (simp add: le_mod_geq)
    also have "drop ((length ts - c) div c * c) (drop c ts) = drop (length ts div c * c) ts"
      using True "1.prems" by (simp add: le_div_geq add.commute)
    also have "take c ts # chunks c (drop c ts) = chunks c ts"
      using True "1.prems" by (subst (2) chunks.simps) simp
    finally show ?thesis .
  next
    case False
    then have "chunks c ts = []" by (simp add: chunks.simps)
    with False show ?thesis using barrier_run_fill [of _ "[]" c ts] by (simp add: barrier_init_def)
  qed
qed

subsection \<open>What these primitives guarantee\<close>

text \<open>
  C19. A read-write mutex never has a writer together with another holder, its count is
  the number of readers or \<open>-1\<close>, a thread that waits does so only while somebody holds
  the mutex (readers only while a writer does), and nobody is both waiting and holding:
  no release ever leaves a thread behind in the queues of a free mutex.
\<close>

theorem rwmutex_exclusion:
  assumes "rw_step\<^sup>*\<^sup>* rw_sys_init s"
  shows "(writers s = [] \<or> (\<exists>w. writers s = [w] \<and> readers s = [])) \<and>
    rw_count (rwm s) = (if writers s = [] then int (length (readers s)) else - 1) \<and>
    (rwmutex_held (rwm s) \<longleftrightarrow> readers s \<noteq> [] \<or> writers s \<noteq> []) \<and>
    (read_waiters (rwm s) \<noteq> [] \<longrightarrow> writers s \<noteq> []) \<and>
    (write_waiters (rwm s) \<noteq> [] \<longrightarrow> rwmutex_held (rwm s)) \<and> distinct (rw_involved s)"
proof -
  have inv: "rw_inv s" by (rule rw_reach_inv [OF assms])
  then have "writers s = [] \<or> (\<exists>w. writers s = [w] \<and> readers s = [])"
    by (cases "writers s") (auto simp: rw_inv_def)
  with inv show ?thesis by (auto simp: rw_inv_def rwmutex_held_def)
qed

theorem rwmutex_exclusion_witness:
  "\<exists>s. rw_step\<^sup>*\<^sup>* rw_sys_init s \<and> writers s = [1] \<and> write_waiters (rwm s) = [2] \<and> readers s = []"
proof -
  let ?s1 = "rw_sys_init\<lparr>rwm := rwmutex_init\<lparr>rw_count := -1\<rparr>, writers := [1]\<rparr>"
  let ?s2 = "?s1\<lparr>rwm := rwmutex_init\<lparr>rw_count := -1, write_waiters := [2]\<rparr>\<rparr>"
  note ev = rw_sys_init_def rwmutex_init_def rwmutex_wrlock_def rw_involved_def
  have 1: "rw_step rw_sys_init ?s1"
    using wr_go [of 1 rw_sys_init "rwmutex_init\<lparr>rw_count := -1\<rparr>"] by (simp add: ev)
  have 2: "rw_step ?s1 ?s2"
    using wr_park [of 2 ?s1 "rwmutex_init\<lparr>rw_count := -1, write_waiters := [2]\<rparr>"] by (simp add: ev)
  from 1 2 have r: "rw_step\<^sup>*\<^sup>* rw_sys_init ?s2"
    by (blast intro: converse_rtranclp_into_rtranclp r_into_rtranclp)
  have "readers ?s2 = []" using rwmutex_exclusion [OF r] by auto
  with r show ?thesis by (intro exI [of _ ?s2]) simp
qed





text \<open>
  C22. Barriers: threads arriving at a barrier for \<open>c\<close> threads are released in the groups
  of \<open>c\<close> consecutive arrivals, the last of which does not park; the arrivals of an
  incomplete group wait.
\<close>

theorem barrier_releases_groups:
  assumes "0 < c"
  shows "barrier_run ts (barrier_init (int c)) =
    (chunks c ts, \<lparr>b_waiting = int (length ts mod c), b_count = int c,
                  b_waiters = drop (length ts div c * c) ts\<rparr>)"
  using assms by (rule barrier_run_chunks)

theorem barrier_releases_groups_witness:
  "fst (barrier_run [1, 2, 3, 4, 5] (barrier_init 2)) = [[1, 2], [3, 4]] \<and>
   b_waiters (snd (barrier_run [1, 2, 3, 4, 5] (barrier_init 2))) = [5]"
  using barrier_releases_groups [of 2 "[1, 2, 3, 4, 5]"] by (simp add: chunks.simps)

text \<open>
  Condition variables wake waiters first come, first served: over any sequence of
  waits, signals and broadcasts, the threads woken followed by those still waiting are
  the threads that waited, in the order of their waits.
\<close>

theorem condvar_fifo:
  assumes "cv_run ops (condvar_init, m) = (woken, cv, m')"
  shows "cv_waited ops = woken @ cv_waiters cv"
  using cv_run_order [OF assms] by (simp add: condvar_init_def)

theorem condvar_fifo_witness:
  "\<exists>woken cv m'. cv_run [Cv_wait 1, Cv_wait 2, Cv_signal] (condvar_init, mutex_init (\<lambda>t. M_idle)) = (woken, cv, m')
     \<and> [1, 2] = woken @ cv_waiters cv"
proof -
  let ?ops = "[Cv_wait 1, Cv_wait 2, Cv_signal]"
  obtain woken cv m' where run: "cv_run ?ops (condvar_init, mutex_init (\<lambda>t. M_idle)) = (woken, cv, m')"
    by (metis prod_cases3)
  from condvar_fifo [OF run] run show ?thesis by auto
qed

text \<open>
  C23. A timeout can be lost: if the timer of a timed wait fires after it was armed and
  before the thread has queued itself, the handler finds no one to wake and does not mark
  the wait as timed out; the thread then parks with no timer armed, and only a signal can
  wake it.
\<close>

theorem condvar_timeout_lost:
  assumes "self \<notin> set (cv_waiters cv)"
  defines "cv1 \<equiv> snd (condvar_timeout self (condvar_timed_arm self cv))"
  shows "fst (condvar_timeout self (condvar_timed_arm self cv)) = [] \<and>
    fst (condvar_timed_enter self (cv1, m)) = Parks \<and>
    (let cv2 = fst (snd (condvar_timed_enter self (cv1, m)))
     in self \<in> set (cv_waiters cv2) \<and> \<not> cv_timer cv2 self \<and> \<not> cv_timed_out cv2 self)"
  using assms
  by (simp add: condvar_timeout_def condvar_timed_arm_def condvar_timed_enter_def Let_def)

theorem condvar_timeout_lost_witness:
  "fst (condvar_timed_enter 1 (snd (condvar_timeout 1 (condvar_timed_arm 1 condvar_init)),
     mutex_init (\<lambda>t. M_idle))) = Parks"
  using condvar_timeout_lost [of 1 condvar_init "mutex_init (\<lambda>t. M_idle)"]
  by (simp add: condvar_init_def)

end
