(* ===== verification/Runq.thy ===== *)
theory Runq
  imports Stddef
begin

text \<open>
  The run queues of a kthread (\<open>runtime/sched.c\<close>): a ring of \<open>RUNTIME_RQ_SIZE\<close> threads with
  free-running 32-bit head and tail counters, and an overflow list behind it. The kthread
  has two of them, one for ready threads and one for preempted threads, with the same
  code for both. This theory models the accesses to one such queue and shows that it is
  a first-in first-out queue that can also be pushed at its front: the ring followed by
  the overflow list.
\<close>

record runq =
  ring :: "tid list"
  rq_head :: u32
  rq_tail :: u32
  rq_overflow :: "tid list"

definition RUNTIME_RQ_SIZE :: u32 where
  "RUNTIME_RQ_SIZE = 32"

definition rq_slot :: "u32 \<Rightarrow> nat" where
  "rq_slot pos = unat (pos mod RUNTIME_RQ_SIZE)"

subsection \<open>The accesses\<close>

text \<open>\<open>l->rq[l->rq_head++ % RUNTIME_RQ_SIZE] = th\<close>\<close>

definition rq_push :: "tid \<Rightarrow> runq \<Rightarrow> runq" where
  "rq_push th q = q\<lparr>ring := (ring q)[rq_slot (rq_head q) := th], rq_head := rq_head q + 1\<rparr>"

text \<open>\<open>th = l->rq[l->rq_tail++ % RUNTIME_RQ_SIZE]\<close>\<close>

definition rq_pop :: "runq \<Rightarrow> tid \<times> runq" where
  "rq_pop q = (ring q ! rq_slot (rq_tail q), q\<lparr>rq_tail := rq_tail q + 1\<rparr>)"

text \<open>The loop of \<open>drain_overflow\<close>.\<close>

function rq_drain_overflow :: "runq \<Rightarrow> runq" where
  "rq_drain_overflow q =
     (if rq_head q - rq_tail q < RUNTIME_RQ_SIZE
      then case rq_overflow q of
             [] \<Rightarrow> q
           | th # ovf \<Rightarrow> rq_drain_overflow (rq_push th (q\<lparr>rq_overflow := ovf\<rparr>))
      else q)"
  by pat_completeness auto
termination by (relation "measure (\<lambda>q. length (rq_overflow q))") (auto simp: rq_push_def)

declare rq_drain_overflow.simps [simp del]

text \<open>
  The insertion at the front in \<open>thread_ready_head\<close>: when the ring is full, the slot below
  the tail is the one of the newest thread, which moves to the front of the overflow list.
\<close>

definition rq_push_front :: "tid \<Rightarrow> runq \<Rightarrow> runq" where
  "rq_push_front th q =
     (let t = rq_tail q - 1;
          oldestth = ring q ! rq_slot t;
          q = q\<lparr>rq_tail := t, ring := (ring q)[rq_slot t := th]\<rparr>
      in if rq_head q - rq_tail q > RUNTIME_RQ_SIZE
         then q\<lparr>rq_overflow := oldestth # rq_overflow q, rq_head := rq_head q - 1\<rparr>
         else q)"

text \<open>
  The loop of \<open>drain_threads\<close> with its local copy \<open>tail\<close>: the threads taken, the final
  tail and the queue with what was popped from the overflow list gone.
\<close>

fun rq_take :: "nat \<Rightarrow> u32 \<Rightarrow> runq \<Rightarrow> tid list \<times> u32 \<times> runq" where
  "rq_take 0 tail q = ([], tail, q)"
| "rq_take (Suc n) tail q =
     (if wraps_lt tail (rq_head q)
      then let (ths, t, q') = rq_take n (tail + 1) q in (ring q ! rq_slot tail # ths, t, q')
      else case rq_overflow q of
             [] \<Rightarrow> ([], tail, q)
           | th # ovf \<Rightarrow>
               let (ths, t, q') = rq_take n tail (q\<lparr>rq_overflow := ovf\<rparr>) in (th # ths, t, q'))"

text \<open>One insertion of the merge loop, and the insertion of a whole list.\<close>

definition rq_insert :: "tid \<Rightarrow> runq \<Rightarrow> runq" where
  "rq_insert th q =
     (if rq_head q - rq_tail q \<ge> RUNTIME_RQ_SIZE then q\<lparr>rq_overflow := rq_overflow q @ [th]\<rparr>
      else rq_push th q)"

fun rq_insert_all :: "tid list \<Rightarrow> runq \<Rightarrow> runq" where
  "rq_insert_all [] q = q"
| "rq_insert_all (th # ths) q = rq_insert_all ths (rq_insert th q)"

subsection \<open>The queue they implement\<close>

definition rq_len :: "runq \<Rightarrow> nat" where
  "rq_len q = unat (rq_head q - rq_tail q)"

definition rq_ok :: "runq \<Rightarrow> bool" where
  "rq_ok q \<longleftrightarrow> length (ring q) = 32 \<and> rq_len q \<le> 32"

definition rq_window :: "runq \<Rightarrow> tid list" where
  "rq_window q = map (\<lambda>i. ring q ! rq_slot (rq_tail q + of_nat i)) [0..<rq_len q]"

definition rq_elems :: "runq \<Rightarrow> tid list" where
  "rq_elems q = rq_window q @ rq_overflow q"

lemma rq_slot_eq: "rq_slot pos = unat pos mod 32"
  by (simp add: rq_slot_def RUNTIME_RQ_SIZE_def unat_mod)

lemma rq_slot_lt [simp]: "rq_slot pos < 32"
  by (simp add: rq_slot_eq)

lemma rq_slot_plus: "i < 2 ^ 32 \<Longrightarrow> rq_slot (pos + of_nat i) = (unat pos + i) mod 32"
  using unat_plus_mod_2k [of 5 pos "of_nat i"] by (simp add: rq_slot_eq unat_of_nat)

lemma rq_slot_inj:
  assumes "i < 32" and "j < 32" and "rq_slot (pos + of_nat i) = rq_slot (pos + of_nat j)"
  shows "i = j"
proof -
  have "(unat pos + i) mod 32 = (unat pos + j) mod 32" using assms by (simp add: rq_slot_plus)
  then have "i mod 32 = j mod 32" by (simp add: nat_mod_eq_iff)
  with assms show ?thesis by simp
qed

lemma rq_len_full: "rq_head q - rq_tail q \<ge> RUNTIME_RQ_SIZE \<longleftrightarrow> 32 \<le> rq_len q"
  "rq_head q - rq_tail q < RUNTIME_RQ_SIZE \<longleftrightarrow> rq_len q < 32"
  by (auto simp: rq_len_def RUNTIME_RQ_SIZE_def word_le_nat_alt word_less_nat_alt)

lemma rq_head_eq: "rq_head q = rq_tail q + of_nat (rq_len q)"
proof -
  have "of_nat (unat (rq_head q - rq_tail q)) = rq_head q - rq_tail q" by (simp only: of_nat_unat ucast_id)
  then show ?thesis by (simp add: rq_len_def)
qed

lemma rq_nonempty: "rq_head q \<noteq> rq_tail q \<longleftrightarrow> 0 < rq_len q"
  by (simp add: rq_len_def unat_gt_0)

lemma unat_Suc_small: "unat (w :: u32) < 40 \<Longrightarrow> unat (w + 1) = Suc (unat w)"
  by (simp add: unat_word_ariths)

lemma rq_len_push: "rq_len q < 32 \<Longrightarrow> rq_len (rq_push th q) = Suc (rq_len q)"
  using unat_Suc_small [of "rq_head q - rq_tail q"] by (simp add: rq_len_def rq_push_def algebra_simps)

lemma rq_len_pop: "0 < rq_len q \<Longrightarrow> rq_len q = Suc (rq_len (snd (rq_pop q)))"
proof -
  assume "0 < rq_len q"
  then have "rq_head q - rq_tail q \<noteq> 0" by (auto simp: rq_len_def)
  from unat_minus_one [OF this] \<open>0 < rq_len q\<close> show ?thesis
    by (simp add: rq_len_def rq_pop_def algebra_simps)
qed

lemma rq_push_elems:
  assumes ok: "rq_ok q" and room: "rq_len q < 32"
  shows "rq_ok (rq_push th q)" and "rq_window (rq_push th q) = rq_window q @ [th]"
    and "rq_overflow (rq_push th q) = rq_overflow q"
proof -
  show "rq_ok (rq_push th q)" using ok room by (simp add: rq_ok_def rq_len_push) (simp add: rq_push_def)
  have at: "ring (rq_push th q) ! rq_slot (rq_tail q + of_nat i) =
      (if i = rq_len q then th else ring q ! rq_slot (rq_tail q + of_nat i))" if "i \<le> rq_len q" for i
    using rq_slot_inj [of i "rq_len q" "rq_tail q"] that room ok
    by (auto simp: rq_push_def rq_head_eq [of q] rq_ok_def nth_list_update)
  have "rq_tail (rq_push th q) = rq_tail q" by (simp add: rq_push_def)
  then show "rq_window (rq_push th q) = rq_window q @ [th]"
    using room by (simp add: rq_window_def rq_len_push at)
  show "rq_overflow (rq_push th q) = rq_overflow q" by (simp add: rq_push_def)
qed

lemma rq_pop_elems:
  assumes ok: "rq_ok q" and ne: "0 < rq_len q" and pop: "rq_pop q = (th, q')"
  shows "rq_ok q'" and "rq_elems q = th # rq_elems q'"
proof -
  have len: "rq_len q = Suc (rq_len q')" using rq_len_pop [OF ne] pop by simp
  then show "rq_ok q'" using ok pop by (auto simp: rq_ok_def rq_pop_def)
  have "rq_window q = th # rq_window q'"
    unfolding rq_window_def len using pop
    by (auto simp: rq_pop_def upt_conv_Cons map_Suc_upt [symmetric] add.assoc simp del: upt_Suc)
  then show "rq_elems q = th # rq_elems q'" using pop by (auto simp: rq_elems_def rq_pop_def)
qed

lemma rq_drain_overflow_elems:
  "rq_ok q \<Longrightarrow> rq_ok (rq_drain_overflow q) \<and> rq_elems (rq_drain_overflow q) = rq_elems q \<and>
     (rq_overflow (rq_drain_overflow q) = [] \<or> rq_len (rq_drain_overflow q) = 32)"
proof (induction q rule: rq_drain_overflow.induct)
  case (1 q)
  show ?case
  proof (cases "rq_len q < 32 \<and> rq_overflow q \<noteq> []")
    case True
    then obtain th ovf where o: "rq_overflow q = th # ovf" by (cases "rq_overflow q") auto
    let ?q = "q\<lparr>rq_overflow := ovf\<rparr>"
    have q: "rq_ok ?q" "rq_len ?q = rq_len q" "rq_window ?q = rq_window q"
      using 1 by (simp_all add: rq_ok_def rq_len_def rq_window_def)
    have push: "rq_ok (rq_push th ?q)" "rq_elems (rq_push th ?q) = rq_elems q"
      using rq_push_elems [of ?q th] q True o by (simp_all add: rq_elems_def)
    have "rq_drain_overflow q = rq_drain_overflow (rq_push th ?q)"
      using True o by (subst rq_drain_overflow.simps) (simp add: rq_len_full)
    moreover have "rq_ok (rq_push th ?q) \<Longrightarrow> rq_ok (rq_drain_overflow (rq_push th ?q)) \<and>
        rq_elems (rq_drain_overflow (rq_push th ?q)) = rq_elems (rq_push th ?q) \<and>
        (rq_overflow (rq_drain_overflow (rq_push th ?q)) = [] \<or>
         rq_len (rq_drain_overflow (rq_push th ?q)) = 32)"
      by (rule "1.IH") (use True o in \<open>simp_all add: rq_len_full\<close>)
    ultimately show ?thesis using push by simp
  next
    case False
    then have "rq_drain_overflow q = q"
      by (subst rq_drain_overflow.simps) (auto simp: rq_len_full split: list.splits)
    then show ?thesis using False 1 by (auto simp: rq_ok_def)
  qed
qed

lemma rq_push_front_elems:
  assumes ok: "rq_ok q"
  shows "rq_ok (rq_push_front th q)" and "rq_elems (rq_push_front th q) = th # rq_elems q"
proof -
  let ?t = "rq_tail q - 1" and ?n = "rq_len q"
  let ?r = "(ring q)[rq_slot (rq_tail q - 1) := th]"
  have n: "?n \<le> 32" "length (ring q) = 32" using ok by (simp_all add: rq_ok_def)
  have len1: "unat (rq_head q - ?t) = Suc ?n"
    using unat_Suc_small [of "rq_head q - rq_tail q"] n by (simp add: rq_len_def algebra_simps)
  have pos: "rq_tail q + of_nat i = ?t + of_nat (Suc i)" for i by simp
  have at: "?r ! rq_slot (?t + of_nat (Suc i)) = ring q ! rq_slot (rq_tail q + of_nat i)" if "Suc i < 32" for i
    using rq_slot_inj [of "Suc i" 0 ?t] that n unfolding pos by (auto simp: nth_list_update)
  have first: "?r ! rq_slot ?t = th" using n by simp
  have win: "map (\<lambda>i. ?r ! rq_slot (?t + of_nat i)) [0..<Suc m] =
      th # map (\<lambda>i. ring q ! rq_slot (rq_tail q + of_nat i)) [0..<m]" if "m < 32" for m
  proof -
    have "map (\<lambda>i. ?r ! rq_slot (?t + of_nat (Suc i))) [0..<m] =
        map (\<lambda>i. ring q ! rq_slot (rq_tail q + of_nat i)) [0..<m]"
      by (rule map_cong) (use that at in auto)
    then show ?thesis using first
      by (simp add: upt_conv_Cons map_Suc_upt [symmetric] comp_def del: upt_Suc of_nat_Suc)
  qed
  have full: "rq_head q - ?t > RUNTIME_RQ_SIZE \<longleftrightarrow> ?n = 32"
    using len1 n by (auto simp: RUNTIME_RQ_SIZE_def word_less_nat_alt)
  have "rq_ok (rq_push_front th q) \<and> rq_elems (rq_push_front th q) = th # rq_elems q"
  proof (cases "?n = 32")
    case True
    have same: "ring q ! rq_slot ?t = ring q ! rq_slot (rq_tail q + of_nat 31)"
      using rq_slot_plus [of 32 ?t] rq_slot_plus [of 0 ?t] by (simp add: algebra_simps)
    let ?q = "q\<lparr>rq_tail := ?t, ring := ?r, rq_overflow := ring q ! rq_slot ?t # rq_overflow q,
      rq_head := rq_head q - 1\<rparr>"
    have q: "rq_push_front th q = ?q" using True full by (simp add: rq_push_front_def Let_def)
    have len: "rq_len ?q = Suc 31" using True by (simp add: rq_len_def)
    have "rq_window ?q = th # map (\<lambda>i. ring q ! rq_slot (rq_tail q + of_nat i)) [0..<31]"
      unfolding rq_window_def len using win [of 31] by simp
    moreover have "rq_window q = map (\<lambda>i. ring q ! rq_slot (rq_tail q + of_nat i)) [0..<31] @
        [ring q ! rq_slot (rq_tail q + of_nat 31)]"
      unfolding rq_window_def True by (simp add: upt_rec)
    ultimately show ?thesis unfolding q using same len n by (simp add: rq_elems_def rq_ok_def)
  next
    case False
    let ?q = "q\<lparr>rq_tail := ?t, ring := ?r\<rparr>"
    have q: "rq_push_front th q = ?q" using False full by (simp add: rq_push_front_def Let_def)
    have len: "rq_len ?q = Suc ?n" using len1 by (simp add: rq_len_def)
    have "rq_window ?q = th # rq_window q"
      unfolding rq_window_def len using win [of ?n] False n by simp
    then show ?thesis unfolding q using len n False by (simp add: rq_elems_def rq_ok_def)
  qed
  then show "rq_ok (rq_push_front th q)" "rq_elems (rq_push_front th q) = th # rq_elems q" by blast+
qed

lemma rq_at_pop: "rq_pop (q\<lparr>rq_tail := t\<rparr>) = (ring q ! rq_slot t, q\<lparr>rq_tail := t + 1\<rparr>)"
  by (simp add: rq_pop_def)

lemma rq_wraps_nonempty: "rq_ok (q\<lparr>rq_tail := t\<rparr>) \<Longrightarrow> wraps_lt t (rq_head q) \<longleftrightarrow> 0 < rq_len (q\<lparr>rq_tail := t\<rparr>)"
  by (auto simp: wraps_lt_iff rq_ok_def rq_len_def)

lemma rq_take_elems:
  assumes "rq_ok (q\<lparr>rq_tail := tail\<rparr>)" and "rq_take n tail q = (ths, t, q')"
  shows "ths = take n (rq_elems (q\<lparr>rq_tail := tail\<rparr>)) \<and>
    rq_ok (q'\<lparr>rq_tail := t\<rparr>) \<and> rq_elems (q'\<lparr>rq_tail := t\<rparr>) = drop n (rq_elems (q\<lparr>rq_tail := tail\<rparr>)) \<and>
    rq_head q' = rq_head q \<and> ring q' = ring q \<and> rq_tail q' = rq_tail q"
  using assms
proof (induction n tail q arbitrary: ths t q' rule: rq_take.induct)
  case (2 n tail q)
  let ?q = "q\<lparr>rq_tail := tail\<rparr>"
  show ?case
  proof (cases "wraps_lt tail (rq_head q)")
    case True
    then have ne: "0 < rq_len ?q" using rq_wraps_nonempty [OF "2.prems"(1)] by simp
    obtain ths1 t1 q1 where rec: "rq_take n (tail + 1) q = (ths1, t1, q1)" by (metis prod_cases3)
    have r: "ths = ring q ! rq_slot tail # ths1" "t = t1" "q' = q1" using "2.prems"(2) True rec by auto
    note pop = rq_pop_elems [OF "2.prems"(1) ne rq_at_pop]
    from "2.IH"(1) [OF True pop(1) rec] show ?thesis using pop(2) r by simp
  next
    case False
    then have len: "rq_len ?q = 0" using rq_wraps_nonempty [OF "2.prems"(1)] by simp
    then have win: "rq_window ?q = []" by (simp add: rq_window_def)
    show ?thesis
    proof (cases "rq_overflow q")
      case Nil
      then show ?thesis using False "2.prems" win by (auto simp: rq_elems_def)
    next
      case (Cons th ovf)
      let ?q1 = "q\<lparr>rq_overflow := ovf\<rparr>"
      obtain ths1 t1 q1 where rec: "rq_take n tail ?q1 = (ths1, t1, q1)" by (metis prod_cases3)
      have r: "ths = th # ths1" "t = t1" "q' = q1" using "2.prems"(2) False rec Cons by auto
      have ok: "rq_ok (?q1\<lparr>rq_tail := tail\<rparr>)" and win1: "rq_window (?q1\<lparr>rq_tail := tail\<rparr>) = []"
        using "2.prems"(1) len by (simp_all add: rq_ok_def rq_len_def rq_window_def)
      from "2.IH"(2) [OF False Cons ok rec] show ?thesis
        using r win win1 Cons by (simp add: rq_elems_def)
    qed
  qed
qed auto

text \<open>The overflow list is used only behind a full ring.\<close>

definition rq_packed :: "runq \<Rightarrow> bool" where
  "rq_packed q \<longleftrightarrow> rq_overflow q = [] \<or> rq_len q = 32"

lemma rq_insert_elems:
  assumes "rq_ok q" and "rq_packed q"
  shows "rq_ok (rq_insert th q) \<and> rq_packed (rq_insert th q) \<and> rq_elems (rq_insert th q) = rq_elems q @ [th]"
proof (cases "32 \<le> rq_len q")
  case True
  then show ?thesis using assms
    by (auto simp: rq_insert_def rq_len_full rq_ok_def rq_packed_def rq_elems_def rq_len_def rq_window_def)
next
  case False
  then have "rq_overflow q = []" using assms by (auto simp: rq_packed_def)
  then show ?thesis using False assms rq_push_elems [of q th]
    by (simp add: rq_insert_def rq_len_full rq_packed_def rq_elems_def)
qed

lemma rq_insert_all_elems:
  "rq_ok q \<Longrightarrow> rq_packed q \<Longrightarrow>
     rq_ok (rq_insert_all ths q) \<and> rq_packed (rq_insert_all ths q) \<and>
     rq_elems (rq_insert_all ths q) = rq_elems q @ ths"
  by (induction ths q rule: rq_insert_all.induct) (simp_all add: rq_insert_elems)

end
