(* ===== verification/Sched.thy ===== *)
theory Sched
  imports Runq
begin

text \<open>
  The scheduler of user-level threads (\<open>runtime/sched.c\<close>) and the dispatch of softirqs
  (\<open>runtime/softirq.c\<close>), in the configuration with a second queue for preempted threads
  (\<open>PREEMPTED_RQ\<close>) and without garbage collection and directpath.

  Kthreads and threads are numbered and live in the stores \<open>kth\<close> and \<open>thr\<close>. Every function
  below is one critical section of the kthread locks it holds in the code; the lock-free
  fast path of \<open>thread_ready\<close> is taken as one step of its kthread. The cycle counter, the
  state of the devices, and the outcome of a \<open>spin_try_lock\<close> are inputs. Statistics counters
  are left out, as are the register switches (\<open>jmp_thread\<close> and the like): a scheduling
  decision is the thread it picks.
\<close>

subsection \<open>State\<close>

record thread =
  thread_ready_flag :: bool
  thread_running :: bool
  last_cpu :: nat
  run_start_tsc :: u64
  ready_tsc :: u64
  preempted :: bool
  main_thread :: bool

record kthread =
  krq :: runq
  kprq :: runq
  q_rq_head :: u32
  q_rq_tail :: u32
  q_prq_head :: u32
  q_prq_tail :: u32
  q_oldest_tsc :: u64
  q_run_start_tsc :: u64
  is_preempted :: int
  rcu_gen :: u32
  curr_cpu :: nat
  iokernel_softirq :: tid
  timer_softirq_th :: tid
  storage_softirq :: tid
  iokernel_busy :: bool
  k_timer_busy :: bool
  storage_busy :: bool
  last_softirq_tsc :: u64

record sched =
  kth :: "nat \<Rightarrow> kthread"
  thr :: "tid \<Rightarrow> thread"

definition upd_k :: "nat \<Rightarrow> (kthread \<Rightarrow> kthread) \<Rightarrow> sched \<Rightarrow> sched" where
  "upd_k k f s = s\<lparr>kth := (kth s)(k := f (kth s k))\<rparr>"

definition upd_t :: "tid \<Rightarrow> (thread \<Rightarrow> thread) \<Rightarrow> sched \<Rightarrow> sched" where
  "upd_t t f s = s\<lparr>thr := (thr s)(t := f (thr s t))\<rparr>"

subsection \<open>Making threads ready\<close>

definition drain_overflow :: "nat \<Rightarrow> sched \<Rightarrow> sched" where
  "drain_overflow l s = upd_k l (\<lambda>k. k\<lparr>krq := rq_drain_overflow (krq k)\<rparr>) s"

definition drain_preempted_overflow :: "nat \<Rightarrow> sched \<Rightarrow> sched" where
  "drain_preempted_overflow l s = upd_k l (\<lambda>k. k\<lparr>kprq := rq_drain_overflow (kprq k)\<rparr>) s"

definition update_oldest_tsc :: "nat \<Rightarrow> sched \<Rightarrow> sched" where
  "update_oldest_tsc l s =
     (let q = krq (kth s l)
      in if rq_head q \<noteq> rq_tail q
         then let th = ring q ! rq_slot (rq_tail q)
              in upd_k l (\<lambda>k. k\<lparr>q_oldest_tsc := ready_tsc (thr s th)\<rparr>) s
         else s)"

definition thread_ready_prepare :: "tid \<Rightarrow> u64 \<Rightarrow> sched \<Rightarrow> sched exec" where
  "thread_ready_prepare th now s =
     (if thread_ready_flag (thr s th) then Inl Bug_on
      else Inr (upd_t th (\<lambda>t. t\<lparr>thread_ready_flag := True, ready_tsc := now\<rparr>) s))"

definition thread_preempt_ready_prepare :: "tid \<Rightarrow> sched \<Rightarrow> sched exec" where
  "thread_preempt_ready_prepare th s =
     (if thread_ready_flag (thr s th) then Inl Bug_on
      else Inr (upd_t th (\<lambda>t. t\<lparr>thread_ready_flag := True\<rparr>) s))"

definition thread_ready_locked :: "nat \<Rightarrow> tid \<Rightarrow> u64 \<Rightarrow> sched \<Rightarrow> sched exec" where
  "thread_ready_locked k th now s =
     (let s = upd_t th (\<lambda>t. t\<lparr>preempted := False\<rparr>) s;
          s = (if rq_overflow (krq (kth s k)) \<noteq> [] then drain_overflow k s else s)
      in bind_exec (thread_ready_prepare th now s) (\<lambda>s.
           let q = krq (kth s k)
           in if rq_head q - rq_tail q \<ge> RUNTIME_RQ_SIZE
              then Inr (upd_k k (\<lambda>kt. kt\<lparr>krq := q\<lparr>rq_overflow := rq_overflow q @ [th]\<rparr>,
                                         q_rq_head := q_rq_head kt + 1\<rparr>) s)
              else let q = rq_push th q;
                       s = upd_k k (\<lambda>kt. kt\<lparr>krq := q\<rparr>) s;
                       s = (if rq_head q - rq_tail q = 1
                            then upd_k k (\<lambda>kt. kt\<lparr>q_oldest_tsc := ready_tsc (thr s th)\<rparr>) s else s)
                   in Inr (upd_k k (\<lambda>kt. kt\<lparr>q_rq_head := q_rq_head kt + 1\<rparr>) s)))"

text \<open>
  The insertion at the front, with the thread taking over the age of the thread it goes
  in front of.
\<close>

definition ready_at_head :: "nat \<Rightarrow> tid \<Rightarrow> sched \<Rightarrow> sched" where
  "ready_at_head k th s =
     (let q = krq (kth s k);
          s = (if rq_head q \<noteq> rq_tail q
               then let tsc = ready_tsc (thr s (ring q ! rq_slot (rq_tail q)))
                    in upd_t th (\<lambda>t. t\<lparr>ready_tsc := tsc\<rparr>) s
               else s)
      in upd_k k (\<lambda>kt. kt\<lparr>krq := rq_push_front th q, q_oldest_tsc := ready_tsc (thr s th),
                          q_rq_head := q_rq_head kt + 1\<rparr>) s)"

definition thread_ready_head_locked :: "nat \<Rightarrow> tid \<Rightarrow> u64 \<Rightarrow> sched \<Rightarrow> sched exec" where
  "thread_ready_head_locked k th now s =
     (let s = upd_t th (\<lambda>t. t\<lparr>preempted := False\<rparr>) s
      in bind_exec (thread_ready_prepare th now s) (\<lambda>s. Inr (ready_at_head k th s)))"

definition thread_ready_head :: "nat \<Rightarrow> tid \<Rightarrow> u64 \<Rightarrow> sched \<Rightarrow> sched exec" where
  "thread_ready_head k th now s =
     bind_exec (thread_ready_prepare th now s) (\<lambda>s. Inr (ready_at_head k th s))"

definition thread_ready :: "nat \<Rightarrow> tid \<Rightarrow> u64 \<Rightarrow> sched \<Rightarrow> sched exec" where
  "thread_ready k th now s =
     (let s = upd_t th (\<lambda>t. t\<lparr>preempted := False\<rparr>) s
      in bind_exec (thread_ready_prepare th now s) (\<lambda>s.
           let q = krq (kth s k)
           in if rq_head q - rq_tail q \<ge> RUNTIME_RQ_SIZE \<or> rq_overflow q \<noteq> []
              then let s = upd_k k (\<lambda>kt. kt\<lparr>krq := q\<lparr>rq_overflow := rq_overflow q @ [th]\<rparr>\<rparr>) s;
                       s = drain_overflow k s
                   in Inr (upd_k k (\<lambda>kt. kt\<lparr>q_rq_head := q_rq_head kt + 1\<rparr>) s)
              else let q = rq_push th q;
                       s = upd_k k (\<lambda>kt. kt\<lparr>krq := q\<rparr>) s;
                       s = (if rq_head q - rq_tail q = 1
                            then upd_k k (\<lambda>kt. kt\<lparr>q_oldest_tsc := ready_tsc (thr s th)\<rparr>) s else s)
                   in Inr (upd_k k (\<lambda>kt. kt\<lparr>q_rq_head := q_rq_head kt + 1\<rparr>) s)))"

definition thread_preempt_ready :: "nat \<Rightarrow> tid \<Rightarrow> sched \<Rightarrow> sched exec" where
  "thread_preempt_ready k th s =
     bind_exec (thread_preempt_ready_prepare th s) (\<lambda>s.
       let q = kprq (kth s k)
       in if rq_head q - rq_tail q \<ge> RUNTIME_RQ_SIZE \<or> rq_overflow q \<noteq> []
          then let s = upd_k k (\<lambda>kt. kt\<lparr>kprq := q\<lparr>rq_overflow := rq_overflow q @ [th]\<rparr>\<rparr>) s;
                   s = drain_preempted_overflow k s
               in Inr (upd_k k (\<lambda>kt. kt\<lparr>q_prq_head := q_prq_head kt + 1\<rparr>) s)
          else let q = rq_push th q;
                   s = upd_k k (\<lambda>kt. kt\<lparr>kprq := q\<rparr>) s;
                   s = (if rq_head q - rq_tail q = 1
                        then upd_k k (\<lambda>kt. kt\<lparr>q_oldest_tsc := ready_tsc (thr s th)\<rparr>) s else s)
               in Inr (upd_k k (\<lambda>kt. kt\<lparr>q_prq_head := q_prq_head kt + 1\<rparr>) s))"

subsection \<open>Stealing\<close>

definition drain_threads :: "nat \<Rightarrow> nat \<Rightarrow> bool \<Rightarrow> sched \<Rightarrow> tid list \<times> sched" where
  "drain_threads k nr update_tail s =
     (let (ths, tail, q) = rq_take nr (rq_tail (krq (kth s k))) (krq (kth s k));
          s = upd_k k (\<lambda>kt. kt\<lparr>krq := q\<rparr>) s
      in (ths, if update_tail
               then upd_k k (\<lambda>kt. kt\<lparr>krq := q\<lparr>rq_tail := tail\<rparr>,
                                     q_rq_tail := q_rq_tail kt + of_nat (length ths)\<rparr>) s
               else s))"

definition drain_preempted_threads :: "nat \<Rightarrow> nat \<Rightarrow> bool \<Rightarrow> sched \<Rightarrow> tid list \<times> sched" where
  "drain_preempted_threads k nr update_tail s =
     (let (ths, tail, q) = rq_take nr (rq_tail (kprq (kth s k))) (kprq (kth s k));
          s = upd_k k (\<lambda>kt. kt\<lparr>kprq := q\<rparr>) s
      in (ths, if update_tail
               then upd_k k (\<lambda>kt. kt\<lparr>kprq := q\<lparr>rq_tail := tail\<rparr>,
                                     q_prq_tail := q_prq_tail kt + of_nat (length ths)\<rparr>) s
               else s))"

text \<open>
  The order in which the loop of \<open>merge_runqueues\<close> takes the threads of the two lists: the
  stolen one first only if it has been ready for longer.
\<close>

fun merge_by :: "(tid \<Rightarrow> u64) \<Rightarrow> tid list \<Rightarrow> tid list \<Rightarrow> tid list" where
  "merge_by f (r # rs) [] = r # merge_by f rs []"
| "merge_by f (r # rs) (l # ls) =
     (if f r < f l then r # merge_by f rs (l # ls) else l # merge_by f (r # rs) ls)"
| "merge_by f [] (l # ls) = l # merge_by f [] ls"
| "merge_by f [] [] = []"

definition merge_runqueues :: "nat \<Rightarrow> nat \<Rightarrow> nat \<Rightarrow> nat \<Rightarrow> sched \<Rightarrow> sched" where
  "merge_runqueues l lsize r rsize s =
     (let (r_ths, s) = drain_threads r rsize True s;
          s = update_oldest_tsc r s;
          (l_ths, s) = drain_threads l lsize False s;
          ths = merge_by (\<lambda>t. ready_tsc (thr s t)) r_ths l_ths;
          q = rq_insert_all ths ((krq (kth s l))\<lparr>rq_head := 0, rq_tail := 0\<rparr>);
          s = upd_k l (\<lambda>kt. kt\<lparr>krq := q, q_rq_head := q_rq_head kt + of_nat (length r_ths)\<rparr>) s
      in update_oldest_tsc l s)"

definition merge_preempted_runqueues :: "nat \<Rightarrow> nat \<Rightarrow> nat \<Rightarrow> nat \<Rightarrow> sched \<Rightarrow> sched" where
  "merge_preempted_runqueues l lsize r rsize s =
     (let (r_ths, s) = drain_preempted_threads r rsize True s;
          (l_ths, s) = drain_preempted_threads l lsize False s;
          q = rq_insert_all (r_ths @ l_ths)
                ((kprq (kth s l))\<lparr>rq_head := 0x7FFFFFFF, rq_tail := 0x7FFFFFFF\<rparr>)
      in upd_k l (\<lambda>kt. kt\<lparr>kprq := q, q_prq_head := q_prq_head kt + of_nat (length r_ths)\<rparr>) s)"

text \<open>How many threads to steal: half of what the victim has more, at most a ring.\<close>

definition num_to_steal :: "u32 \<Rightarrow> u32 \<Rightarrow> u32" where
  "num_to_steal lsize rsize =
     (if lsize < rsize then min (div_up (rsize - lsize) 2) RUNTIME_RQ_SIZE else 0)"

subsection \<open>Softirqs\<close>

text \<open>What a poll of a kthread's devices finds: packets or commands from the iokernel, an
  expired timer, storage completions.\<close>

record softirq_obs =
  so_iokernel :: bool
  so_timer :: bool
  so_storage :: bool

definition softirq_pending :: "softirq_obs \<Rightarrow> bool" where
  "softirq_pending o1 \<longleftrightarrow> so_iokernel o1 \<or> so_timer o1 \<or> so_storage o1"

text \<open>\<open>softirq_timer_pending\<close>, from the first deadline and the number of timers.\<close>

definition softirq_timer_pending :: "u64 \<Rightarrow> u64 \<Rightarrow> nat \<Rightarrow> u64 \<Rightarrow> u64 \<Rightarrow> bool" where
  "softirq_timer_pending cpu st n deadline now_tsc \<longleftrightarrow>
     (let now_us = (now_tsc - st) div cpu in n > 0 \<and> deadline \<le> now_us)"

text \<open>
  \<open>softirq_run_locked k\<close>, called by the kthread \<open>me\<close> (which is another one when the work is
  stolen): the softirq threads of \<open>k\<close> with work go to the front of the queue of \<open>me\<close>.
\<close>

definition softirq_run_locked :: "nat \<Rightarrow> nat \<Rightarrow> softirq_obs \<Rightarrow> u64 \<Rightarrow> sched \<Rightarrow> (bool \<times> sched) exec" where
  "softirq_run_locked me k o1 now s =
     bind_exec
       (if \<not> iokernel_busy (kth s k) \<and> so_iokernel o1
        then let s = upd_k k (\<lambda>kt. kt\<lparr>iokernel_busy := True\<rparr>) s
             in bind_exec (thread_ready_head_locked me (iokernel_softirq (kth s k)) now s) (\<lambda>s. Inr (True, s))
        else Inr (False, s)) (\<lambda>(w1, s).
     bind_exec
       (if \<not> k_timer_busy (kth s k) \<and> so_timer o1
        then let s = upd_k k (\<lambda>kt. kt\<lparr>k_timer_busy := True\<rparr>) s
             in bind_exec (thread_ready_head_locked me (timer_softirq_th (kth s k)) now s) (\<lambda>s. Inr (True, s))
        else Inr (False, s)) (\<lambda>(w2, s).
     bind_exec
       (if \<not> storage_busy (kth s k) \<and> so_storage o1
        then let s = upd_k k (\<lambda>kt. kt\<lparr>storage_busy := True\<rparr>) s
             in bind_exec (thread_ready_head_locked me (storage_softirq (kth s k)) now s) (\<lambda>s. Inr (True, s))
        else Inr (False, s)) (\<lambda>(w3, s).
     Inr (w1 \<or> w2 \<or> w3, upd_k k (\<lambda>kt. kt\<lparr>last_softirq_tsc := now\<rparr>) s))))"

definition softirq_run :: "nat \<Rightarrow> softirq_obs \<Rightarrow> u64 \<Rightarrow> sched \<Rightarrow> (bool \<times> sched) exec" where
  "softirq_run k o1 now s =
     (let s = upd_k k (\<lambda>kt. kt\<lparr>last_softirq_tsc := now\<rparr>) s
      in if \<not> softirq_pending o1 then Inr (False, s) else softirq_run_locked k k o1 now s)"

subsection \<open>The scheduler\<close>

definition work_available :: "nat \<Rightarrow> softirq_obs \<Rightarrow> sched \<Rightarrow> bool" where
  "work_available k o1 s \<longleftrightarrow>
     rq_tail (krq (kth s k)) \<noteq> rq_head (krq (kth s k)) \<or>
     rq_tail (kprq (kth s k)) \<noteq> rq_head (kprq (kth s k)) \<or> softirq_pending o1"

text \<open>\<open>locked\<close> is the answer of \<open>spin_try_lock\<close> on the victim.\<close>

definition steal_work :: "nat \<Rightarrow> nat \<Rightarrow> softirq_obs \<Rightarrow> bool \<Rightarrow> u64 \<Rightarrow> sched \<Rightarrow> (bool \<times> sched) exec" where
  "steal_work l r o1 locked now s =
     (if \<not> work_available r o1 s \<or> \<not> locked then Inr (False, s)
      else
        let lsize = q_rq_head (kth s l) - q_rq_tail (kth s l);
            rsize = q_rq_head (kth s r) - q_rq_tail (kth s r);
            n = num_to_steal lsize rsize
        in if n \<noteq> 0 then Inr (True, merge_runqueues l (unat lsize) r (unat n) s)
           else
             let lsize = q_prq_head (kth s l) - q_prq_tail (kth s l);
                 rsize = q_prq_head (kth s r) - q_prq_tail (kth s r);
                 n = num_to_steal lsize rsize
             in if n \<noteq> 0 then Inr (True, merge_preempted_runqueues l (unat lsize) r (unat n) s)
                else softirq_run_locked l r o1 now s)"

text \<open>
  The end of \<open>schedule\<close> and the fast path of \<open>enter_schedule\<close>: take the next thread, from the
  queue of ready threads if it has one and from the queue of preempted threads otherwise.
\<close>

definition pop_next :: "nat \<Rightarrow> sched \<Rightarrow> tid \<times> sched" where
  "pop_next l s =
     (let q = krq (kth s l)
      in if rq_head q \<noteq> rq_tail q
         then let (th, q) = rq_pop q;
                  s = upd_k l (\<lambda>k. k\<lparr>krq := q, q_rq_tail := q_rq_tail k + 1\<rparr>) s;
                  s = (if rq_overflow q \<noteq> [] then drain_overflow l s else s);
                  s = upd_k l (\<lambda>k. k\<lparr>is_preempted := 0\<rparr>) s
              in (th, update_oldest_tsc l s)
         else let (th, q) = rq_pop (kprq (kth s l));
                  s = upd_k l (\<lambda>k. k\<lparr>kprq := q, q_prq_tail := q_prq_tail k + 1\<rparr>) s;
                  s = (if rq_overflow q \<noteq> [] then drain_preempted_overflow l s else s);
                  s = upd_k l (\<lambda>k. k\<lparr>is_preempted := 1\<rparr>) s
              in (th, update_oldest_tsc l s))"

text \<open>What \<open>jmp_thread\<close> and the code before it record of the thread that runs next.\<close>

definition run_thread :: "nat \<Rightarrow> tid \<Rightarrow> u64 \<Rightarrow> u32 \<Rightarrow> sched \<Rightarrow> sched" where
  "run_thread l th now gens s =
     (let s = upd_k l (\<lambda>k. k\<lparr>q_run_start_tsc := now, rcu_gen := rcu_gen k + gens\<rparr>) s
      in upd_t th (\<lambda>t. t\<lparr>run_start_tsc := now, thread_ready_flag := False, thread_running := True\<rparr>) s)"

text \<open>
  \<open>enter_schedule\<close>, called when thread \<open>cur\<close> parks or yields: \<open>None\<close> is the slow path, which
  runs \<open>schedule\<close> on the runtime stack; \<open>slow\<close> stands for a pending cede or a softirq
  check that is overdue.
\<close>

definition enter_schedule :: "nat \<Rightarrow> tid \<Rightarrow> bool \<Rightarrow> u64 \<Rightarrow> sched \<Rightarrow> (tid \<times> sched) option \<times> sched" where
  "enter_schedule k cur slow now s =
     (let s = upd_t cur (\<lambda>t. t\<lparr>last_cpu := curr_cpu (kth s k)\<rparr>) s;
          q = krq (kth s k); p = kprq (kth s k)
      in if (rq_head q = rq_tail q \<and> rq_head p = rq_tail p) \<or> slow then (None, s)
         else let (th, s') = pop_next k s;
                  s' = (if th = cur
                        then upd_t th (\<lambda>t. t\<lparr>run_start_tsc := now, thread_ready_flag := False\<rparr>)
                               (upd_k k (\<lambda>kt. kt\<lparr>q_run_start_tsc := now, rcu_gen := rcu_gen kt + 2\<rparr>) s')
                        else upd_t cur (\<lambda>t. t\<lparr>thread_running := False\<rparr>) (run_thread k th now 2 s'))
              in (Some (th, s'), s))"

text \<open>
  One round of the search for work in \<open>schedule\<close> after the local queues were found empty:
  local softirqs, the sibling's kthread, every other kthread in turn, local softirqs
  again. The inputs of a round are what its polls find.
\<close>

record round_obs =
  ro_local :: softirq_obs
  ro_local2 :: softirq_obs
  ro_remote :: "nat \<Rightarrow> softirq_obs"
  ro_locked :: "nat \<Rightarrow> bool"
  ro_sibling :: "nat option"
  ro_order :: "nat list"
  ro_now :: u64

fun steal_any :: "nat \<Rightarrow> nat list \<Rightarrow> round_obs \<Rightarrow> sched \<Rightarrow> (bool \<times> sched) exec" where
  "steal_any l [] ro s = Inr (False, s)"
| "steal_any l (r # rs) ro s =
     (if r = l then steal_any l rs ro s
      else bind_exec (steal_work l r (ro_remote ro r) (ro_locked ro r) (ro_now ro) s)
             (\<lambda>(w, s). if w then Inr (True, s) else steal_any l rs ro s))"

definition sched_round :: "nat \<Rightarrow> round_obs \<Rightarrow> sched \<Rightarrow> (bool \<times> sched) exec" where
  "sched_round l ro s =
     bind_exec (softirq_run_locked l l (ro_local ro) (ro_now ro) s) (\<lambda>(w, s).
       if w then Inr (True, s)
       else bind_exec (steal_any l (case ro_sibling ro of None \<Rightarrow> [] | Some r \<Rightarrow> [r]) ro s) (\<lambda>(w, s).
         if w then Inr (True, s)
         else bind_exec (steal_any l (ro_order ro) ro s) (\<lambda>(w, s).
           if w then Inr (True, s)
           else softirq_run_locked l l (ro_local2 ro) (ro_now ro) s)))"

text \<open>
  The rounds until one finds work; between rounds the kthread keeps polling or parks.
  \<open>None\<close> means that the given rounds found nothing.
\<close>

fun sched_search :: "nat \<Rightarrow> round_obs list \<Rightarrow> sched \<Rightarrow> (sched option) exec" where
  "sched_search l [] s = Inr None"
| "sched_search l (ro # ros) s =
     bind_exec (sched_round l ro s) (\<lambda>(w, s). if w then Inr (Some s) else sched_search l ros s)"

text \<open>
  \<open>schedule\<close>: the queues of the kthread come first; \<open>watchdog\<close> says that softirqs are
  overdue and gives what their poll finds. The result is the thread to run.
\<close>

definition sched_pick :: "nat \<Rightarrow> u64 \<Rightarrow> sched \<Rightarrow> tid \<times> sched" where
  "sched_pick l now s = (let (th, s) = pop_next l s in (th, run_thread l th now 1 s))"

definition schedule_local :: "nat \<Rightarrow> sched \<Rightarrow> bool \<times> sched" where
  "schedule_local l s =
     (let s = (if rq_overflow (krq (kth s l)) \<noteq> [] then drain_overflow l s else s)
      in if rq_head (krq (kth s l)) \<noteq> rq_tail (krq (kth s l)) then (True, s)
         else let s = (if rq_overflow (kprq (kth s l)) \<noteq> [] then drain_preempted_overflow l s else s)
              in (rq_head (kprq (kth s l)) \<noteq> rq_tail (kprq (kth s l)), s))"

definition schedule ::
  "nat \<Rightarrow> tid option \<Rightarrow> softirq_obs option \<Rightarrow> round_obs list \<Rightarrow> u64 \<Rightarrow> sched \<Rightarrow> ((tid \<times> sched) option) exec" where
  "schedule l self watchdog ros now s =
     (let s = upd_k l (\<lambda>k. k\<lparr>is_preempted := -1\<rparr>) s;
          s = (case self of None \<Rightarrow> s | Some t \<Rightarrow> upd_t t (\<lambda>th. th\<lparr>thread_running := False\<rparr>) s);
          s = upd_k l (\<lambda>k. k\<lparr>rcu_gen := rcu_gen k + 1\<rparr>) s
      in bind_exec
           (case watchdog of
              None \<Rightarrow> Inr (False, s)
            | Some o1 \<Rightarrow> softirq_run_locked l l o1 now (upd_k l (\<lambda>k. k\<lparr>last_softirq_tsc := now\<rparr>) s))
           (\<lambda>(w, s).
              if w then Inr (Some (sched_pick l now s))
              else let (found, s) = schedule_local l s
                   in if found then Inr (Some (sched_pick l now s))
                      else bind_exec (sched_search l ros s) (\<lambda>r.
                             case r of None \<Rightarrow> Inr None | Some s \<Rightarrow> Inr (Some (sched_pick l now s)))))"

text \<open>\<open>thread_yield\<close> and \<open>thread_preempt_yield\<close>, up to the switch.\<close>

definition thread_yield ::
  "nat \<Rightarrow> tid \<Rightarrow> softirq_obs \<Rightarrow> bool \<Rightarrow> u64 \<Rightarrow> sched \<Rightarrow> ((tid \<times> sched) option \<times> sched) exec" where
  "thread_yield k cur o1 slow now s =
     bind_exec (softirq_run k o1 now s) (\<lambda>(w, s).
       let s = upd_t cur (\<lambda>t. t\<lparr>thread_ready_flag := False\<rparr>) s
       in bind_exec (thread_ready k cur now s) (\<lambda>s. Inr (enter_schedule k cur slow now s)))"

definition thread_preempt_yield ::
  "nat \<Rightarrow> tid \<Rightarrow> softirq_obs \<Rightarrow> bool \<Rightarrow> u64 \<Rightarrow> sched \<Rightarrow> ((tid \<times> sched) option \<times> sched) exec" where
  "thread_preempt_yield k cur o1 slow now s =
     bind_exec (softirq_run k o1 now s) (\<lambda>(w, s).
       let s = upd_t cur (\<lambda>t. t\<lparr>thread_ready_flag := False\<rparr>) s
       in bind_exec (thread_preempt_ready k cur s) (\<lambda>s. Inr (enter_schedule k cur slow now s)))"

subsection \<open>The queues as lists\<close>

text \<open>
  The abstract state: the ready threads and the preempted threads of every kthread as
  lists, and which threads are marked ready.
\<close>

record aqueues =
  aq :: "nat \<Rightarrow> tid list"
  ap :: "nat \<Rightarrow> tid list"
  aready :: "tid \<Rightarrow> bool"

definition queues_of :: "sched \<Rightarrow> aqueues" where
  "queues_of s = \<lparr>aq = \<lambda>k. rq_elems (krq (kth s k)), ap = \<lambda>k. rq_elems (kprq (kth s k)),
            aready = \<lambda>t. thread_ready_flag (thr s t)\<rparr>"

text \<open>Well-formed rings, and queue lengths published exactly.\<close>

definition kthread_ok :: "kthread \<Rightarrow> bool" where
  "kthread_ok k \<longleftrightarrow>
     rq_ok (krq k) \<and> rq_ok (kprq k) \<and>
     q_rq_head k - q_rq_tail k = of_nat (length (rq_elems (krq k))) \<and>
     q_prq_head k - q_prq_tail k = of_nat (length (rq_elems (kprq k)))"

definition sched_ok :: "sched \<Rightarrow> bool" where
  "sched_ok s \<longleftrightarrow> (\<forall>k. kthread_ok (kth s k))"

lemma upd_simps [simp]:
  "thr (upd_k k f s) = thr s" "kth (upd_t t g s) = kth s"
  "kth (upd_k k f s) = (kth s)(k := f (kth s k))" "thr (upd_t t g s) = (thr s)(t := g (thr s t))"
  by (simp_all add: upd_k_def upd_t_def)

lemma sched_okD: "sched_ok s \<Longrightarrow> kthread_ok (kth s k)"
  by (simp add: sched_ok_def)

lemma sched_ok_upd_k: "sched_ok s \<Longrightarrow> kthread_ok (f (kth s k)) \<Longrightarrow> sched_ok (upd_k k f s)"
  by (simp add: sched_ok_def)

lemma sched_ok_upd_t [simp]: "sched_ok (upd_t t g s) = sched_ok s"
  by (simp add: sched_ok_def)

lemma abs_upd_krq:
  "kprq (f (kth s k)) = kprq (kth s k) \<Longrightarrow>
     queues_of (upd_k k f s) = (queues_of s)\<lparr>aq := (aq (queues_of s))(k := rq_elems (krq (f (kth s k))))\<rparr>"
  by (auto simp: queues_of_def)

lemma abs_upd_kprq:
  "krq (f (kth s k)) = krq (kth s k) \<Longrightarrow>
     queues_of (upd_k k f s) = (queues_of s)\<lparr>ap := (ap (queues_of s))(k := rq_elems (kprq (f (kth s k))))\<rparr>"
  by (auto simp: queues_of_def)

lemma abs_upd_t:
  "queues_of (upd_t t g s) = (queues_of s)\<lparr>aready := (aready (queues_of s))(t := thread_ready_flag (g (thr s t)))\<rparr>"
  by (auto simp: queues_of_def)

lemma abs_sel:
  "aq (queues_of s) k = rq_elems (krq (kth s k))" "ap (queues_of s) k = rq_elems (kprq (kth s k))"
  "aready (queues_of s) t = thread_ready_flag (thr s t)"
  by (simp_all add: queues_of_def)

text \<open>Changes that the abstract state does not see.\<close>

lemma abs_upd_k_same:
  "krq (f (kth s k)) = krq (kth s k) \<Longrightarrow> kprq (f (kth s k)) = kprq (kth s k) \<Longrightarrow> queues_of (upd_k k f s) = queues_of s"
  by (auto simp: queues_of_def)

lemma abs_upd_t_same:
  "thread_ready_flag (g (thr s t)) = thread_ready_flag (thr s t) \<Longrightarrow> queues_of (upd_t t g s) = queues_of s"
  by (auto simp: queues_of_def)

lemma drain_overflow_abs:
  assumes "sched_ok s"
  shows "sched_ok (drain_overflow l s) \<and> queues_of (drain_overflow l s) = queues_of s \<and> thr (drain_overflow l s) = thr s"
proof -
  have ok: "kthread_ok (kth s l)" by (rule sched_okD [OF assms])
  note d = rq_drain_overflow_elems [of "krq (kth s l)"]
  have "sched_ok (drain_overflow l s)"
    unfolding drain_overflow_def using ok d by (intro sched_ok_upd_k [OF assms]) (simp add: kthread_ok_def)
  moreover have "queues_of (drain_overflow l s) = queues_of s"
    using ok d by (auto simp: drain_overflow_def queues_of_def kthread_ok_def)
  ultimately show ?thesis by (simp add: drain_overflow_def)
qed

lemma drain_preempted_overflow_abs:
  assumes "sched_ok s"
  shows "sched_ok (drain_preempted_overflow l s) \<and> queues_of (drain_preempted_overflow l s) = queues_of s \<and>
    thr (drain_preempted_overflow l s) = thr s"
proof -
  have ok: "kthread_ok (kth s l)" by (rule sched_okD [OF assms])
  note d = rq_drain_overflow_elems [of "kprq (kth s l)"]
  have "sched_ok (drain_preempted_overflow l s)"
    unfolding drain_preempted_overflow_def using ok d
    by (intro sched_ok_upd_k [OF assms]) (simp add: kthread_ok_def)
  moreover have "queues_of (drain_preempted_overflow l s) = queues_of s"
    using ok d by (auto simp: drain_preempted_overflow_def queues_of_def kthread_ok_def)
  ultimately show ?thesis by (simp add: drain_preempted_overflow_def)
qed

lemma update_oldest_tsc_abs [simp]:
  "sched_ok (update_oldest_tsc l s) = sched_ok s" "queues_of (update_oldest_tsc l s) = queues_of s"
  "thr (update_oldest_tsc l s) = thr s"
  "krq (kth (update_oldest_tsc l s) k) = krq (kth s k)" "kprq (kth (update_oldest_tsc l s) k) = kprq (kth s k)"
  by (auto simp: update_oldest_tsc_def Let_def sched_ok_def kthread_ok_def queues_of_def)

text \<open>Adding a thread at the end of a queue, by whichever branch.\<close>

lemma rq_append_overflow:
  assumes "rq_ok q"
  shows "rq_ok (q\<lparr>rq_overflow := rq_overflow q @ [th]\<rparr>)"
    and "rq_elems (q\<lparr>rq_overflow := rq_overflow q @ [th]\<rparr>) = rq_elems q @ [th]"
  using assms by (simp_all add: rq_ok_def rq_len_def rq_elems_def rq_window_def)

lemma rq_append_push:
  assumes "rq_ok q" and "rq_len q < 32" and "rq_overflow q = []"
  shows "rq_ok (rq_push th q)" and "rq_elems (rq_push th q) = rq_elems q @ [th]"
  using rq_push_elems [OF assms(1,2), of th] assms(3) by (simp_all add: rq_elems_def)

lemma count_Suc: "(h :: u32) - t = of_nat n \<Longrightarrow> h + 1 - t = of_nat (Suc n)"
  by (simp add: algebra_simps)

definition a_ready :: "nat \<Rightarrow> tid \<Rightarrow> aqueues \<Rightarrow> aqueues" where
  "a_ready k th a = a\<lparr>aq := (aq a)(k := aq a k @ [th]), aready := (aready a)(th := True)\<rparr>"

definition a_ready_head :: "nat \<Rightarrow> tid \<Rightarrow> aqueues \<Rightarrow> aqueues" where
  "a_ready_head k th a = a\<lparr>aq := (aq a)(k := th # aq a k), aready := (aready a)(th := True)\<rparr>"

definition a_preempt :: "nat \<Rightarrow> tid \<Rightarrow> aqueues \<Rightarrow> aqueues" where
  "a_preempt k th a = a\<lparr>ap := (ap a)(k := ap a k @ [th]), aready := (aready a)(th := True)\<rparr>"

lemma thread_ready_prepare_abs:
  assumes "thread_ready_prepare th now s = Inr s'"
  shows "\<not> thread_ready_flag (thr s th)" and "kth s' = kth s" and "sched_ok s' = sched_ok s"
    and "queues_of s' = (queues_of s)\<lparr>aready := (aready (queues_of s))(th := True)\<rparr>"
  using assms by (auto simp: thread_ready_prepare_def abs_upd_t split: if_splits)

lemma kthread_ok_grow:
  assumes "kthread_ok k" and "rq_ok (krq k')" and "length (rq_elems (krq k')) = Suc (length (rq_elems (krq k)))"
    and "kprq k' = kprq k" and "q_rq_head k' = q_rq_head k + 1" and "q_rq_tail k' = q_rq_tail k"
    and "q_prq_head k' = q_prq_head k" and "q_prq_tail k' = q_prq_tail k"
  shows "kthread_ok k'"
  using assms count_Suc [of "q_rq_head k" "q_rq_tail k"] by (simp add: kthread_ok_def)

lemma kthread_ok_grow_preempted:
  assumes "kthread_ok k" and "rq_ok (kprq k')" and "length (rq_elems (kprq k')) = Suc (length (rq_elems (kprq k)))"
    and "krq k' = krq k" and "q_prq_head k' = q_prq_head k + 1" and "q_prq_tail k' = q_prq_tail k"
    and "q_rq_head k' = q_rq_head k" and "q_rq_tail k' = q_rq_tail k"
  shows "kthread_ok k'"
  using assms count_Suc [of "q_prq_head k" "q_prq_tail k"] by (simp add: kthread_ok_def)

lemma thread_ready_abs:
  assumes ok: "sched_ok s" and run: "thread_ready k th now s = Inr s'"
  shows "sched_ok s'" and "queues_of s' = a_ready k th (queues_of s)" and "\<not> aready (queues_of s) th"
proof -
  define s0 where "s0 = upd_t th (\<lambda>t. t\<lparr>preempted := False\<rparr>) s"
  have s0: "queues_of s0 = queues_of s" "sched_ok s0" "kth s0 = kth s"
    using ok by (simp_all add: s0_def abs_upd_t_same)
  obtain s1 where prep: "thread_ready_prepare th now s0 = Inr s1"
    using run by (auto simp: thread_ready_def Let_def s0_def bind_exec_eq_Inr)
  note p = thread_ready_prepare_abs [OF prep]
  define q where "q = krq (kth s1 k)"
  have ok1: "sched_ok s1" using p s0 by simp
  have q: "rq_ok q" using sched_okD [OF ok1, of k] by (simp add: q_def kthread_ok_def)
  show "\<not> aready (queues_of s) th" using p(1) s0(1) by (simp add: abs_sel [symmetric])
  have "sched_ok s' \<and> queues_of s' = (queues_of s1)\<lparr>aq := (aq (queues_of s1))(k := rq_elems q @ [th])\<rparr>"
  proof (cases "rq_head q - rq_tail q \<ge> RUNTIME_RQ_SIZE \<or> rq_overflow q \<noteq> []")
    case True
    define q1 where "q1 = rq_drain_overflow (q\<lparr>rq_overflow := rq_overflow q @ [th]\<rparr>)"
    have s': "s' = upd_k k (\<lambda>kt. kt\<lparr>krq := q1, q_rq_head := q_rq_head kt + 1\<rparr>) s1"
      using run prep True
      by (auto simp: thread_ready_def Let_def s0_def q_def q1_def drain_overflow_def upd_k_def)
    have "rq_ok q1" "rq_elems q1 = rq_elems q @ [th]"
      using rq_drain_overflow_elems [OF rq_append_overflow(1) [OF q], of th] rq_append_overflow(2) [OF q, of th]
      by (simp_all add: q1_def)
    then show ?thesis unfolding s'
      by (auto simp: abs_upd_krq q_def intro!: sched_ok_upd_k [OF ok1] kthread_ok_grow [OF sched_okD [OF ok1]])
  next
    case False
    then have room: "rq_len q < 32" "rq_overflow q = []" by (auto simp: rq_len_full)
    have "s' = upd_k k (\<lambda>kt. kt\<lparr>krq := rq_push th q, q_oldest_tsc :=
        (if rq_head (rq_push th q) - rq_tail (rq_push th q) = 1 then ready_tsc (thr s1 th) else q_oldest_tsc kt),
        q_rq_head := q_rq_head kt + 1\<rparr>) s1"
      using run prep False
      by (auto simp: thread_ready_def Let_def s0_def q_def upd_k_def split: if_splits)
    then show ?thesis using rq_append_push [OF q room, of th]
      by (auto simp: abs_upd_krq q_def intro!: sched_ok_upd_k [OF ok1] kthread_ok_grow [OF sched_okD [OF ok1]])
  qed
  then show "sched_ok s'" "queues_of s' = a_ready k th (queues_of s)"
    using p(2,4) s0 by (auto simp: a_ready_def q_def abs_sel)
qed

lemma thread_ready_locked_abs:
  assumes ok: "sched_ok s" and run: "thread_ready_locked k th now s = Inr s'"
  shows "sched_ok s'" and "queues_of s' = a_ready k th (queues_of s)" and "\<not> aready (queues_of s) th"
proof -
  define s0 where "s0 = (let s = upd_t th (\<lambda>t. t\<lparr>preempted := False\<rparr>) s
    in if rq_overflow (krq (kth s k)) \<noteq> [] then drain_overflow k s else s)"
  have s0: "queues_of s0 = queues_of s" "sched_ok s0"
    using ok drain_overflow_abs [of "upd_t th (\<lambda>t. t\<lparr>preempted := False\<rparr>) s" k]
    by (auto simp: s0_def abs_upd_t_same Let_def)
  have packed: "rq_packed (krq (kth s0 k))"
    using rq_drain_overflow_elems [of "krq (kth s k)"] sched_okD [OF ok, of k]
    by (auto simp: s0_def rq_packed_def drain_overflow_def kthread_ok_def Let_def)
  obtain s1 where prep: "thread_ready_prepare th now s0 = Inr s1"
    using run by (auto simp: thread_ready_locked_def Let_def s0_def bind_exec_eq_Inr)
  note p = thread_ready_prepare_abs [OF prep]
  define q where "q = krq (kth s1 k)"
  have ok1: "sched_ok s1" using p s0 by simp
  have q: "rq_ok q" using sched_okD [OF ok1, of k] by (simp add: q_def kthread_ok_def)
  have qp: "rq_packed q" using packed p(2) by (simp add: q_def)
  show "\<not> aready (queues_of s) th" using p(1) s0(1) by (simp add: abs_sel [symmetric])
  have "sched_ok s' \<and> queues_of s' = (queues_of s1)\<lparr>aq := (aq (queues_of s1))(k := rq_elems q @ [th])\<rparr>"
  proof (cases "rq_head q - rq_tail q \<ge> RUNTIME_RQ_SIZE")
    case True
    have "s' = upd_k k (\<lambda>kt. kt\<lparr>krq := q\<lparr>rq_overflow := rq_overflow q @ [th]\<rparr>, q_rq_head := q_rq_head kt + 1\<rparr>) s1"
      using run prep True by (simp add: thread_ready_locked_def Let_def s0_def q_def)
    then show ?thesis using rq_append_overflow [OF q, of th]
      by (auto simp: abs_upd_krq q_def intro!: sched_ok_upd_k [OF ok1] kthread_ok_grow [OF sched_okD [OF ok1]])
  next
    case False
    then have room: "rq_len q < 32" "rq_overflow q = []" using qp by (auto simp: rq_len_full rq_packed_def)
    have "s' = upd_k k (\<lambda>kt. kt\<lparr>krq := rq_push th q, q_oldest_tsc :=
        (if rq_head (rq_push th q) - rq_tail (rq_push th q) = 1 then ready_tsc (thr s1 th) else q_oldest_tsc kt),
        q_rq_head := q_rq_head kt + 1\<rparr>) s1"
      using run prep False
      by (auto simp: thread_ready_locked_def Let_def s0_def q_def upd_k_def split: if_splits)
    then show ?thesis using rq_append_push [OF q room, of th]
      by (auto simp: abs_upd_krq q_def intro!: sched_ok_upd_k [OF ok1] kthread_ok_grow [OF sched_okD [OF ok1]])
  qed
  then show "sched_ok s'" "queues_of s' = a_ready k th (queues_of s)"
    using p(4) s0 abs_sel(1) [of s1 k] by (auto simp: a_ready_def q_def)
qed

lemma ready_at_head_abs:
  assumes ok: "sched_ok s"
  shows "sched_ok (ready_at_head k th s)"
    and "queues_of (ready_at_head k th s) = (queues_of s)\<lparr>aq := (aq (queues_of s))(k := th # aq (queues_of s) k)\<rparr>"
proof -
  define q s0 where "q = krq (kth s k)" and "s0 = (if rq_head q \<noteq> rq_tail q
       then upd_t th (\<lambda>t. t\<lparr>ready_tsc := ready_tsc (thr s (ring q ! rq_slot (rq_tail q)))\<rparr>) s else s)"
  have s0: "sched_ok s0" "queues_of s0 = queues_of s" "kth s0 = kth s"
    using ok by (simp_all add: s0_def abs_upd_t_same)
  have q: "rq_ok q" using sched_okD [OF ok, of k] by (simp add: q_def kthread_ok_def)
  have e: "ready_at_head k th s = upd_k k (\<lambda>kt. kt\<lparr>krq := rq_push_front th q,
      q_oldest_tsc := ready_tsc (thr s0 th), q_rq_head := q_rq_head kt + 1\<rparr>) s0"
    by (simp add: ready_at_head_def Let_def q_def s0_def)
  have q0: "q = krq (kth s0 k)" by (simp add: q_def s0)
  show "sched_ok (ready_at_head k th s)" unfolding e
    using rq_push_front_elems [OF q, of th]
    by (auto simp: q0 intro!: sched_ok_upd_k [OF s0(1)] kthread_ok_grow [OF sched_okD [OF s0(1)]])
  show "queues_of (ready_at_head k th s) = (queues_of s)\<lparr>aq := (aq (queues_of s))(k := th # aq (queues_of s) k)\<rparr>"
    unfolding e using rq_push_front_elems(2) [OF q, of th] s0 by (simp add: abs_upd_krq abs_sel q_def)
qed

lemma thread_ready_head_abs:
  assumes ok: "sched_ok s" and run: "thread_ready_head k th now s = Inr s'"
  shows "sched_ok s'" and "queues_of s' = a_ready_head k th (queues_of s)" and "\<not> aready (queues_of s) th"
proof -
  obtain s1 where prep: "thread_ready_prepare th now s = Inr s1" and s': "s' = ready_at_head k th s1"
    using run by (auto simp: thread_ready_head_def bind_exec_eq_Inr)
  note p = thread_ready_prepare_abs [OF prep]
  show "sched_ok s'" "queues_of s' = a_ready_head k th (queues_of s)" "\<not> aready (queues_of s) th"
    using ready_at_head_abs [of s1 k th] p ok by (simp_all add: s' a_ready_head_def abs_sel)
qed

lemma thread_ready_head_locked_abs:
  assumes ok: "sched_ok s" and run: "thread_ready_head_locked k th now s = Inr s'"
  shows "sched_ok s'" and "queues_of s' = a_ready_head k th (queues_of s)" and "\<not> aready (queues_of s) th"
proof -
  let ?s = "upd_t th (\<lambda>t. t\<lparr>preempted := False\<rparr>) s"
  have "thread_ready_head k th now ?s = Inr s'"
    using run by (simp add: thread_ready_head_locked_def thread_ready_head_def Let_def)
  from thread_ready_head_abs [OF _ this] ok
  show "sched_ok s'" "queues_of s' = a_ready_head k th (queues_of s)" "\<not> aready (queues_of s) th"
    by (simp_all add: abs_upd_t_same)
qed

lemma thread_preempt_ready_abs:
  assumes ok: "sched_ok s" and run: "thread_preempt_ready k th s = Inr s'"
  shows "sched_ok s'" and "queues_of s' = a_preempt k th (queues_of s)" and "\<not> aready (queues_of s) th"
proof -
  obtain s1 where prep: "thread_preempt_ready_prepare th s = Inr s1"
    using run by (auto simp: thread_preempt_ready_def Let_def bind_exec_eq_Inr)
  then have p: "\<not> thread_ready_flag (thr s th)" "kth s1 = kth s" "sched_ok s1"
    "queues_of s1 = (queues_of s)\<lparr>aready := (aready (queues_of s))(th := True)\<rparr>"
    using ok by (auto simp: thread_preempt_ready_prepare_def abs_upd_t split: if_splits)
  note ok1 = p(3)
  define q where "q = kprq (kth s1 k)"
  have q: "rq_ok q" using sched_okD [OF ok1, of k] by (simp add: q_def kthread_ok_def)
  show "\<not> aready (queues_of s) th" using p(1) by (simp add: abs_sel)
  have "sched_ok s' \<and> queues_of s' = (queues_of s1)\<lparr>ap := (ap (queues_of s1))(k := rq_elems q @ [th])\<rparr>"
  proof (cases "rq_head q - rq_tail q \<ge> RUNTIME_RQ_SIZE \<or> rq_overflow q \<noteq> []")
    case True
    define q1 where "q1 = rq_drain_overflow (q\<lparr>rq_overflow := rq_overflow q @ [th]\<rparr>)"
    have s': "s' = upd_k k (\<lambda>kt. kt\<lparr>kprq := q1, q_prq_head := q_prq_head kt + 1\<rparr>) s1"
      using run prep True
      by (auto simp: thread_preempt_ready_def Let_def q_def q1_def drain_preempted_overflow_def upd_k_def)
    have "rq_ok q1" "rq_elems q1 = rq_elems q @ [th]"
      using rq_drain_overflow_elems [OF rq_append_overflow(1) [OF q], of th] rq_append_overflow(2) [OF q, of th]
      by (simp_all add: q1_def)
    then show ?thesis unfolding s'
      by (auto simp: abs_upd_kprq q_def
          intro!: sched_ok_upd_k [OF ok1] kthread_ok_grow_preempted [OF sched_okD [OF ok1]])
  next
    case False
    then have room: "rq_len q < 32" "rq_overflow q = []" by (auto simp: rq_len_full)
    have "s' = upd_k k (\<lambda>kt. kt\<lparr>kprq := rq_push th q, q_oldest_tsc :=
        (if rq_head (rq_push th q) - rq_tail (rq_push th q) = 1 then ready_tsc (thr s1 th) else q_oldest_tsc kt),
        q_prq_head := q_prq_head kt + 1\<rparr>) s1"
      using run prep False
      by (auto simp: thread_preempt_ready_def Let_def q_def upd_k_def split: if_splits)
    then show ?thesis using rq_append_push [OF q room, of th]
      by (auto simp: abs_upd_kprq q_def
          intro!: sched_ok_upd_k [OF ok1] kthread_ok_grow_preempted [OF sched_okD [OF ok1]])
  qed
  then show "sched_ok s'" "queues_of s' = a_preempt k th (queues_of s)"
    using p(2,4) by (auto simp: a_preempt_def q_def abs_sel)
qed

subsection \<open>Stealing moves threads and loses none\<close>

lemma mset_merge_by: "mset (merge_by f rs ls) = mset rs + mset ls"
  by (induction f rs ls rule: merge_by.induct) auto

lemma length_merge_by: "length (merge_by f rs ls) = length rs + length ls"
  using mset_merge_by [of f rs ls] by (metis mset_append size_mset length_append)

lemma set_merge_by: "set (merge_by f rs ls) = set rs \<union> set ls"
  using mset_merge_by [of f rs ls] by (metis mset_append set_append set_mset_mset)

lemma sorted_merge_by:
  "sorted (map f rs) \<Longrightarrow> sorted (map f ls) \<Longrightarrow> sorted (map f (merge_by f rs ls))"
  by (induction f rs ls rule: merge_by.induct) (auto simp: set_merge_by not_less intro: order.strict_implies_order order.trans)

definition a_steal :: "(tid \<Rightarrow> u64) \<Rightarrow> nat \<Rightarrow> nat \<Rightarrow> nat \<Rightarrow> aqueues \<Rightarrow> aqueues" where
  "a_steal f l r n a =
     a\<lparr>aq := (aq a)(r := drop n (aq a r), l := merge_by f (take n (aq a r)) (aq a l))\<rparr>"

definition a_steal_preempted :: "nat \<Rightarrow> nat \<Rightarrow> nat \<Rightarrow> aqueues \<Rightarrow> aqueues" where
  "a_steal_preempted l r n a =
     a\<lparr>ap := (ap a)(r := drop n (ap a r), l := take n (ap a r) @ ap a l)\<rparr>"

lemma of_nat_drop: "(h :: u32) - t = of_nat n \<Longrightarrow> m \<le> n \<Longrightarrow> h - (t + of_nat m) = of_nat (n - m)"
  by (simp add: algebra_simps of_nat_diff)

lemma drain_threads_victim:
  assumes ok: "sched_ok s" and run: "drain_threads k nr True s = (ths, s')"
  shows "sched_ok s'" and "ths = take nr (aq (queues_of s) k)" and "thr s' = thr s"
    and "queues_of s' = (queues_of s)\<lparr>aq := (aq (queues_of s))(k := drop nr (aq (queues_of s) k))\<rparr>"
    and "j \<noteq> k \<Longrightarrow> kth s' j = kth s j"
proof -
  define q where "q = krq (kth s k)"
  obtain ths1 t q1 where tk: "rq_take nr (rq_tail q) q = (ths1, t, q1)" by (metis prod_cases3)
  have kt: "kthread_ok (kth s k)" by (rule sched_okD [OF ok])
  have "rq_ok (q\<lparr>rq_tail := rq_tail q\<rparr>)" using kt by (simp add: q_def kthread_ok_def)
  from rq_take_elems [OF this tk] have e: "ths1 = take nr (rq_elems q)" "rq_ok (q1\<lparr>rq_tail := t\<rparr>)"
    "rq_elems (q1\<lparr>rq_tail := t\<rparr>) = drop nr (rq_elems q)" by simp_all
  have s': "s' = upd_k k (\<lambda>kt. kt\<lparr>krq := q1\<lparr>rq_tail := t\<rparr>, q_rq_tail := q_rq_tail kt + of_nat (length ths1)\<rparr>) s"
    and ths: "ths = ths1"
    using run tk by (auto simp: drain_threads_def Let_def q_def upd_k_def)
  show "ths = take nr (aq (queues_of s) k)" using ths e by (simp add: abs_sel q_def)
  have "kthread_ok ((kth s k)\<lparr>krq := q1\<lparr>rq_tail := t\<rparr>, q_rq_tail := q_rq_tail (kth s k) + of_nat (length ths1)\<rparr>)"
    using kt e of_nat_drop [of "q_rq_head (kth s k)" "q_rq_tail (kth s k)" "length (rq_elems q)" "length ths1"]
    by (auto simp: kthread_ok_def q_def min_def diff_eq_eq add.commute split: if_splits)
  then show "sched_ok s'" unfolding s' by (rule sched_ok_upd_k [OF ok])
  show "queues_of s' = (queues_of s)\<lparr>aq := (aq (queues_of s))(k := drop nr (aq (queues_of s) k))\<rparr>"
    unfolding s' using e by (simp add: abs_upd_krq abs_sel q_def)
  show "thr s' = thr s" "j \<noteq> k \<Longrightarrow> kth s' j = kth s j" by (simp_all add: s')
qed

text \<open>Draining the whole local queue without moving its tail leaves an empty overflow list.\<close>

lemma drain_threads_local:
  assumes ok: "sched_ok s" and run: "drain_threads k nr False s = (ths, s')"
    and nr: "nr = length (aq (queues_of s) k)"
  shows "ths = aq (queues_of s) k" and "thr s' = thr s" and "j \<noteq> k \<Longrightarrow> kth s' j = kth s j"
    and "\<exists>q. kth s' k = (kth s k)\<lparr>krq := q\<rparr> \<and> rq_overflow q = [] \<and> length (ring q) = 32"
proof -
  define q where "q = krq (kth s k)"
  obtain ths1 t q1 where tk: "rq_take nr (rq_tail q) q = (ths1, t, q1)" by (metis prod_cases3)
  have kt: "kthread_ok (kth s k)" by (rule sched_okD [OF ok])
  have "rq_ok (q\<lparr>rq_tail := rq_tail q\<rparr>)" using kt by (simp add: q_def kthread_ok_def)
  from rq_take_elems [OF this tk] have e: "ths1 = take nr (rq_elems q)"
    "rq_elems (q1\<lparr>rq_tail := t\<rparr>) = drop nr (rq_elems q)" "ring q1 = ring q" by simp_all
  have s': "s' = upd_k k (\<lambda>kt. kt\<lparr>krq := q1\<rparr>) s" and ths: "ths = ths1"
    using run tk by (auto simp: drain_threads_def Let_def q_def)
  show "ths = aq (queues_of s) k" using ths e nr by (simp add: abs_sel q_def)
  have "rq_overflow q1 = []" using e(2) nr by (simp add: rq_elems_def abs_sel q_def)
  moreover have "length (ring q1) = 32" using e(3) kt by (simp add: q_def kthread_ok_def rq_ok_def)
  ultimately show "\<exists>q. kth s' k = (kth s k)\<lparr>krq := q\<rparr> \<and> rq_overflow q = [] \<and> length (ring q) = 32"
    by (intro exI [of _ q1]) (simp add: s')
  show "thr s' = thr s" "j \<noteq> k \<Longrightarrow> kth s' j = kth s j" by (simp_all add: s')
qed

lemma rq_reset:
  assumes "length (ring q) = 32" and "rq_overflow q = []"
  shows "rq_ok (q\<lparr>rq_head := h, rq_tail := h\<rparr>)" and "rq_packed (q\<lparr>rq_head := h, rq_tail := h\<rparr>)"
    and "rq_elems (q\<lparr>rq_head := h, rq_tail := h\<rparr>) = []"
  using assms by (simp_all add: rq_ok_def rq_packed_def rq_elems_def rq_window_def rq_len_def)

lemma merge_runqueues_abs:
  fixes n :: nat
  assumes ok: "sched_ok s" and lr: "l \<noteq> r" and lsize: "lsize = length (aq (queues_of s) l)"
  defines "s' \<equiv> merge_runqueues l lsize r n s"
  shows "sched_ok s'" and "queues_of s' = a_steal (\<lambda>t. ready_tsc (thr s t)) l r n (queues_of s)"
    and "rq_packed (krq (kth s' l))"
proof -
  obtain r_ths s1 where d1: "drain_threads r n True s = (r_ths, s1)" by fastforce
  note v = drain_threads_victim [OF ok d1]
  define s2 where "s2 = update_oldest_tsc r s1"
  have s2: "sched_ok s2" "queues_of s2 = queues_of s1" "thr s2 = thr s" using v by (simp_all add: s2_def)
  obtain l_ths s3 where d2: "drain_threads l lsize False s2 = (l_ths, s3)" by fastforce
  have "lsize = length (aq (queues_of s2) l)" using s2 v lr lsize by simp
  note w = drain_threads_local [OF s2(1) d2 this]
  obtain q where q: "kth s3 l = (kth s2 l)\<lparr>krq := q\<rparr>" "rq_overflow q = []" "length (ring q) = 32" using w(4) by blast
  define ths where "ths = merge_by (\<lambda>t. ready_tsc (thr s t)) r_ths l_ths"
  define q4 where "q4 = rq_insert_all ths (q\<lparr>rq_head := 0, rq_tail := 0\<rparr>)"
  have q4: "rq_ok q4" "rq_elems q4 = ths" "rq_packed q4"
    using rq_insert_all_elems [OF rq_reset(1,2) [OF q(3,2)], of ths 0] rq_reset(3) [OF q(3,2), of 0]
    by (simp_all add: q4_def)
  define s4 where "s4 = upd_k l (\<lambda>kt. kt\<lparr>krq := q4, q_rq_head := q_rq_head kt + of_nat (length r_ths)\<rparr>) s3"
  have s': "s' = update_oldest_tsc l s4"
    using d1 d2 q w(2) s2(3) by (simp add: s'_def merge_runqueues_def Let_def s2_def s4_def q4_def ths_def)
  have lths: "l_ths = aq (queues_of s) l" and rths: "r_ths = take n (aq (queues_of s) r)"
    using w(1) s2 v lr by simp_all
  have kl: "kthread_ok (kth s2 l)" by (rule sched_okD [OF s2(1)])
  have "length (rq_elems (krq (kth s2 l))) = length l_ths" using s2 v lr lths by (simp add: abs_sel [symmetric])
  then have "kthread_ok (kth s4 l)"
    using kl q4 q by (simp add: s4_def kthread_ok_def ths_def length_merge_by algebra_simps)
  moreover have "kthread_ok (kth s4 j)" if "j \<noteq> l" for j
    using that w(3) [OF that] sched_okD [OF s2(1), of j] by (simp add: s4_def)
  ultimately have "sched_ok s4" by (metis sched_ok_def)
  then show "sched_ok s'" by (simp add: s')
  show "rq_packed (krq (kth s' l))" using q4 by (simp add: s' s4_def)
  have "krq (kth s4 j) = (if j = l then q4 else krq (kth s2 j))" "kprq (kth s4 j) = kprq (kth s2 j)" for j
    using w(3) [of j] q by (auto simp: s4_def)
  then have "queues_of s4 = (queues_of s2)\<lparr>aq := (aq (queues_of s2))(l := ths)\<rparr>"
    using q4(2) s2(3) w(2) by (auto simp: queues_of_def s4_def fun_eq_iff)
  then show "queues_of s' = a_steal (\<lambda>t. ready_tsc (thr s t)) l r n (queues_of s)"
    using s2 v lr by (simp add: s' a_steal_def ths_def lths rths)
qed

end
