(* ===== verification/Sched_Machine.thy ===== *)
theory Sched_Machine
  imports Sched
begin

text \<open>
  Correctness of the scheduler of \<open>runtime/sched.c\<close>: every operation on the run queues is a
  sequence of the elementary moves \<open>a_step\<close> on lists of threads, and the moves keep every
  ready thread in exactly one queue.
\<close>

subsection \<open>Stealing preempted threads\<close>

lemma drain_preempted_threads_victim:
  assumes ok: "sched_ok s" and run: "drain_preempted_threads k nr True s = (ths, s')"
  shows "sched_ok s'" and "ths = take nr (ap (queues_of s) k)" and "thr s' = thr s"
    and "queues_of s' = (queues_of s)\<lparr>ap := (ap (queues_of s))(k := drop nr (ap (queues_of s) k))\<rparr>"
    and "j \<noteq> k \<Longrightarrow> kth s' j = kth s j"
proof -
  define q where "q = kprq (kth s k)"
  obtain ths1 t q1 where tk: "rq_take nr (rq_tail q) q = (ths1, t, q1)" by (metis prod_cases3)
  have kt: "kthread_ok (kth s k)" by (rule sched_okD [OF ok])
  have "rq_ok (q\<lparr>rq_tail := rq_tail q\<rparr>)" using kt by (simp add: q_def kthread_ok_def)
  from rq_take_elems [OF this tk] have e: "ths1 = take nr (rq_elems q)" "rq_ok (q1\<lparr>rq_tail := t\<rparr>)"
    "rq_elems (q1\<lparr>rq_tail := t\<rparr>) = drop nr (rq_elems q)" by simp_all
  have s': "s' = upd_k k (\<lambda>kt. kt\<lparr>kprq := q1\<lparr>rq_tail := t\<rparr>, q_prq_tail := q_prq_tail kt + of_nat (length ths1)\<rparr>) s"
    and ths: "ths = ths1"
    using run tk by (auto simp: drain_preempted_threads_def Let_def q_def upd_k_def)
  show "ths = take nr (ap (queues_of s) k)" using ths e by (simp add: abs_sel q_def)
  have "kthread_ok ((kth s k)\<lparr>kprq := q1\<lparr>rq_tail := t\<rparr>, q_prq_tail := q_prq_tail (kth s k) + of_nat (length ths1)\<rparr>)"
    using kt e of_nat_drop [of "q_prq_head (kth s k)" "q_prq_tail (kth s k)" "length (rq_elems q)" "length ths1"]
    by (auto simp: kthread_ok_def q_def min_def diff_eq_eq add.commute split: if_splits)
  then show "sched_ok s'" unfolding s' by (rule sched_ok_upd_k [OF ok])
  show "queues_of s' = (queues_of s)\<lparr>ap := (ap (queues_of s))(k := drop nr (ap (queues_of s) k))\<rparr>"
    unfolding s' using e by (simp add: abs_upd_kprq abs_sel q_def)
  show "thr s' = thr s" "j \<noteq> k \<Longrightarrow> kth s' j = kth s j" by (simp_all add: s')
qed

lemma drain_preempted_threads_local:
  assumes ok: "sched_ok s" and run: "drain_preempted_threads k nr False s = (ths, s')"
    and nr: "nr = length (ap (queues_of s) k)"
  shows "ths = ap (queues_of s) k" and "thr s' = thr s" and "j \<noteq> k \<Longrightarrow> kth s' j = kth s j"
    and "\<exists>q. kth s' k = (kth s k)\<lparr>kprq := q\<rparr> \<and> rq_overflow q = [] \<and> length (ring q) = 32"
proof -
  define q where "q = kprq (kth s k)"
  obtain ths1 t q1 where tk: "rq_take nr (rq_tail q) q = (ths1, t, q1)" by (metis prod_cases3)
  have kt: "kthread_ok (kth s k)" by (rule sched_okD [OF ok])
  have "rq_ok (q\<lparr>rq_tail := rq_tail q\<rparr>)" using kt by (simp add: q_def kthread_ok_def)
  from rq_take_elems [OF this tk] have e: "ths1 = take nr (rq_elems q)"
    "rq_elems (q1\<lparr>rq_tail := t\<rparr>) = drop nr (rq_elems q)" "ring q1 = ring q" by simp_all
  have s': "s' = upd_k k (\<lambda>kt. kt\<lparr>kprq := q1\<rparr>) s" and ths: "ths = ths1"
    using run tk by (auto simp: drain_preempted_threads_def Let_def q_def)
  show "ths = ap (queues_of s) k" using ths e nr by (simp add: abs_sel q_def)
  have "rq_overflow q1 = []" using e(2) nr by (simp add: rq_elems_def abs_sel q_def)
  moreover have "length (ring q1) = 32" using e(3) kt by (simp add: q_def kthread_ok_def rq_ok_def)
  ultimately show "\<exists>q. kth s' k = (kth s k)\<lparr>kprq := q\<rparr> \<and> rq_overflow q = [] \<and> length (ring q) = 32"
    by (intro exI [of _ q1]) (simp add: s')
  show "thr s' = thr s" "j \<noteq> k \<Longrightarrow> kth s' j = kth s j" by (simp_all add: s')
qed

lemma rq_packed_nonempty: "rq_packed q \<Longrightarrow> rq_elems q \<noteq> [] \<Longrightarrow> rq_head q \<noteq> rq_tail q"
  by (auto simp: rq_nonempty rq_packed_def rq_elems_def rq_window_def)

lemma merge_preempted_runqueues_abs:
  fixes n :: nat
  assumes ok: "sched_ok s" and lr: "l \<noteq> r" and lsize: "lsize = length (ap (queues_of s) l)"
  defines "s' \<equiv> merge_preempted_runqueues l lsize r n s"
  shows "sched_ok s'" and "queues_of s' = a_steal_preempted l r n (queues_of s)" and "rq_packed (kprq (kth s' l))"
proof -
  obtain r_ths s2 where d1: "drain_preempted_threads r n True s = (r_ths, s2)" by fastforce
  note v = drain_preempted_threads_victim [OF ok d1]
  obtain l_ths s3 where d2: "drain_preempted_threads l lsize False s2 = (l_ths, s3)" by fastforce
  have "lsize = length (ap (queues_of s2) l)" using v lr lsize by simp
  note w = drain_preempted_threads_local [OF v(1) d2 this]
  obtain q where q: "kth s3 l = (kth s2 l)\<lparr>kprq := q\<rparr>" "rq_overflow q = []" "length (ring q) = 32" using w(4) by blast
  define ths where "ths = r_ths @ l_ths"
  define q4 where "q4 = rq_insert_all ths (q\<lparr>rq_head := 0x7FFFFFFF, rq_tail := 0x7FFFFFFF\<rparr>)"
  have q4: "rq_ok q4" "rq_packed q4" "rq_elems q4 = ths"
    using rq_insert_all_elems [OF rq_reset(1,2) [OF q(3,2)], of ths] rq_reset(3) [OF q(3,2)]
    by (simp_all add: q4_def)
  have s': "s' = upd_k l (\<lambda>kt. kt\<lparr>kprq := q4, q_prq_head := q_prq_head kt + of_nat (length r_ths)\<rparr>) s3"
    using d1 d2 q w(2) v(3) by (simp add: s'_def merge_preempted_runqueues_def Let_def q4_def ths_def)
  have lths: "l_ths = ap (queues_of s) l" and rths: "r_ths = take n (ap (queues_of s) r)"
    using w(1) v lr by simp_all
  have kl: "kthread_ok (kth s2 l)" by (rule sched_okD [OF v(1)])
  have "length (rq_elems (kprq (kth s2 l))) = length l_ths" using v lr lths by (simp add: abs_sel [symmetric])
  then have "kthread_ok (kth s' l)"
    using kl q4 q by (simp add: s' kthread_ok_def ths_def algebra_simps)
  moreover have "kthread_ok (kth s' j)" if "j \<noteq> l" for j
    using that w(3) [OF that] sched_okD [OF v(1), of j] by (simp add: s')
  ultimately show "sched_ok s'" by (metis sched_ok_def)
  have "kprq (kth s' j) = (if j = l then q4 else kprq (kth s2 j))" "krq (kth s' j) = krq (kth s2 j)" for j
    using w(3) [of j] q by (auto simp: s')
  then have "queues_of s' = (queues_of s2)\<lparr>ap := (ap (queues_of s2))(l := ths)\<rparr>"
    using q4(3) v(3) w(2) by (auto simp: queues_of_def s' fun_eq_iff)
  then show "queues_of s' = a_steal_preempted l r n (queues_of s)"
    using v lr by (simp add: a_steal_preempted_def ths_def lths rths)
  show "rq_packed (kprq (kth s' l))" using q4 by (simp add: s')
qed

subsection \<open>The elementary moves\<close>

text \<open>
  What the scheduler does to the queues: a thread that is not ready enters a queue, threads
  change queues by stealing, and the first thread of a queue is picked and stops being ready.
\<close>

definition a_pick :: "nat \<Rightarrow> aqueues \<Rightarrow> aqueues" where
  "a_pick k a = a\<lparr>aq := (aq a)(k := tl (aq a k)), aready := (aready a)(hd (aq a k) := False)\<rparr>"

definition a_pick_preempted :: "nat \<Rightarrow> aqueues \<Rightarrow> aqueues" where
  "a_pick_preempted k a = a\<lparr>ap := (ap a)(k := tl (ap a k)), aready := (aready a)(hd (ap a k) := False)\<rparr>"

inductive a_step :: "aqueues \<Rightarrow> aqueues \<Rightarrow> bool" where
  ready: "\<not> aready a th \<Longrightarrow> a_step a (a_ready k th a)"
| ready_head: "\<not> aready a th \<Longrightarrow> a_step a (a_ready_head k th a)"
| preempt: "\<not> aready a th \<Longrightarrow> a_step a (a_preempt k th a)"
| steal: "l \<noteq> r \<Longrightarrow> a_step a (a_steal f l r n a)"
| steal_preempted: "l \<noteq> r \<Longrightarrow> a_step a (a_steal_preempted l r n a)"
| pick: "aq a k \<noteq> [] \<Longrightarrow> a_step a (a_pick k a)"
| pick_preempted: "ap a k \<noteq> [] \<Longrightarrow> a_step a (a_pick_preempted k a)"

text \<open>Every ready thread is in one place of one queue, and only ready threads are.\<close>

definition in_queue :: "aqueues \<Rightarrow> nat \<Rightarrow> tid set" where
  "in_queue a k = set (aq a k) \<union> set (ap a k)"

definition a_inv :: "aqueues \<Rightarrow> bool" where
  "a_inv a \<longleftrightarrow>
     (\<forall>k. distinct (aq a k @ ap a k)) \<and>
     (\<forall>j k. j \<noteq> k \<longrightarrow> in_queue a j \<inter> in_queue a k = {}) \<and>
     (\<forall>t. aready a t \<longleftrightarrow> (\<exists>k. t \<in> in_queue a k))"

text \<open>A move that only adds, removes or permutes at most two queues.\<close>

lemma distinct_merge_by: "distinct (merge_by f xs ys) \<longleftrightarrow> distinct (xs @ ys)"
proof -
  have "mset (merge_by f xs ys) = mset (xs @ ys)" by (simp add: mset_merge_by)
  then show ?thesis by (rule mset_eq_imp_distinct_iff)
qed

lemma a_inv_add:
  assumes inv: "a_inv a" and nr: "\<not> aready a th"
    and q: "\<And>j. in_queue b j = (if j = k then insert th (in_queue a k) else in_queue a j)"
    and d: "\<And>j. distinct (aq b j @ ap b j) \<longleftrightarrow> (if j = k then distinct (th # aq a k @ ap a k) else distinct (aq a j @ ap a j))"
    and r: "aready b = (aready a)(th := True)"
  shows "a_inv b"
proof -
  have th: "th \<notin> in_queue a j" for j using inv nr by (auto simp: a_inv_def)
  have "distinct (aq b j @ ap b j)" for j
    using inv th [of k] unfolding d by (auto simp: a_inv_def in_queue_def)
  moreover have "j \<noteq> i \<Longrightarrow> in_queue b j \<inter> in_queue b i = {}" for i j
    using inv th [of i] th [of j] unfolding q by (simp add: a_inv_def)
  moreover have "aready b t \<longleftrightarrow> (\<exists>j. t \<in> in_queue b j)" for t
    using inv unfolding r q by (auto simp: a_inv_def split: if_splits)
  ultimately show ?thesis unfolding a_inv_def by blast
qed

lemma a_inv_remove:
  assumes inv: "a_inv a" and th: "th \<in> in_queue a k"
    and q: "\<And>j. in_queue b j = (if j = k then in_queue a k - {th} else in_queue a j)"
    and d: "\<And>j. distinct (aq a j @ ap a j) \<Longrightarrow> distinct (aq b j @ ap b j)"
    and r: "aready b = (aready a)(th := False)"
  shows "a_inv b"
proof -
  have dis: "j \<noteq> i \<Longrightarrow> in_queue a j \<inter> in_queue a i = {}" for i j using inv by (simp add: a_inv_def)
  have th': "j \<noteq> k \<Longrightarrow> th \<notin> in_queue a j" for j using dis [of j k] th by blast
  have "distinct (aq b j @ ap b j)" for j using inv d by (simp add: a_inv_def)
  moreover have "j \<noteq> i \<Longrightarrow> in_queue b j \<inter> in_queue b i = {}" for i j
    using dis [of j i] unfolding q by auto
  moreover have "aready b t \<longleftrightarrow> (\<exists>j. t \<in> in_queue b j)" for t
  proof -
    have "(\<exists>j. t \<in> in_queue b j) \<longleftrightarrow> t \<noteq> th \<and> (\<exists>j. t \<in> in_queue a j)"
      using th' unfolding q by (metis Diff_iff singletonD singletonI)
    then show ?thesis using inv by (simp add: r a_inv_def)
  qed
  ultimately show ?thesis unfolding a_inv_def by blast
qed

lemma a_inv_move:
  assumes inv: "a_inv a" and lr: "l \<noteq> r" and m: "m \<subseteq> in_queue a r"
    and q: "\<And>j. in_queue b j = (if j = l then in_queue a l \<union> m else if j = r then in_queue a r - m else in_queue a j)"
    and d: "\<And>j. distinct (aq b j @ ap b j)"
    and r: "aready b = aready a"
  shows "a_inv b"
proof -
  have dis: "j \<noteq> i \<Longrightarrow> in_queue a j \<inter> in_queue a i = {}" for i j using inv by (simp add: a_inv_def)
  have "j \<noteq> i \<Longrightarrow> in_queue b j \<inter> in_queue b i = {}" for i j
    using dis [of j i] dis [of r i] dis [of r j] lr m unfolding q by auto
  moreover have "aready b t \<longleftrightarrow> (\<exists>j. t \<in> in_queue b j)" for t
  proof -
    have "(\<Union>j. in_queue b j) = (\<Union>j. in_queue a j)" using lr m unfolding q by (auto split: if_splits)
    then have "(\<exists>j. t \<in> in_queue b j) \<longleftrightarrow> (\<exists>j. t \<in> in_queue a j)" by blast
    then show ?thesis using inv by (simp add: r a_inv_def)
  qed
  ultimately show ?thesis using d unfolding a_inv_def by blast
qed

lemma set_drop_take:
  assumes "distinct xs"
  shows "set (drop n xs) = set xs - set (take n xs)"
proof -
  have "distinct (take n xs @ drop n xs)" "set xs = set (take n xs @ drop n xs)" using assms by simp_all
  then show ?thesis unfolding distinct_append set_append by blast
qed

lemma a_steal_inv:
  assumes inv: "a_inv a" and lr: "l \<noteq> r"
  shows "a_inv (a_steal f l r n a)"
proof -
  define m where "m = take n (aq a r)"
  have dis: "distinct (aq a j)" "distinct (ap a j)" "set (aq a j) \<inter> set (ap a j) = {}" for j
    using inv by (auto simp: a_inv_def)
  have lrd: "in_queue a l \<inter> in_queue a r = {}" using inv lr by (simp add: a_inv_def)
  have ms: "set m \<subseteq> set (aq a r)" "distinct m" using dis(1) [of r] by (simp_all add: m_def set_take_subset)
  have dr: "set (drop n (aq a r)) = set (aq a r) - set m" using set_drop_take [OF dis(1)] by (simp add: m_def)
  have q: "aq (a_steal f l r n a) = (aq a)(r := drop n (aq a r), l := merge_by f m (aq a l))"
    "ap (a_steal f l r n a) = ap a" "aready (a_steal f l r n a) = aready a"
    by (simp_all add: a_steal_def m_def)
  have "set m \<inter> (set (aq a l) \<union> set (ap a l)) = {}" using lrd ms by (auto simp: in_queue_def)
  then have d: "distinct (aq (a_steal f l r n a) j @ ap (a_steal f l r n a) j)" for j
    using dis [of j] dis [of r] dr ms lr unfolding q by (simp add: distinct_drop distinct_merge_by set_merge_by) blast
  have "in_queue (a_steal f l r n a) j = (if j = l then in_queue a l \<union> set m
      else if j = r then in_queue a r - set m else in_queue a j)" for j
    using dr dis(3) [of r] ms(1) lr unfolding in_queue_def q by (auto simp: set_merge_by)
  moreover have "set m \<subseteq> in_queue a r" using ms(1) by (auto simp: in_queue_def)
  ultimately show ?thesis using q(3) by (intro a_inv_move [OF inv lr _ _ d])
qed

lemma a_steal_preempted_inv:
  assumes inv: "a_inv a" and lr: "l \<noteq> r"
  shows "a_inv (a_steal_preempted l r n a)"
proof -
  define m where "m = take n (ap a r)"
  have dis: "distinct (aq a j)" "distinct (ap a j)" "set (aq a j) \<inter> set (ap a j) = {}" for j
    using inv by (auto simp: a_inv_def)
  have lrd: "in_queue a l \<inter> in_queue a r = {}" using inv lr by (simp add: a_inv_def)
  have ms: "set m \<subseteq> set (ap a r)" "distinct m" using dis(2) [of r] by (simp_all add: m_def set_take_subset)
  have dr: "set (drop n (ap a r)) = set (ap a r) - set m" using set_drop_take [OF dis(2)] by (simp add: m_def)
  have q: "ap (a_steal_preempted l r n a) = (ap a)(r := drop n (ap a r), l := m @ ap a l)"
    "aq (a_steal_preempted l r n a) = aq a" "aready (a_steal_preempted l r n a) = aready a"
    by (simp_all add: a_steal_preempted_def m_def)
  have "set m \<inter> (set (aq a l) \<union> set (ap a l)) = {}" using lrd ms by (auto simp: in_queue_def)
  then have d: "distinct (aq (a_steal_preempted l r n a) j @ ap (a_steal_preempted l r n a) j)" for j
    using dis [of j] dis [of r] dr ms lr unfolding q by (simp add: distinct_drop) blast
  have "in_queue (a_steal_preempted l r n a) j = (if j = l then in_queue a l \<union> set m
      else if j = r then in_queue a r - set m else in_queue a j)" for j
    using dr dis(3) [of r] ms(1) lr unfolding in_queue_def q by auto
  moreover have "set m \<subseteq> in_queue a r" using ms(1) by (auto simp: in_queue_def)
  ultimately show ?thesis using q(3) by (intro a_inv_move [OF inv lr _ _ d])
qed

lemma a_pick_inv:
  assumes inv: "a_inv a" and ne: "aq a k = th # ths"
  shows "a_inv (a_pick k a)"
proof (rule a_inv_remove [OF inv, of th k])
  have "distinct (aq a k @ ap a k)" using inv by (simp add: a_inv_def)
  then have d: "distinct ths" "th \<notin> set ths" "th \<notin> set (ap a k)" by (simp_all add: ne)
  show "th \<in> in_queue a k" by (simp add: in_queue_def ne)
  show "in_queue (a_pick k a) j = (if j = k then in_queue a k - {th} else in_queue a j)" for j
    using d ne by (auto simp: in_queue_def a_pick_def)
  show "distinct (aq a j @ ap a j) \<Longrightarrow> distinct (aq (a_pick k a) j @ ap (a_pick k a) j)" for j
    by (cases "j = k") (simp_all add: a_pick_def ne)
  show "aready (a_pick k a) = (aready a)(th := False)" by (simp add: a_pick_def ne)
qed

lemma a_pick_preempted_inv:
  assumes inv: "a_inv a" and ne: "ap a k = th # ths"
  shows "a_inv (a_pick_preempted k a)"
proof (rule a_inv_remove [OF inv, of th k])
  have "distinct (aq a k @ ap a k)" using inv by (simp add: a_inv_def)
  then have d: "distinct ths" "th \<notin> set ths" "th \<notin> set (aq a k)" by (simp_all add: ne)
  show "th \<in> in_queue a k" by (simp add: in_queue_def ne)
  show "in_queue (a_pick_preempted k a) j = (if j = k then in_queue a k - {th} else in_queue a j)" for j
    using d ne by (auto simp: in_queue_def a_pick_preempted_def)
  show "distinct (aq a j @ ap a j) \<Longrightarrow> distinct (aq (a_pick_preempted k a) j @ ap (a_pick_preempted k a) j)" for j
    by (cases "j = k") (simp_all add: a_pick_preempted_def ne)
  show "aready (a_pick_preempted k a) = (aready a)(th := False)" by (simp add: a_pick_preempted_def ne)
qed

lemma a_ready_inv:
  assumes "a_inv a" and "\<not> aready a th"
  shows "a_inv (a_ready k th a)" and "a_inv (a_ready_head k th a)" and "a_inv (a_preempt k th a)"
proof -
  show "a_inv (a_ready k th a)"
    by (rule a_inv_add [OF assms, of _ k]) (simp_all add: a_ready_def in_queue_def, blast)
  show "a_inv (a_ready_head k th a)"
    by (rule a_inv_add [OF assms, of _ k]) (simp_all add: a_ready_head_def in_queue_def, blast)
  show "a_inv (a_preempt k th a)"
    by (rule a_inv_add [OF assms, of _ k]) (simp_all add: a_preempt_def in_queue_def, blast)
qed

lemma a_step_inv: "a_step a b \<Longrightarrow> a_inv a \<Longrightarrow> a_inv b"
proof (induction rule: a_step.induct)
  case (pick a k)
  then show ?case by (cases "aq a k") (simp_all add: a_pick_inv)
next
  case (pick_preempted a k)
  then show ?case by (cases "ap a k") (simp_all add: a_pick_preempted_inv)
qed (simp_all add: a_ready_inv a_steal_inv a_steal_preempted_inv)

lemma a_steps_inv: "a_step\<^sup>*\<^sup>* a b \<Longrightarrow> a_inv a \<Longrightarrow> a_inv b"
  by (induction rule: rtranclp_induct) (simp_all add: a_step_inv)

subsection \<open>Operations as moves\<close>

text \<open>A kthread has a thread in one of its rings, ready to be picked.\<close>

definition runnable :: "nat \<Rightarrow> sched \<Rightarrow> bool" where
  "runnable l s \<longleftrightarrow> rq_head (krq (kth s l)) \<noteq> rq_tail (krq (kth s l)) \<or>
     rq_head (kprq (kth s l)) \<noteq> rq_tail (kprq (kth s l))"

text \<open>What an operation that may find work for the kthread \<open>l\<close> guarantees.\<close>

definition same_queues :: "sched \<Rightarrow> sched \<Rightarrow> bool" where
  "same_queues s s' \<longleftrightarrow> thr s' = thr s \<and> (\<forall>k. krq (kth s' k) = krq (kth s k) \<and> kprq (kth s' k) = kprq (kth s k))"

definition finds_work :: "nat \<Rightarrow> sched \<Rightarrow> bool \<times> sched \<Rightarrow> bool" where
  "finds_work l s r \<longleftrightarrow>
     sched_ok (snd r) \<and> a_step\<^sup>*\<^sup>* (queues_of s) (queues_of (snd r)) \<and>
     (if fst r then runnable l (snd r) else same_queues s (snd r))"

lemma rq_push_front_nonempty: "rq_ok q \<Longrightarrow> rq_head (rq_push_front th q) \<noteq> rq_tail (rq_push_front th q)"
proof -
  assume ok: "rq_ok q"
  define d where "d = rq_head q - rq_tail q"
  have d: "unat d \<le> 32" using ok by (simp add: d_def rq_ok_def rq_len_def)
  have "unat (d + 1) = Suc (unat d)" using d by (intro unat_Suc_small) simp
  moreover have "rq_head q - (rq_tail q - 1) = d + 1" by (simp add: d_def)
  ultimately have e: "unat (rq_head q - (rq_tail q - 1)) = Suc (unat d)" by (simp only:)
  show ?thesis
  proof
    assume a: "rq_head (rq_push_front th q) = rq_tail (rq_push_front th q)"
    show False
    proof (cases "rq_head q - (rq_tail q - 1) > RUNTIME_RQ_SIZE")
      case True
      then have "rq_head q - 1 = rq_tail q - 1" using a by (simp add: rq_push_front_def Let_def)
      then have "d = 0" by (simp add: d_def)
      then show False using True e by (simp add: RUNTIME_RQ_SIZE_def word_less_nat_alt)
    next
      case False
      then have "rq_head q = rq_tail q - 1" using a by (simp add: rq_push_front_def Let_def)
      then show False using e by simp
    qed
  qed
qed

lemma ready_at_head_runnable: "sched_ok s \<Longrightarrow> runnable k (ready_at_head k th s)"
  using sched_okD [of s k] rq_push_front_nonempty [of "krq (kth s k)" th]
  by (auto simp: ready_at_head_def Let_def runnable_def kthread_ok_def)

lemma thread_ready_head_locked_runnable:
  assumes "sched_ok s" and "thread_ready_head_locked k th now s = Inr s'"
  shows "runnable k s'"
proof -
  define s0 where "s0 = upd_t th (\<lambda>t. t\<lparr>preempted := False\<rparr>) s"
  obtain s1 where p: "thread_ready_prepare th now s0 = Inr s1" and s': "s' = ready_at_head k th s1"
    using assms(2) by (auto simp: thread_ready_head_locked_def Let_def s0_def bind_exec_eq_Inr)
  have "sched_ok s1" using thread_ready_prepare_abs(3) [OF p] assms(1) by (simp add: s0_def)
  then show ?thesis unfolding s' by (rule ready_at_head_runnable)
qed

text \<open>One of the three checks of \<open>softirq_run_locked\<close>.\<close>

lemma softirq_check:
  assumes ok: "sched_ok s" and b: "\<And>kt. krq (b kt) = krq kt" "\<And>kt. kprq (b kt) = kprq kt" "\<And>kt. kthread_ok (b kt) = kthread_ok kt"
    and run: "(if c then let s = upd_k k b s in bind_exec (thread_ready_head_locked l (th (kth s k)) now s) (\<lambda>s. Inr (True, s))
               else Inr (False, s)) = Inr (w, s')"
  shows "finds_work l s (w, s')"
proof (cases c)
  case True
  define s0 where "s0 = upd_k k b s"
  have r: "thread_ready_head_locked l (th (kth s0 k)) now s0 = Inr s'" "w"
    using run True by (auto simp: Let_def s0_def bind_exec_eq_Inr)
  have "sched_ok s0" using sched_okD [OF ok] b by (simp add: s0_def sched_ok_upd_k [OF ok])
  moreover have "queues_of s0 = queues_of s" unfolding s0_def by (rule abs_upd_k_same) (simp_all add: b)
  ultimately show ?thesis
    using thread_ready_head_locked_abs [OF _ r(1)] thread_ready_head_locked_runnable [OF _ r(1)] r(2)
    by (auto simp: finds_work_def intro: a_step.ready_head)
qed (use ok run in \<open>simp add: finds_work_def same_queues_def\<close>)

lemma same_queues_abs: "same_queues s s' \<Longrightarrow> queues_of s' = queues_of s \<and> runnable l s' = runnable l s"
  by (simp add: same_queues_def queues_of_def runnable_def)

lemma finds_work_seq:
  assumes a: "finds_work l s (w1, s1)" and b: "finds_work l s1 (w2, s2)"
  shows "finds_work l s (w1 \<or> w2, s2)"
proof -
  have "a_step\<^sup>*\<^sup>* (queues_of s) (queues_of s2)" "sched_ok s2"
    using a b by (auto simp: finds_work_def intro: rtranclp_trans)
  moreover have "runnable l s2" if "w1 \<or> w2"
    using a b that same_queues_abs [of s1 s2 l] by (cases w2) (auto simp: finds_work_def)
  moreover have "same_queues s s2" if "\<not> (w1 \<or> w2)"
    using a b that by (auto simp: finds_work_def same_queues_def)
  ultimately show ?thesis by (auto simp: finds_work_def)
qed

lemma finds_work_upd_k:
  assumes "finds_work l s (w, s')" and "\<And>kt. krq (b kt) = krq kt" "\<And>kt. kprq (b kt) = kprq kt"
    and "\<And>kt. kthread_ok (b kt) = kthread_ok kt"
  shows "finds_work l s (w, upd_k k b s')"
proof -
  have "same_queues s' (upd_k k b s')" using assms(2,3) by (simp add: same_queues_def)
  moreover have "sched_ok (upd_k k b s')"
    using assms(1,4) sched_okD [of s'] by (auto simp: finds_work_def intro: sched_ok_upd_k)
  ultimately have "finds_work l s' (False, upd_k k b s')"
    using same_queues_abs [of s' "upd_k k b s'"] by (simp add: finds_work_def)
  from finds_work_seq [OF assms(1) this] show ?thesis by simp
qed

lemma bind_exec_pair: "bind_exec m (\<lambda>(x, y). f x y) = Inr r \<longleftrightarrow> (\<exists>x y. m = Inr (x, y) \<and> f x y = Inr r)"
  by (auto simp: bind_exec_eq_Inr)

lemma softirq_run_locked_finds:
  assumes ok: "sched_ok s" and run: "softirq_run_locked me k o1 now s = Inr (w, s')"
  shows "finds_work me s (w, s')"
proof -
  obtain w1 s1 w2 s2 w3 s3 where
    r1: "(if \<not> iokernel_busy (kth s k) \<and> so_iokernel o1
        then let s = upd_k k (\<lambda>kt. kt\<lparr>iokernel_busy := True\<rparr>) s
             in bind_exec (thread_ready_head_locked me (iokernel_softirq (kth s k)) now s) (\<lambda>s. Inr (True, s))
        else Inr (False, s)) = Inr (w1, s1)" and
    r2: "(if \<not> k_timer_busy (kth s1 k) \<and> so_timer o1
        then let s = upd_k k (\<lambda>kt. kt\<lparr>k_timer_busy := True\<rparr>) s1
             in bind_exec (thread_ready_head_locked me (timer_softirq_th (kth s k)) now s) (\<lambda>s. Inr (True, s))
        else Inr (False, s1)) = Inr (w2, s2)" and
    r3: "(if \<not> storage_busy (kth s2 k) \<and> so_storage o1
        then let s = upd_k k (\<lambda>kt. kt\<lparr>storage_busy := True\<rparr>) s2
             in bind_exec (thread_ready_head_locked me (storage_softirq (kth s k)) now s) (\<lambda>s. Inr (True, s))
        else Inr (False, s2)) = Inr (w3, s3)" and
    r: "w = (w1 \<or> w2 \<or> w3)" "s' = upd_k k (\<lambda>kt. kt\<lparr>last_softirq_tsc := now\<rparr>) s3"
    using run unfolding softirq_run_locked_def bind_exec_pair sum.inject prod.inject by blast
  have f1: "finds_work me s (w1, s1)" by (rule softirq_check [OF ok _ _ _ r1]) (simp_all add: kthread_ok_def)
  then have "sched_ok s1" by (simp add: finds_work_def)
  then have f2: "finds_work me s1 (w2, s2)" by (rule softirq_check [OF _ _ _ _ r2]) (simp_all add: kthread_ok_def)
  then have "sched_ok s2" by (simp add: finds_work_def)
  then have f3: "finds_work me s2 (w3, s3)" by (rule softirq_check [OF _ _ _ _ r3]) (simp_all add: kthread_ok_def)
  from finds_work_seq [OF finds_work_seq [OF f1 f2] f3] have "finds_work me s (w, s3)" by (simp add: r(1))
  then show ?thesis unfolding r(2) by (rule finds_work_upd_k) (simp_all add: kthread_ok_def)
qed

lemma softirq_run_finds:
  assumes ok: "sched_ok s" and run: "softirq_run k o1 now s = Inr (w, s')"
  shows "finds_work k s (w, s')"
proof -
  define s0 where "s0 = upd_k k (\<lambda>kt. kt\<lparr>last_softirq_tsc := now\<rparr>) s"
  have "finds_work k s (False, s)" using ok by (simp add: finds_work_def same_queues_def)
  then have f0: "finds_work k s (False, s0)" unfolding s0_def by (rule finds_work_upd_k) (simp_all add: kthread_ok_def)
  then have ok0: "sched_ok s0" by (simp add: finds_work_def)
  show ?thesis
  proof (cases "softirq_pending o1")
    case True
    then have "softirq_run_locked k k o1 now s0 = Inr (w, s')" using run by (simp add: softirq_run_def s0_def Let_def)
    from finds_work_seq [OF f0 softirq_run_locked_finds [OF ok0 this]] show ?thesis by simp
  next
    case False
    then show ?thesis using run f0 by (simp add: softirq_run_def s0_def Let_def)
  qed
qed

text \<open>Stealing, by a kthread whose queue lengths are below the range of the counters.\<close>

lemma num_to_steal_le: "num_to_steal a b \<noteq> 0 \<Longrightarrow> b \<noteq> 0"
  by (auto simp: num_to_steal_def)

lemma steal_work_finds:
  assumes ok: "sched_ok s" and lr: "l \<noteq> r"
    and small: "length (aq (queues_of s) l) < 2 ^ 32" "length (ap (queues_of s) l) < 2 ^ 32"
    and run: "steal_work l r o1 locked now s = Inr (w, s')"
  shows "finds_work l s (w, s')"
proof -
  have ql: "unat (q_rq_head (kth s l) - q_rq_tail (kth s l)) = length (aq (queues_of s) l)"
    "unat (q_prq_head (kth s l) - q_prq_tail (kth s l)) = length (ap (queues_of s) l)"
    using small sched_okD [OF ok, of l] by (simp_all add: kthread_ok_def abs_sel unat_of_nat)
  define n where "n = num_to_steal (q_rq_head (kth s l) - q_rq_tail (kth s l)) (q_rq_head (kth s r) - q_rq_tail (kth s r))"
  define m where "m = num_to_steal (q_prq_head (kth s l) - q_prq_tail (kth s l)) (q_prq_head (kth s r) - q_prq_tail (kth s r))"
  consider "w = False" "s' = s" | "n \<noteq> 0" "w" "s' = merge_runqueues l (length (aq (queues_of s) l)) r (unat n) s"
    | "m \<noteq> 0" "w" "s' = merge_preempted_runqueues l (length (ap (queues_of s) l)) r (unat m) s"
    | "softirq_run_locked l r o1 now s = Inr (w, s')"
    using run unfolding steal_work_def Let_def n_def [symmetric] m_def [symmetric] ql
    by (cases "\<not> work_available r o1 s \<or> \<not> locked"; cases "n = 0"; cases "m = 0") simp_all
  then show ?thesis
  proof cases
    case 1
    then show ?thesis using ok by (simp add: finds_work_def same_queues_def)
  next
    case 2
    note a = merge_runqueues_abs [OF ok lr refl, of "unat n"]
    have "aq (queues_of s) r \<noteq> []"
      using num_to_steal_le [of _ "q_rq_head (kth s r) - q_rq_tail (kth s r)"] 2(1) sched_okD [OF ok, of r]
      by (auto simp: n_def kthread_ok_def abs_sel)
    then have "rq_elems (krq (kth s' l)) \<noteq> []"
      using a(2) 2 lr unat_gt_0 [of n] set_merge_by [of "\<lambda>t. ready_tsc (thr s t)" "take (unat n) (aq (queues_of s) r)" "aq (queues_of s) l"]
      unfolding abs_sel(1) [symmetric] by (auto simp: a_steal_def)
    then have "runnable l s'" using rq_packed_nonempty a(3) 2 by (auto simp: runnable_def)
    then show ?thesis using a 2 lr by (auto simp: finds_work_def intro: a_step.steal)
  next
    case 3
    note a = merge_preempted_runqueues_abs [OF ok lr refl, of "unat m"]
    have "ap (queues_of s) r \<noteq> []"
      using num_to_steal_le [of _ "q_prq_head (kth s r) - q_prq_tail (kth s r)"] 3(1) sched_okD [OF ok, of r]
      by (auto simp: m_def kthread_ok_def abs_sel)
    then have "rq_elems (kprq (kth s' l)) \<noteq> []"
      using a(2) 3 lr unat_gt_0 [of m] unfolding abs_sel(2) [symmetric] by (auto simp: a_steal_preempted_def)
    then have "runnable l s'" using rq_packed_nonempty a(3) 3 by (auto simp: runnable_def)
    then show ?thesis using a 3 lr by (auto simp: finds_work_def intro: a_step.steal_preempted)
  next
    case 4
    then show ?thesis by (rule softirq_run_locked_finds [OF ok])
  qed
qed

subsection \<open>Picking the next thread\<close>

lemma count_pred: "(h :: u32) - t = of_nat (Suc n) \<Longrightarrow> h - (t + 1) = of_nat n"
  by (simp add: algebra_simps)

lemma drain_overflow_cond:
  "sched_ok s \<Longrightarrow> sched_ok (if c then drain_overflow l s else s) \<and>
     queues_of (if c then drain_overflow l s else s) = queues_of s"
  "sched_ok s \<Longrightarrow> sched_ok (if c then drain_preempted_overflow l s else s) \<and>
     queues_of (if c then drain_preempted_overflow l s else s) = queues_of s"
  using drain_overflow_abs [of s l] drain_preempted_overflow_abs [of s l] by simp_all

lemma upd_k_frame:
  assumes "sched_ok s" and "\<And>kt. krq (b kt) = krq kt" "\<And>kt. kprq (b kt) = kprq kt" "\<And>kt. kthread_ok (b kt) = kthread_ok kt"
  shows "sched_ok (upd_k k b s) \<and> queues_of (upd_k k b s) = queues_of s"
  using assms sched_okD [OF assms(1), of k] by (simp add: sched_ok_upd_k abs_upd_k_same)

lemma pop_next_ready:
  assumes ok: "sched_ok s" and ne: "rq_head (krq (kth s l)) \<noteq> rq_tail (krq (kth s l))"
    and run: "pop_next l s = (th, s')"
  shows "sched_ok s'" and "aq (queues_of s) l = th # tl (aq (queues_of s) l)"
    and "queues_of s' = (queues_of s)\<lparr>aq := (aq (queues_of s))(l := tl (aq (queues_of s) l))\<rparr>"
proof -
  obtain q where pop: "rq_pop (krq (kth s l)) = (th, q)"
    using run ne by (auto simp: pop_next_def Let_def split: prod.splits)
  have kt: "kthread_ok (kth s l)" by (rule sched_okD [OF ok])
  have p: "rq_ok q" "rq_elems (krq (kth s l)) = th # rq_elems q"
    using rq_pop_elems [OF _ _ pop] kt ne by (simp_all add: kthread_ok_def rq_nonempty)
  define s1 where "s1 = upd_k l (\<lambda>k. k\<lparr>krq := q, q_rq_tail := q_rq_tail k + 1\<rparr>) s"
  define s2 where "s2 = (if rq_overflow q \<noteq> [] then drain_overflow l s1 else s1)"
  have s': "s' = update_oldest_tsc l (upd_k l (\<lambda>k. k\<lparr>is_preempted := 0\<rparr>) s2)"
    using run ne pop by (auto simp: pop_next_def Let_def s1_def s2_def)
  have "kthread_ok ((kth s l)\<lparr>krq := q, q_rq_tail := q_rq_tail (kth s l) + 1\<rparr>)"
    using kt p count_pred [of "q_rq_head (kth s l)" "q_rq_tail (kth s l)" "length (rq_elems q)"]
    by (simp add: kthread_ok_def)
  then have ok1: "sched_ok s1" unfolding s1_def by (rule sched_ok_upd_k [OF ok])
  note ok2 = drain_overflow_cond(1) [OF ok1, of "rq_overflow q \<noteq> []" l, folded s2_def]
  have "sched_ok (upd_k l (\<lambda>k. k\<lparr>is_preempted := 0\<rparr>) s2) \<and> queues_of (upd_k l (\<lambda>k. k\<lparr>is_preempted := 0\<rparr>) s2) = queues_of s2"
    using ok2 by (intro upd_k_frame) (simp_all add: kthread_ok_def)
  then show "sched_ok s'" "queues_of s' = (queues_of s)\<lparr>aq := (aq (queues_of s))(l := tl (aq (queues_of s) l))\<rparr>"
    using ok2 p(2) by (simp_all add: s' s1_def abs_upd_krq abs_sel)
  show "aq (queues_of s) l = th # tl (aq (queues_of s) l)" using p(2) by (simp add: abs_sel)
qed

lemma pop_next_preempted:
  assumes ok: "sched_ok s" and e: "rq_head (krq (kth s l)) = rq_tail (krq (kth s l))"
    and ne: "rq_head (kprq (kth s l)) \<noteq> rq_tail (kprq (kth s l))" and run: "pop_next l s = (th, s')"
  shows "sched_ok s'" and "ap (queues_of s) l = th # tl (ap (queues_of s) l)"
    and "queues_of s' = (queues_of s)\<lparr>ap := (ap (queues_of s))(l := tl (ap (queues_of s) l))\<rparr>"
proof -
  obtain q where pop: "rq_pop (kprq (kth s l)) = (th, q)"
    using run e by (auto simp: pop_next_def Let_def split: prod.splits)
  have kt: "kthread_ok (kth s l)" by (rule sched_okD [OF ok])
  have p: "rq_ok q" "rq_elems (kprq (kth s l)) = th # rq_elems q"
    using rq_pop_elems [OF _ _ pop] kt ne by (simp_all add: kthread_ok_def rq_nonempty)
  define s1 where "s1 = upd_k l (\<lambda>k. k\<lparr>kprq := q, q_prq_tail := q_prq_tail k + 1\<rparr>) s"
  define s2 where "s2 = (if rq_overflow q \<noteq> [] then drain_preempted_overflow l s1 else s1)"
  have s': "s' = update_oldest_tsc l (upd_k l (\<lambda>k. k\<lparr>is_preempted := 1\<rparr>) s2)"
    using run e pop by (auto simp: pop_next_def Let_def s1_def s2_def)
  have "kthread_ok ((kth s l)\<lparr>kprq := q, q_prq_tail := q_prq_tail (kth s l) + 1\<rparr>)"
    using kt p count_pred [of "q_prq_head (kth s l)" "q_prq_tail (kth s l)" "length (rq_elems q)"]
    by (simp add: kthread_ok_def)
  then have ok1: "sched_ok s1" unfolding s1_def by (rule sched_ok_upd_k [OF ok])
  note ok2 = drain_overflow_cond(2) [OF ok1, of "rq_overflow q \<noteq> []" l, folded s2_def]
  have "sched_ok (upd_k l (\<lambda>k. k\<lparr>is_preempted := 1\<rparr>) s2) \<and> queues_of (upd_k l (\<lambda>k. k\<lparr>is_preempted := 1\<rparr>) s2) = queues_of s2"
    using ok2 by (intro upd_k_frame) (simp_all add: kthread_ok_def)
  then show "sched_ok s'" "queues_of s' = (queues_of s)\<lparr>ap := (ap (queues_of s))(l := tl (ap (queues_of s) l))\<rparr>"
    using ok2 p(2) by (simp_all add: s' s1_def abs_upd_kprq abs_sel)
  show "ap (queues_of s) l = th # tl (ap (queues_of s) l)" using p(2) by (simp add: abs_sel)
qed

lemma run_thread_abs:
  assumes "sched_ok s"
  shows "sched_ok (run_thread l th now g s)"
    and "queues_of (run_thread l th now g s) = (queues_of s)\<lparr>aready := (aready (queues_of s))(th := False)\<rparr>"
proof -
  define s1 where "s1 = upd_k l (\<lambda>k. k\<lparr>q_run_start_tsc := now, rcu_gen := rcu_gen k + g\<rparr>) s"
  have s1: "sched_ok s1 \<and> queues_of s1 = queues_of s"
    unfolding s1_def by (rule upd_k_frame [OF assms]) (simp_all add: kthread_ok_def)
  have r: "run_thread l th now g s =
      upd_t th (\<lambda>t. t\<lparr>run_start_tsc := now, thread_ready_flag := False, thread_running := True\<rparr>) s1"
    by (simp add: run_thread_def s1_def Let_def)
  show "sched_ok (run_thread l th now g s)"
    "queues_of (run_thread l th now g s) = (queues_of s)\<lparr>aready := (aready (queues_of s))(th := False)\<rparr>"
    using s1 by (simp_all add: r abs_upd_t)
qed

text \<open>A picked thread was the first of a queue of the kthread.\<close>

definition picks :: "nat \<Rightarrow> aqueues \<Rightarrow> tid \<Rightarrow> aqueues \<Rightarrow> bool" where
  "picks l a th b \<longleftrightarrow>
     (aq a l \<noteq> [] \<and> th = hd (aq a l) \<and> b = a_pick l a) \<or>
     (ap a l \<noteq> [] \<and> th = hd (ap a l) \<and> b = a_pick_preempted l a)"

lemma picks_step: "picks l a th b \<Longrightarrow> a_step a b"
  by (auto simp: picks_def intro: a_step.intros)

lemma sched_pick_abs:
  assumes ok: "sched_ok s" and r: "runnable l s" and run: "sched_pick l now s = (th, s')"
  shows "sched_ok s'" and "picks l (queues_of s) th (queues_of s')"
    and "rq_head (krq (kth s l)) \<noteq> rq_tail (krq (kth s l)) \<Longrightarrow> queues_of s' = a_pick l (queues_of s) \<and> th = hd (aq (queues_of s) l)"
    and "rq_head (krq (kth s l)) = rq_tail (krq (kth s l)) \<Longrightarrow> queues_of s' = a_pick_preempted l (queues_of s) \<and> th = hd (ap (queues_of s) l)"
proof -
  obtain s1 where p: "pop_next l s = (th, s1)" and s': "s' = run_thread l th now 1 s1"
    using run by (auto simp: sched_pick_def split: prod.splits)
  consider (a) "rq_head (krq (kth s l)) \<noteq> rq_tail (krq (kth s l))"
    | (b) "rq_head (krq (kth s l)) = rq_tail (krq (kth s l))" "rq_head (kprq (kth s l)) \<noteq> rq_tail (kprq (kth s l))"
    using r by (auto simp: runnable_def)
  then have "sched_ok s' \<and> picks l (queues_of s) th (queues_of s') \<and>
    (rq_head (krq (kth s l)) \<noteq> rq_tail (krq (kth s l)) \<longrightarrow> queues_of s' = a_pick l (queues_of s) \<and> th = hd (aq (queues_of s) l)) \<and>
    (rq_head (krq (kth s l)) = rq_tail (krq (kth s l)) \<longrightarrow> queues_of s' = a_pick_preempted l (queues_of s) \<and> th = hd (ap (queues_of s) l))"
  proof cases
    case a
    note q = pop_next_ready [OF ok a p]
    have "aq (queues_of s) l \<noteq> []" "hd (aq (queues_of s) l) = th" using q(2) by (metis list.distinct(1), metis list.sel(1))
    then show ?thesis using a q(1,3) run_thread_abs [OF q(1), of l th now 1]
      by (simp add: s' picks_def a_pick_def)
  next
    case b
    note q = pop_next_preempted [OF ok b p]
    have "ap (queues_of s) l \<noteq> []" "hd (ap (queues_of s) l) = th" using q(2) by (metis list.distinct(1), metis list.sel(1))
    then show ?thesis using b q(1,3) run_thread_abs [OF q(1), of l th now 1]
      by (simp add: s' picks_def a_pick_preempted_def)
  qed
  then show "sched_ok s'" "picks l (queues_of s) th (queues_of s')"
    "rq_head (krq (kth s l)) \<noteq> rq_tail (krq (kth s l)) \<Longrightarrow> queues_of s' = a_pick l (queues_of s) \<and> th = hd (aq (queues_of s) l)"
    "rq_head (krq (kth s l)) = rq_tail (krq (kth s l)) \<Longrightarrow> queues_of s' = a_pick_preempted l (queues_of s) \<and> th = hd (ap (queues_of s) l)"
    by blast+
qed

subsection \<open>The search for work\<close>

text \<open>Work is looked for elsewhere only when both queues of the kthread are empty.\<close>

definition idle :: "nat \<Rightarrow> sched \<Rightarrow> bool" where
  "idle l s \<longleftrightarrow> aq (queues_of s) l = [] \<and> ap (queues_of s) l = []"

lemma finds_work_idle: "finds_work l s (w, s') \<Longrightarrow> \<not> w \<Longrightarrow> idle l s \<Longrightarrow> sched_ok s' \<and> idle l s'"
  using same_queues_abs [of s s'] by (simp add: finds_work_def idle_def)

lemma finds_work_refl: "sched_ok s \<Longrightarrow> finds_work l s (False, s)"
  by (simp add: finds_work_def same_queues_def)

lemma finds_work_then: "finds_work l s (w, s1) \<Longrightarrow> \<not> w \<Longrightarrow> finds_work l s1 r \<Longrightarrow> finds_work l s r"
  using finds_work_seq [of l s False s1 "fst r" "snd r"] by simp

lemma steal_any_finds:
  "sched_ok s \<Longrightarrow> idle l s \<Longrightarrow> steal_any l rs ro s = Inr (w, s') \<Longrightarrow> finds_work l s (w, s')"
proof (induction l rs ro s rule: steal_any.induct)
  case (1 l ro s)
  then show ?case by (simp add: finds_work_refl)
next
  case (2 l r rs ro s)
  show ?case
  proof (cases "r = l")
    case True
    then show ?thesis using 2 by simp
  next
    case False
    obtain w1 s1 where st: "steal_work l r (ro_remote ro r) (ro_locked ro r) (ro_now ro) s = Inr (w1, s1)"
      and rest: "(if w1 then Inr (True, s1) else steal_any l rs ro s1) = Inr (w, s')"
      using "2.prems"(3) False by (auto simp: bind_exec_pair)
    have f: "finds_work l s (w1, s1)"
      using steal_work_finds [OF "2.prems"(1) _ _ _ st] False "2.prems"(2) by (simp add: idle_def)
    show ?thesis
    proof (cases w1)
      case True
      then show ?thesis using f rest by simp
    next
      case w1: False
      then have "sched_ok s1 \<and> idle l s1" using finds_work_idle [OF f] "2.prems"(2) by simp
      then have "finds_work l s1 (w, s')" using "2.IH"(2) [OF False w1] rest w1 by simp
      then show ?thesis using finds_work_then [OF f w1] by simp
    qed
  qed
qed

lemma sched_round_finds:
  assumes ok: "sched_ok s" and idl: "idle l s" and run: "sched_round l ro s = Inr (w, s')"
  shows "finds_work l s (w, s')"
proof -
  obtain w1 s1 where r1: "softirq_run_locked l l (ro_local ro) (ro_now ro) s = Inr (w1, s1)"
    and k1: "(if w1 then Inr (True, s1)
       else bind_exec (steal_any l (case ro_sibling ro of None \<Rightarrow> [] | Some r \<Rightarrow> [r]) ro s1) (\<lambda>(w, s).
         if w then Inr (True, s)
         else bind_exec (steal_any l (ro_order ro) ro s) (\<lambda>(w, s).
           if w then Inr (True, s)
           else softirq_run_locked l l (ro_local2 ro) (ro_now ro) s))) = Inr (w, s')"
    using run unfolding sched_round_def bind_exec_pair by blast
  have f1: "finds_work l s (w1, s1)" by (rule softirq_run_locked_finds [OF ok r1])
  show ?thesis
  proof (cases w1)
    case False
    note i1 = finds_work_idle [OF f1 False idl]
    obtain w2 s2 where r2: "steal_any l (case ro_sibling ro of None \<Rightarrow> [] | Some r \<Rightarrow> [r]) ro s1 = Inr (w2, s2)"
      and k2: "(if w2 then Inr (True, s2)
         else bind_exec (steal_any l (ro_order ro) ro s2) (\<lambda>(w, s).
           if w then Inr (True, s)
           else softirq_run_locked l l (ro_local2 ro) (ro_now ro) s)) = Inr (w, s')"
      using k1 unfolding bind_exec_pair if_not_P [OF False] by blast
    have f2: "finds_work l s1 (w2, s2)" using steal_any_finds r2 i1 by blast
    note f12 = finds_work_then [OF f1 False f2]
    show ?thesis
    proof (cases w2)
      case w2: False
      note i2 = finds_work_idle [OF f2 w2]
      obtain w3 s3 where r3: "steal_any l (ro_order ro) ro s2 = Inr (w3, s3)"
        and k3: "(if w3 then Inr (True, s3) else softirq_run_locked l l (ro_local2 ro) (ro_now ro) s3) = Inr (w, s')"
        using k2 unfolding bind_exec_pair if_not_P [OF w2] by blast
      have f3: "finds_work l s2 (w3, s3)" using steal_any_finds r3 i2 i1 w2 by blast
      note f13 = finds_work_then [OF f12 w2 f3]
      show ?thesis
      proof (cases w3)
        case w3: False
        then have "sched_ok s3" using f3 by (simp add: finds_work_def)
        moreover have "softirq_run_locked l l (ro_local2 ro) (ro_now ro) s3 = Inr (w, s')" using k3 w3 by simp
        ultimately have "finds_work l s3 (w, s')" by (rule softirq_run_locked_finds)
        then show ?thesis using finds_work_then [OF f13 w3] by simp
      qed (use k3 f13 in simp)
    qed (use k2 f12 in simp)
  qed (use k1 f1 in simp)
qed

lemma sched_search_finds:
  "sched_ok s \<Longrightarrow> idle l s \<Longrightarrow> sched_search l ros s = Inr (Some s') \<Longrightarrow> finds_work l s (True, s')"
proof (induction l ros s rule: sched_search.induct)
  case (2 l ro ros s)
  obtain w s1 where r: "sched_round l ro s = Inr (w, s1)"
    and k: "(if w then Inr (Some s1) else sched_search l ros s1) = Inr (Some s')"
    using "2.prems"(3) unfolding sched_search.simps bind_exec_pair by blast
  have f: "finds_work l s (w, s1)" by (rule sched_round_finds [OF "2.prems"(1,2) r])
  show ?case
  proof (cases w)
    case False
    have "sched_ok s1 \<and> idle l s1" using finds_work_idle [OF f] False "2.prems"(2) by simp
    then have "finds_work l s1 (True, s')" using "2.IH" [OF False] k False by simp
    then show ?thesis using finds_work_then [OF f False] by simp
  qed (use k f in simp)
qed simp

lemma rq_empty: "rq_ok q \<Longrightarrow> rq_packed q \<Longrightarrow> rq_head q = rq_tail q \<longleftrightarrow> rq_elems q = []"
  using rq_nonempty [of q] by (auto simp: rq_packed_def rq_elems_def rq_window_def)

lemma schedule_local_abs:
  assumes ok: "sched_ok s" and run: "schedule_local l s = (found, s')"
  shows "sched_ok s'" and "queues_of s' = queues_of s" and "found \<longleftrightarrow> runnable l s'" and "found \<longleftrightarrow> \<not> idle l s"
    and "rq_head (krq (kth s' l)) = rq_tail (krq (kth s' l)) \<longleftrightarrow> aq (queues_of s) l = []"
proof -
  define s1 where "s1 = (if rq_overflow (krq (kth s l)) \<noteq> [] then drain_overflow l s else s)"
  have s1: "sched_ok s1 \<and> queues_of s1 = queues_of s" unfolding s1_def by (rule drain_overflow_cond [OF ok])
  have e1: "rq_packed (krq (kth s1 l))"
    using rq_drain_overflow_elems [of "krq (kth s l)"] sched_okD [OF ok, of l]
    by (auto simp: s1_def rq_packed_def drain_overflow_def kthread_ok_def)
  have h1: "rq_head (krq (kth s1 l)) = rq_tail (krq (kth s1 l)) \<longleftrightarrow> aq (queues_of s) l = []"
    using rq_empty [OF _ e1] sched_okD [of s1 l] s1 by (metis abs_sel(1) kthread_ok_def)
  define s2 where "s2 = (if rq_overflow (kprq (kth s1 l)) \<noteq> [] then drain_preempted_overflow l s1 else s1)"
  have s2: "sched_ok s2 \<and> queues_of s2 = queues_of s"
    using drain_overflow_cond(2) [of s1 "rq_overflow (kprq (kth s1 l)) \<noteq> []" l] s1 unfolding s2_def by metis
  have e2: "rq_packed (kprq (kth s2 l))"
    using rq_drain_overflow_elems [of "kprq (kth s1 l)"] sched_okD [of s1 l] s1
    by (auto simp: s2_def rq_packed_def drain_preempted_overflow_def kthread_ok_def)
  have h2: "rq_head (kprq (kth s2 l)) = rq_tail (kprq (kth s2 l)) \<longleftrightarrow> ap (queues_of s) l = []"
    using rq_empty [OF _ e2] sched_okD [of s2 l] s2 by (metis abs_sel(2) kthread_ok_def)
  have k2: "krq (kth s2 l) = krq (kth s1 l)" by (simp add: s2_def drain_preempted_overflow_def)
  have r: "(found, s') = (if rq_head (krq (kth s1 l)) \<noteq> rq_tail (krq (kth s1 l)) then (True, s1)
      else (rq_head (kprq (kth s2 l)) \<noteq> rq_tail (kprq (kth s2 l)), s2))"
    using run unfolding schedule_local_def Let_def s1_def [symmetric] s2_def [symmetric] by simp
  have "sched_ok s' \<and> queues_of s' = queues_of s \<and> (found \<longleftrightarrow> runnable l s') \<and> (found \<longleftrightarrow> \<not> idle l s) \<and>
    (rq_head (krq (kth s' l)) = rq_tail (krq (kth s' l)) \<longleftrightarrow> aq (queues_of s) l = [])"
    using r s1 s2 h1 h2 k2 by (cases "aq (queues_of s) l = []") (simp_all add: runnable_def idle_def)
  then show "sched_ok s'" "queues_of s' = queues_of s" "found \<longleftrightarrow> runnable l s'" "found \<longleftrightarrow> \<not> idle l s"
    "rq_head (krq (kth s' l)) = rq_tail (krq (kth s' l)) \<longleftrightarrow> aq (queues_of s) l = []" by blast+
qed

subsection \<open>Scheduling as a whole\<close>

lemma finds_work_pick:
  assumes "finds_work l s (True, s1)" and "sched_pick l now s1 = (th, s')"
  shows "sched_ok s' \<and> (\<exists>a. a_step\<^sup>*\<^sup>* (queues_of s) a \<and> picks l a th (queues_of s'))"
proof -
  have "sched_ok s1" "runnable l s1" "a_step\<^sup>*\<^sup>* (queues_of s) (queues_of s1)" using assms(1) by (auto simp: finds_work_def)
  then show ?thesis using sched_pick_abs(1,2) [OF _ _ assms(2)] by blast
qed

text \<open>The bookkeeping at the start of \<open>schedule\<close>.\<close>

definition sched_enter :: "nat \<Rightarrow> tid option \<Rightarrow> sched \<Rightarrow> sched" where
  "sched_enter l self s =
     (let s = upd_k l (\<lambda>k. k\<lparr>is_preempted := -1\<rparr>) s;
          s = (case self of None \<Rightarrow> s | Some t \<Rightarrow> upd_t t (\<lambda>th. th\<lparr>thread_running := False\<rparr>) s)
      in upd_k l (\<lambda>k. k\<lparr>rcu_gen := rcu_gen k + 1\<rparr>) s)"

lemma sched_enter_abs:
  assumes "sched_ok s"
  shows "sched_ok (sched_enter l self s) \<and> queues_of (sched_enter l self s) = queues_of s"
proof -
  define s1 where "s1 = upd_k l (\<lambda>k. k\<lparr>is_preempted := -1\<rparr>) s"
  define s2 where "s2 = (case self of None \<Rightarrow> s1 | Some t \<Rightarrow> upd_t t (\<lambda>th. th\<lparr>thread_running := False\<rparr>) s1)"
  have s1: "sched_ok s1 \<and> queues_of s1 = queues_of s"
    unfolding s1_def by (rule upd_k_frame [OF assms]) (simp_all add: kthread_ok_def)
  have s2: "sched_ok s2 \<and> queues_of s2 = queues_of s" using s1 by (cases self) (simp_all add: s2_def abs_upd_t_same)
  have "sched_enter l self s = upd_k l (\<lambda>k. k\<lparr>rcu_gen := rcu_gen k + 1\<rparr>) s2"
    unfolding sched_enter_def s2_def s1_def Let_def ..
  moreover have "sched_ok (upd_k l (\<lambda>k. k\<lparr>rcu_gen := rcu_gen k + 1\<rparr>) s2) \<and>
      queues_of (upd_k l (\<lambda>k. k\<lparr>rcu_gen := rcu_gen k + 1\<rparr>) s2) = queues_of s2"
    using s2 by (intro upd_k_frame) (simp_all add: kthread_ok_def)
  ultimately show ?thesis using s2 by simp
qed

lemma schedule_unfold:
  "schedule l self watchdog ros now s =
     bind_exec
       (case watchdog of
          None \<Rightarrow> Inr (False, sched_enter l self s)
        | Some o1 \<Rightarrow> softirq_run_locked l l o1 now (upd_k l (\<lambda>k. k\<lparr>last_softirq_tsc := now\<rparr>) (sched_enter l self s)))
       (\<lambda>(w, s).
          if w then Inr (Some (sched_pick l now s))
          else let (found, s) = schedule_local l s
               in if found then Inr (Some (sched_pick l now s))
                  else bind_exec (sched_search l ros s) (\<lambda>r.
                         case r of None \<Rightarrow> Inr None | Some s \<Rightarrow> Inr (Some (sched_pick l now s))))"
  unfolding schedule_def sched_enter_def Let_def ..

lemma schedule_abs:
  assumes ok: "sched_ok s" and run: "schedule l self wd ros now s = Inr (Some (th, s'))"
  shows "sched_ok s' \<and> (\<exists>a. a_step\<^sup>*\<^sup>* (queues_of s) a \<and> picks l a th (queues_of s'))"
proof -
  define s0 where "s0 = sched_enter l self s"
  have s0: "sched_ok s0" "queues_of s0 = queues_of s" using sched_enter_abs [OF ok] by (simp_all add: s0_def)
  obtain w s1 where r1: "(case wd of None \<Rightarrow> Inr (False, s0)
        | Some o1 \<Rightarrow> softirq_run_locked l l o1 now (upd_k l (\<lambda>k. k\<lparr>last_softirq_tsc := now\<rparr>) s0)) = Inr (w, s1)"
    and k1: "(if w then Inr (Some (sched_pick l now s1))
          else let (found, s) = schedule_local l s1
               in if found then Inr (Some (sched_pick l now s))
                  else bind_exec (sched_search l ros s) (\<lambda>r.
                         case r of None \<Rightarrow> Inr None | Some s \<Rightarrow> Inr (Some (sched_pick l now s)))) = Inr (Some (th, s'))"
    using run unfolding schedule_unfold s0_def [symmetric] bind_exec_pair by blast
  have f1: "finds_work l s0 (w, s1)"
  proof (cases wd)
    case None
    then show ?thesis using r1 finds_work_refl [OF s0(1)] by simp
  next
    case (Some o1)
    let ?s = "upd_k l (\<lambda>k. k\<lparr>last_softirq_tsc := now\<rparr>) s0"
    have f: "finds_work l s0 (False, ?s)"
      by (rule finds_work_upd_k [OF finds_work_refl [OF s0(1)]]) (simp_all add: kthread_ok_def)
    then have "sched_ok ?s" by (simp add: finds_work_def)
    then have "finds_work l ?s (w, s1)" using r1 Some by (auto intro: softirq_run_locked_finds)
    then show ?thesis using finds_work_then [OF f] by simp
  qed
  show ?thesis
  proof (cases w)
    case True
    then have "sched_pick l now s1 = (th, s')" using k1 by simp
    then show ?thesis using finds_work_pick [of l s0 s1 now th s'] f1 True s0 by simp
  next
    case w: False
    obtain found s2 where r2: "schedule_local l s1 = (found, s2)" by fastforce
    have ok1: "sched_ok s1" and q1: "queues_of s1 = queues_of s"
      using f1 w same_queues_abs [of s0 s1] s0 by (auto simp: finds_work_def)
    note loc = schedule_local_abs [OF ok1 r2]
    show ?thesis
    proof (cases found)
      case True
      then have "sched_pick l now s2 = (th, s')" using k1 w r2 by simp
      from sched_pick_abs(1,2) [OF loc(1) _ this] show ?thesis using loc(2,3) True q1 by auto
    next
      case False
      then obtain s3 where r3: "sched_search l ros s2 = Inr (Some s3)" and p: "sched_pick l now s3 = (th, s')"
        using k1 w r2 by (auto simp: bind_exec_eq_Inr split: option.splits)
      have "idle l s2" using loc(2,4) False by (simp add: idle_def)
      from sched_search_finds [OF loc(1) this r3] have "finds_work l s2 (True, s3)" .
      from finds_work_pick [OF this p] show ?thesis using loc(2) q1 by simp
    qed
  qed
qed

lemma enter_schedule_abs:
  assumes ok: "sched_ok s" and run: "enter_schedule k cur slow now s = (r, s0)"
  shows "sched_ok s0 \<and> queues_of s0 = queues_of s"
    and "r = Some (th, s') \<Longrightarrow> sched_ok s' \<and> picks k (queues_of s) th (queues_of s')"
proof -
  define s1 where "s1 = upd_t cur (\<lambda>t. t\<lparr>last_cpu := curr_cpu (kth s k)\<rparr>) s"
  have s1: "sched_ok s1" "queues_of s1 = queues_of s" using ok by (simp_all add: s1_def abs_upd_t_same)
  have rn: "\<not> runnable k s1 \<longleftrightarrow> rq_head (krq (kth s k)) = rq_tail (krq (kth s k)) \<and>
      rq_head (kprq (kth s k)) = rq_tail (kprq (kth s k))" by (simp add: runnable_def s1_def)
  have e: "(r, s0) = (if \<not> runnable k s1 \<or> slow then (None, s1)
         else let (th, s') = pop_next k s1;
                  s' = (if th = cur
                        then upd_t th (\<lambda>t. t\<lparr>run_start_tsc := now, thread_ready_flag := False\<rparr>)
                               (upd_k k (\<lambda>kt. kt\<lparr>q_run_start_tsc := now, rcu_gen := rcu_gen kt + 2\<rparr>) s')
                        else upd_t cur (\<lambda>t. t\<lparr>thread_running := False\<rparr>) (run_thread k th now 2 s'))
              in (Some (th, s'), s1))"
    using run [symmetric] unfolding rn unfolding enter_schedule_def Let_def upd_simps s1_def .
  show "sched_ok s0 \<and> queues_of s0 = queues_of s"
    using e s1 by (auto simp: Let_def split: if_splits prod.splits)
  assume r: "r = Some (th, s')"
  obtain th1 s2 where pop: "pop_next k s1 = (th1, s2)" by fastforce
  have run1: "runnable k s1" and th: "th1 = th" and
    s': "s' = (if th = cur
                        then upd_t th (\<lambda>t. t\<lparr>run_start_tsc := now, thread_ready_flag := False\<rparr>)
                               (upd_k k (\<lambda>kt. kt\<lparr>q_run_start_tsc := now, rcu_gen := rcu_gen kt + 2\<rparr>) s2)
                        else upd_t cur (\<lambda>t. t\<lparr>thread_running := False\<rparr>) (run_thread k th now 2 s2))"
    using e r pop by (auto simp: Let_def split: if_splits)
  obtain s3 where sp: "sched_pick k now s1 = (th, s3)" and s3: "s3 = run_thread k th now 1 s2"
    using pop th by (simp add: sched_pick_def)
  have ok2: "sched_ok s2"
    using pop_next_ready(1) [OF s1(1) _ pop] pop_next_preempted(1) [OF s1(1) _ _ pop] run1 by (auto simp: runnable_def)
  have u: "sched_ok (upd_k k (\<lambda>kt. kt\<lparr>q_run_start_tsc := now, rcu_gen := rcu_gen kt + 2\<rparr>) s2) \<and>
      queues_of (upd_k k (\<lambda>kt. kt\<lparr>q_run_start_tsc := now, rcu_gen := rcu_gen kt + 2\<rparr>) s2) = queues_of s2"
    using ok2 by (intro upd_k_frame) (simp_all add: kthread_ok_def)
  have "queues_of s' = queues_of s3 \<and> sched_ok s'"
  proof (cases "th = cur")
    case True
    then show ?thesis using run_thread_abs [OF ok2] u by (simp add: s' s3 abs_upd_t)
  next
    case False
    then show ?thesis using run_thread_abs [OF ok2] by (simp add: s' s3 abs_upd_t_same)
  qed
  then show "sched_ok s' \<and> picks k (queues_of s) th (queues_of s')"
    using sched_pick_abs(2) [OF s1(1) run1 sp] s1(2) by simp
qed

subsection \<open>The machine\<close>

definition kthread_init_thread :: "tid \<Rightarrow> tid \<Rightarrow> tid \<Rightarrow> kthread" where
  "kthread_init_thread io tm st =
     \<lparr>krq = \<lparr>ring = replicate 32 0, rq_head = 0, rq_tail = 0, rq_overflow = []\<rparr>,
      kprq = \<lparr>ring = replicate 32 0, rq_head = 0x7FFFFFFF, rq_tail = 0x7FFFFFFF, rq_overflow = []\<rparr>,
      q_rq_head = 0, q_rq_tail = 0, q_prq_head = 0, q_prq_tail = 0, q_oldest_tsc = 0, q_run_start_tsc = 0,
      is_preempted = 0, rcu_gen = 0, curr_cpu = 0, iokernel_softirq = io, timer_softirq_th = tm,
      storage_softirq = st, iokernel_busy = False, k_timer_busy = False, storage_busy = False,
      last_softirq_tsc = 0\<rparr>"

text \<open>Fresh kthreads and no thread ready.\<close>

definition sched_fresh :: "sched \<Rightarrow> bool" where
  "sched_fresh s \<longleftrightarrow>
     (\<forall>k. \<exists>io tm st. kth s k = kthread_init_thread io tm st) \<and> (\<forall>t. \<not> thread_ready_flag (thr s t))"

text \<open>
  The steps of the kthreads in any order: threads are made ready by wakeups, softirqs run,
  and threads park, yield and are preempted. A thread that yields is running, so it is in no
  queue, and if it is a softirq thread of its kthread then its busy flag is set.
\<close>

definition may_yield :: "nat \<Rightarrow> tid \<Rightarrow> sched \<Rightarrow> bool" where
  "may_yield k cur s \<longleftrightarrow>
     \<not> thread_ready_flag (thr s cur) \<and>
     (cur = iokernel_softirq (kth s k) \<longrightarrow> iokernel_busy (kth s k)) \<and>
     (cur = timer_softirq_th (kth s k) \<longrightarrow> k_timer_busy (kth s k)) \<and>
     (cur = storage_softirq (kth s k) \<longrightarrow> storage_busy (kth s k))"

inductive sched_step :: "sched \<Rightarrow> sched \<Rightarrow> bool" where
  wake: "thread_ready k th now s = Inr s' \<Longrightarrow> sched_step s s'"
| wake_locked: "thread_ready_locked k th now s = Inr s' \<Longrightarrow> sched_step s s'"
| wake_head: "thread_ready_head k th now s = Inr s' \<Longrightarrow> sched_step s s'"
| wake_head_locked: "thread_ready_head_locked k th now s = Inr s' \<Longrightarrow> sched_step s s'"
| preempted: "thread_preempt_ready k th s = Inr s' \<Longrightarrow> sched_step s s'"
| softirq: "softirq_run k o1 now s = Inr (w, s') \<Longrightarrow> sched_step s s'"
| sched: "schedule l self wd ros now s = Inr (Some (th, s')) \<Longrightarrow> sched_step s s'"
| park: "enter_schedule k cur slow now s = (Some (th, s'), s0) \<Longrightarrow> sched_step s s'"
| park_slow: "enter_schedule k cur slow now s = (None, s') \<Longrightarrow> sched_step s s'"
| yield: "may_yield k cur s \<Longrightarrow> thread_yield k cur o1 slow now s = Inr (Some (th, s'), s0) \<Longrightarrow> sched_step s s'"
| yield_slow: "may_yield k cur s \<Longrightarrow> thread_yield k cur o1 slow now s = Inr (None, s') \<Longrightarrow> sched_step s s'"
| preempt_yield:
    "may_yield k cur s \<Longrightarrow> thread_preempt_yield k cur o1 slow now s = Inr (Some (th, s'), s0) \<Longrightarrow> sched_step s s'"
| preempt_yield_slow:
    "may_yield k cur s \<Longrightarrow> thread_preempt_yield k cur o1 slow now s = Inr (None, s') \<Longrightarrow> sched_step s s'"

text \<open>A step implements moves.\<close>

definition moves :: "sched \<Rightarrow> sched \<Rightarrow> bool" where
  "moves s s' \<longleftrightarrow> sched_ok s' \<and> (\<exists>a. a_step\<^sup>*\<^sup>* (queues_of s) a \<and> a_step\<^sup>*\<^sup>* a (queues_of s'))"

lemma movesI: "sched_ok s' \<Longrightarrow> a_step\<^sup>*\<^sup>* (queues_of s) (queues_of s') \<Longrightarrow> moves s s'"
  by (auto simp: moves_def)

lemma moves_iff: "moves s s' \<longleftrightarrow> sched_ok s' \<and> a_step\<^sup>*\<^sup>* (queues_of s) (queues_of s')"
  by (auto simp: moves_def intro: rtranclp_trans)

lemma moves_trans: "moves s s1 \<Longrightarrow> moves s1 s2 \<Longrightarrow> moves s s2"
  by (auto simp: moves_iff)

lemma moves_wake:
  assumes "sched_ok s"
  shows "thread_ready k th now s = Inr s' \<Longrightarrow> moves s s'" "thread_ready_locked k th now s = Inr s' \<Longrightarrow> moves s s'"
    "thread_ready_head k th now s = Inr s' \<Longrightarrow> moves s s'" "thread_ready_head_locked k th now s = Inr s' \<Longrightarrow> moves s s'"
    "thread_preempt_ready k th s = Inr s' \<Longrightarrow> moves s s'"
  using thread_ready_abs [OF assms] thread_ready_locked_abs [OF assms] thread_ready_head_abs [OF assms]
    thread_ready_head_locked_abs [OF assms] thread_preempt_ready_abs [OF assms]
  by (metis movesI a_step.ready a_step.ready_head a_step.preempt r_into_rtranclp)+

lemma moves_enter:
  assumes "sched_ok s" and "enter_schedule k cur slow now s = (r, s0)"
  shows "moves s s0" and "r = Some (th, s') \<Longrightarrow> moves s s'"
  using enter_schedule_abs [OF assms] picks_step by (metis movesI r_into_rtranclp rtranclp.rtrancl_refl)+

lemma thread_ready_head_locked_frame:
  assumes "thread_ready_head_locked l th now s = Inr s'"
  shows "iokernel_softirq (kth s' k) = iokernel_softirq (kth s k)" "timer_softirq_th (kth s' k) = timer_softirq_th (kth s k)"
    "storage_softirq (kth s' k) = storage_softirq (kth s k)" "iokernel_busy (kth s' k) = iokernel_busy (kth s k)"
    "k_timer_busy (kth s' k) = k_timer_busy (kth s k)" "storage_busy (kth s' k) = storage_busy (kth s k)"
    "t \<noteq> th \<Longrightarrow> thread_ready_flag (thr s' t) = thread_ready_flag (thr s t)"
  using assms
  by (auto simp: thread_ready_head_locked_def thread_ready_prepare_def ready_at_head_def Let_def split: if_splits)

text \<open>Softirqs do not make ready a thread that may yield.\<close>

lemma softirq_run_locked_yield:
  assumes y: "may_yield k cur s" and run: "softirq_run_locked me k o1 now s = Inr (w, s')"
  shows "may_yield k cur s'"
proof -
  have check: "may_yield k cur s2"
    if "may_yield k cur s1" and "(if \<not> busy (kth s1 k) \<and> c then let s = upd_k k b s1
             in bind_exec (thread_ready_head_locked me (th (kth s k)) now s) (\<lambda>s. Inr (True, s))
        else Inr (False, s1)) = Inr (w1, s2)"
      and "(busy, th, b) \<in> {(iokernel_busy, iokernel_softirq, \<lambda>kt. kt\<lparr>iokernel_busy := True\<rparr>),
        (k_timer_busy, timer_softirq_th, \<lambda>kt. kt\<lparr>k_timer_busy := True\<rparr>),
        (storage_busy, storage_softirq, \<lambda>kt. kt\<lparr>storage_busy := True\<rparr>)}"
    for s1 s2 c b busy th w1
  proof (cases "\<not> busy (kth s1 k) \<and> c")
    case True
    then have r: "thread_ready_head_locked me (th (kth (upd_k k b s1) k)) now (upd_k k b s1) = Inr s2"
      using that(2) by (auto simp: Let_def bind_exec_eq_Inr)
    have "th (kth (upd_k k b s1) k) \<noteq> cur" using that(1,3) True by (auto simp: may_yield_def)
    then show ?thesis
      using that(1,3) thread_ready_head_locked_frame [OF r] by (auto simp: may_yield_def)
  qed (use that(1,2) in \<open>auto split: if_splits\<close>)
  obtain w1 s1 w2 s2 w3 s3 where
    r1: "(if \<not> iokernel_busy (kth s k) \<and> so_iokernel o1
        then let s = upd_k k (\<lambda>kt. kt\<lparr>iokernel_busy := True\<rparr>) s
             in bind_exec (thread_ready_head_locked me (iokernel_softirq (kth s k)) now s) (\<lambda>s. Inr (True, s))
        else Inr (False, s)) = Inr (w1, s1)" and
    r2: "(if \<not> k_timer_busy (kth s1 k) \<and> so_timer o1
        then let s = upd_k k (\<lambda>kt. kt\<lparr>k_timer_busy := True\<rparr>) s1
             in bind_exec (thread_ready_head_locked me (timer_softirq_th (kth s k)) now s) (\<lambda>s. Inr (True, s))
        else Inr (False, s1)) = Inr (w2, s2)" and
    r3: "(if \<not> storage_busy (kth s2 k) \<and> so_storage o1
        then let s = upd_k k (\<lambda>kt. kt\<lparr>storage_busy := True\<rparr>) s2
             in bind_exec (thread_ready_head_locked me (storage_softirq (kth s k)) now s) (\<lambda>s. Inr (True, s))
        else Inr (False, s2)) = Inr (w3, s3)" and
    r: "s' = upd_k k (\<lambda>kt. kt\<lparr>last_softirq_tsc := now\<rparr>) s3"
    using run unfolding softirq_run_locked_def bind_exec_pair sum.inject prod.inject by blast
  have "may_yield k cur s1" by (rule check [where busy = iokernel_busy and th = iokernel_softirq and b = "\<lambda>kt. kt\<lparr>iokernel_busy := True\<rparr>", OF y r1]) simp
  then have "may_yield k cur s2" by (rule check [where busy = k_timer_busy and th = timer_softirq_th and b = "\<lambda>kt. kt\<lparr>k_timer_busy := True\<rparr>", OF _ r2]) simp
  then have "may_yield k cur s3" by (rule check [where busy = storage_busy and th = storage_softirq and b = "\<lambda>kt. kt\<lparr>storage_busy := True\<rparr>", OF _ r3]) simp
  then show ?thesis by (simp add: r may_yield_def)
qed

lemma softirq_run_yield:
  assumes y: "may_yield k cur s" and run: "softirq_run k o1 now s = Inr (w, s')"
  shows "may_yield k cur s'"
proof -
  have y0: "may_yield k cur (upd_k k (\<lambda>kt. kt\<lparr>last_softirq_tsc := now\<rparr>) s)" using y by (simp add: may_yield_def)
  then show ?thesis using run softirq_run_locked_yield [OF y0]
    by (auto simp: softirq_run_def Let_def split: if_splits)
qed

lemma moves_softirq: "sched_ok s \<Longrightarrow> softirq_run k o1 now s = Inr (w, s') \<Longrightarrow> moves s s'"
  using softirq_run_finds [of s k o1 now w s'] by (auto simp: finds_work_def intro: movesI)

text \<open>Both yields: softirqs, then the thread itself made ready by \<open>f\<close>, then a switch.\<close>

lemma moves_yield:
  assumes ok: "sched_ok s" and y: "may_yield k cur s"
    and f: "\<And>s s'. sched_ok s \<Longrightarrow> f s = Inr s' \<Longrightarrow> moves s s'"
    and run: "bind_exec (softirq_run k o1 now s) (\<lambda>(w, s).
       let s = upd_t cur (\<lambda>t. t\<lparr>thread_ready_flag := False\<rparr>) s
       in bind_exec (f s) (\<lambda>s. Inr (enter_schedule k cur slow now s))) = Inr (r, s0)"
  shows "moves s s0" and "r = Some (th, s') \<Longrightarrow> moves s s'"
proof -
  obtain w s1 where r1: "softirq_run k o1 now s = Inr (w, s1)" and
    k1: "bind_exec (f (upd_t cur (\<lambda>t. t\<lparr>thread_ready_flag := False\<rparr>) s1))
        (\<lambda>s. Inr (enter_schedule k cur slow now s)) = Inr (r, s0)"
    using run unfolding bind_exec_pair Let_def by blast
  define s2 where "s2 = upd_t cur (\<lambda>t. t\<lparr>thread_ready_flag := False\<rparr>) s1"
  obtain s3 where r3: "f s2 = Inr s3" and e: "enter_schedule k cur slow now s3 = (r, s0)"
    using k1 by (auto simp: s2_def bind_exec_eq_Inr)
  have m1: "moves s s1" by (rule moves_softirq [OF ok r1])
  have "\<not> thread_ready_flag (thr s1 cur)" using softirq_run_yield [OF y r1] by (simp add: may_yield_def)
  then have "queues_of s2 = queues_of s1" "sched_ok s2"
    using m1 by (simp_all add: s2_def abs_upd_t_same moves_iff)
  then have m2: "moves s s2" using m1 by (simp add: moves_iff)
  have m3: "moves s s3" using moves_trans [OF m2 f [OF _ r3]] m2 by (simp add: moves_iff)
  then have "sched_ok s3" by (simp add: moves_iff)
  note n = moves_enter [OF this e]
  show "moves s s0" by (rule moves_trans [OF m3 n(1)])
  show "r = Some (th, s') \<Longrightarrow> moves s s'" by (rule moves_trans [OF m3 n(2)])
qed

lemma sched_step_moves:
  assumes "sched_step s s'" and ok: "sched_ok s"
  shows "moves s s'"
  using assms(1)
proof cases
  case (sched l self wd ros now th)
  then show ?thesis using schedule_abs [OF ok] picks_step by (metis moves_def r_into_rtranclp)
next
  case (yield k cur o1 slow now th s0)
  show ?thesis by (rule moves_yield(2) [OF ok yield(1) _ yield(2) [unfolded thread_yield_def] refl]) (rule moves_wake(1))
next
  case (yield_slow k cur o1 slow now)
  show ?thesis by (rule moves_yield(1) [OF ok yield_slow(1) _ yield_slow(2) [unfolded thread_yield_def]]) (rule moves_wake(1))
next
  case (preempt_yield k cur o1 slow now th s0)
  show ?thesis by (rule moves_yield(2) [OF ok preempt_yield(1) _ preempt_yield(2) [unfolded thread_preempt_yield_def] refl]) (rule moves_wake(5))
next
  case (preempt_yield_slow k cur o1 slow now)
  show ?thesis by (rule moves_yield(1) [OF ok preempt_yield_slow(1) _ preempt_yield_slow(2) [unfolded thread_preempt_yield_def]]) (rule moves_wake(5))
next
  case (softirq k o1 now w)
  show ?thesis by (rule moves_softirq [OF ok softirq])
next
  case (park k cur slow now th s0)
  show ?thesis by (rule moves_enter(2) [OF ok park refl])
next
  case (park_slow k cur slow now)
  show ?thesis by (rule moves_enter(1) [OF ok park_slow])
qed (erule moves_wake [OF ok])+

lemma sched_fresh_ok:
  assumes "sched_fresh s"
  shows "sched_ok s" and "a_inv (queues_of s)"
proof -
  have k: "rq_ok (krq (kth s k))" "rq_elems (krq (kth s k)) = []" "rq_ok (kprq (kth s k))" "rq_elems (kprq (kth s k)) = []"
    "q_rq_head (kth s k) = 0" "q_rq_tail (kth s k) = 0" "q_prq_head (kth s k) = 0" "q_prq_tail (kth s k) = 0" for k
    using assms by (auto simp: sched_fresh_def kthread_init_thread_def rq_ok_def rq_len_def rq_elems_def rq_window_def
      dest!: spec [of _ k])
  then show "sched_ok s" by (simp add: sched_ok_def kthread_ok_def)
  show "a_inv (queues_of s)" using k assms by (simp add: a_inv_def in_queue_def abs_sel sched_fresh_def)
qed

lemma sched_steps_moves:
  "sched_step\<^sup>*\<^sup>* s s' \<Longrightarrow> sched_ok s \<Longrightarrow> sched_ok s' \<and> a_step\<^sup>*\<^sup>* (queues_of s) (queues_of s')"
proof (induction rule: rtranclp_induct)
  case (step s1 s2)
  then have "moves s1 s2" using sched_step_moves by blast
  then show ?case using step by (auto simp: moves_iff)
qed simp

subsection \<open>Properties\<close>

lemma num_to_steal_nat:
  assumes "a < b" and "b < 2 ^ 31"
  shows "unat (num_to_steal (of_nat a) (of_nat b)) = min ((b - a + 1) div 2) 32"
proof -
  have u: "unat (of_nat a :: u32) = a" "unat (of_nat b :: u32) = b" using assms by (simp_all add: unat_of_nat)
  have lt: "(of_nat a :: u32) < of_nat b" using assms(1) u by (simp add: word_less_nat_alt)
  have d: "unat (of_nat b - of_nat a :: u32) = b - a"
    using unat_sub [OF less_imp_le [OF lt]] u by (simp only:)
  have e: "div_up (of_nat b - of_nat a) 2 = (of_nat b - of_nat a + 1 :: u32) div 2" by (simp add: div_up_def add.commute)
  have "unat (of_nat b - of_nat a + 1 :: u32) = b - a + 1" using d assms by (simp add: unat_word_ariths)
  moreover have "unat (2 :: u32) = 2" by simp
  ultimately have "unat (div_up (of_nat b - of_nat a) 2 :: u32) = (b - a + 1) div 2" by (simp only: e unat_div)
  then show ?thesis using lt by (simp add: num_to_steal_def min_def word_le_nat_alt RUNTIME_RQ_SIZE_def)
qed

text \<open>
  C5. Starting from fresh kthreads, after any interleaving of wakeups, softirqs, scheduling
  decisions with work stealing, yields and preemptions on any number of kthreads: a thread is
  marked ready exactly if it is in a run queue (of ready or of preempted threads, ring or
  overflow list) of some kthread; no thread is queued twice, in one kthread or in two; and the
  queue lengths that the kthreads publish to the I/O kernel are the real ones, modulo \<open>2^32\<close>.
\<close>

theorem sched_ready_thread_queued_once:
  assumes "sched_fresh s0" and "sched_step\<^sup>*\<^sup>* s0 s"
  defines "queued \<equiv> \<lambda>k. rq_elems (krq (kth s k)) @ rq_elems (kprq (kth s k))"
  shows "(\<forall>t. thread_ready_flag (thr s t) \<longleftrightarrow> (\<exists>k. t \<in> set (queued k))) \<and>
    (\<forall>k. distinct (queued k) \<and> (\<forall>j. j \<noteq> k \<longrightarrow> set (queued j) \<inter> set (queued k) = {}) \<and>
      q_rq_head (kth s k) - q_rq_tail (kth s k) = of_nat (length (rq_elems (krq (kth s k)))) \<and>
      q_prq_head (kth s k) - q_prq_tail (kth s k) = of_nat (length (rq_elems (kprq (kth s k)))))"
proof -
  have m: "sched_ok s" "a_step\<^sup>*\<^sup>* (queues_of s0) (queues_of s)"
    using sched_steps_moves [OF assms(2)] sched_fresh_ok(1) [OF assms(1)] by blast+
  then have "a_inv (queues_of s)" using a_steps_inv sched_fresh_ok(2) [OF assms(1)] by blast
  moreover have "q_rq_head (kth s k) - q_rq_tail (kth s k) = of_nat (length (rq_elems (krq (kth s k))))"
    "q_prq_head (kth s k) - q_prq_tail (kth s k) = of_nat (length (rq_elems (kprq (kth s k))))" for k
    using sched_okD [OF m(1), of k] by (simp_all add: kthread_ok_def)
  ultimately show ?thesis by (simp add: a_inv_def in_queue_def abs_sel queued_def)
qed

definition sched_example :: sched where
  "sched_example = \<lparr>kth = \<lambda>k. kthread_init_thread 0 1 2,
     thr = \<lambda>t. \<lparr>thread_ready_flag = False, thread_running = False, last_cpu = 0, run_start_tsc = 0,
                ready_tsc = 0, preempted = False, main_thread = False\<rparr>\<rparr>"

lemma sched_example_fresh: "sched_fresh sched_example"
  by (auto simp: sched_fresh_def sched_example_def)

definition sched_example1 :: sched where
  "sched_example1 = projr (thread_ready 0 9 5 sched_example)"

lemma sched_example1_eq: "thread_ready 0 9 5 sched_example = Inr sched_example1"
  by (simp add: sched_example1_def thread_ready_def thread_ready_prepare_def sched_example_def Let_def)

lemma sched_example1_abs: "sched_ok sched_example1" "aq (queues_of sched_example1) = (\<lambda>_. [])(0 := [9])"
  "ap (queues_of sched_example1) = (\<lambda>_. [])"
proof -
  note a = thread_ready_abs [OF sched_fresh_ok(1) [OF sched_example_fresh] sched_example1_eq]
  have "aq (queues_of sched_example) = (\<lambda>_. [])" "ap (queues_of sched_example) = (\<lambda>_. [])"
    by (auto simp: fun_eq_iff abs_sel sched_example_def kthread_init_thread_def rq_elems_def rq_window_def rq_len_def)
  then show "sched_ok sched_example1" "aq (queues_of sched_example1) = (\<lambda>_. [])(0 := [9])"
    "ap (queues_of sched_example1) = (\<lambda>_. [])"
    using a by (simp_all add: a_ready_def)
qed

theorem sched_ready_thread_queued_once_witness:
  "sched_fresh sched_example \<and> sched_step\<^sup>*\<^sup>* sched_example sched_example1 \<and>
   thread_ready_flag (thr sched_example1 9) \<and> \<not> thread_ready_flag (thr sched_example1 8) \<and>
   distinct (rq_elems (krq (kth sched_example1 0)) @ rq_elems (kprq (kth sched_example1 0))) \<and>
   q_rq_head (kth sched_example1 0) - q_rq_tail (kth sched_example1 0) = 1"
proof -
  have st: "sched_step\<^sup>*\<^sup>* sched_example sched_example1"
    by (rule r_into_rtranclp) (rule sched_step.wake [OF sched_example1_eq])
  note p = sched_ready_thread_queued_once [OF sched_example_fresh st]
  have "rq_elems (krq (kth sched_example1 k)) = (if k = 0 then [9] else [])" "rq_elems (kprq (kth sched_example1 k)) = []" for k
    using sched_example1_abs(2,3) by (simp_all add: abs_sel [symmetric])
  then show ?thesis using st sched_example_fresh p by (auto split: if_splits)
qed

text \<open>
  C24. \<open>schedule\<close> with no softirq overdue: if the kthread has ready threads it runs the one
  that is first in its queue, whatever the ring and the overflow list hold; if it has none but
  has preempted threads, it runs the first of those; the picked thread leaves its queue, stops
  being ready, and nothing else moves.
\<close>

theorem schedule_runs_first:
  assumes ok: "sched_ok s" and ne: "aq (queues_of s) l @ ap (queues_of s) l = th # ths"
  shows "\<exists>s'. schedule l self None ros now s = Inr (Some (th, s')) \<and> sched_ok s' \<and>
    queues_of s' = (if aq (queues_of s) l \<noteq> [] then a_pick l (queues_of s) else a_pick_preempted l (queues_of s))"
proof -
  define s0 where "s0 = sched_enter l self s"
  have s0: "sched_ok s0" "queues_of s0 = queues_of s" using sched_enter_abs [OF ok] by (simp_all add: s0_def)
  obtain found s1 where r: "schedule_local l s0 = (found, s1)" by fastforce
  note loc = schedule_local_abs [OF s0(1) r]
  have "\<not> idle l s0" using ne s0(2) by (auto simp: idle_def)
  then have f: found and run: "runnable l s1" using loc(3,4) by simp_all
  obtain t s' where p: "sched_pick l now s1 = (t, s')" by fastforce
  note q = sched_pick_abs [OF loc(1) run p]
  have "schedule l self None ros now s = Inr (Some (t, s'))"
    using r f p by (simp add: schedule_unfold s0_def [symmetric])
  moreover have "t = th \<and> queues_of s' = (if aq (queues_of s) l \<noteq> [] then a_pick l (queues_of s) else a_pick_preempted l (queues_of s))"
  proof (cases "aq (queues_of s) l = []")
    case True
    then show ?thesis using q(4) loc(2,5) s0(2) ne by simp
  next
    case False
    then have "t = hd (aq (queues_of s) l) \<and> queues_of s' = a_pick l (queues_of s)" using q(3) loc(2,5) s0(2) by simp
    then show ?thesis using ne False by (cases "aq (queues_of s) l") auto
  qed
  ultimately show ?thesis using q(1) by blast
qed

theorem schedule_runs_first_witness:
  "sched_ok sched_example1 \<and> aq (queues_of sched_example1) 0 @ ap (queues_of sched_example1) 0 = [9] \<and>
   (\<exists>s'. schedule 0 None None [] 7 sched_example1 = Inr (Some (9, s')) \<and> aq (queues_of s') 0 = [])"
proof -
  have a: "aq (queues_of sched_example1) 0 @ ap (queues_of sched_example1) 0 = [9]" by (simp add: sched_example1_abs)
  obtain s' where "schedule 0 None None [] 7 sched_example1 = Inr (Some (9, s'))"
    "queues_of s' = (if aq (queues_of sched_example1) 0 \<noteq> [] then a_pick 0 (queues_of sched_example1)
       else a_pick_preempted 0 (queues_of sched_example1))"
    using schedule_runs_first [OF sched_example1_abs(1) a] by blast
  then show ?thesis using a sched_example1_abs by (simp add: a_pick_def)
qed

text \<open>
  C25. Work stealing is fair to both sides: when the victim has more ready threads than the
  thief, the thief takes half of the difference (rounded up, at most one ring), the ones at the
  front of the victim's queue; the thief's queue is merged by the time the threads became
  ready, so it stays sorted if both queues were; no thread is lost or duplicated; and the
  thief does not end up with more than one thread more than the victim.
\<close>

theorem steal_work_balances:
  assumes ok: "sched_ok s" and lr: "l \<noteq> r" and avail: "work_available r o1 s"
    and small: "length (aq (queues_of s) r) < 2 ^ 31"
    and less: "length (aq (queues_of s) l) < length (aq (queues_of s) r)"
  defines "f \<equiv> \<lambda>t. ready_tsc (thr s t)"
    and "n \<equiv> min ((length (aq (queues_of s) r) - length (aq (queues_of s) l) + 1) div 2) 32"
  shows "\<exists>s'. steal_work l r o1 True now s = Inr (True, s') \<and> sched_ok s' \<and> 0 < n \<and>
    aq (queues_of s') r = drop n (aq (queues_of s) r) \<and>
    mset (aq (queues_of s') l) = mset (take n (aq (queues_of s) r)) + mset (aq (queues_of s) l) \<and>
    (sorted (map f (aq (queues_of s) l)) \<and> sorted (map f (aq (queues_of s) r)) \<longrightarrow> sorted (map f (aq (queues_of s') l))) \<and>
    length (aq (queues_of s') l) \<le> Suc (length (aq (queues_of s') r))"
proof -
  define a b where "a = length (aq (queues_of s) l)" and "b = length (aq (queues_of s) r)"
  have w: "q_rq_head (kth s l) - q_rq_tail (kth s l) = of_nat a" "q_rq_head (kth s r) - q_rq_tail (kth s r) = of_nat b"
    using sched_okD [OF ok, of l] sched_okD [OF ok, of r] by (simp_all add: kthread_ok_def a_def b_def abs_sel)
  have ab: "a < b" "b < 2 ^ 31" using less small by (simp_all add: a_def b_def)
  have ua: "unat (of_nat a :: u32) = a" "unat (of_nat b :: u32) = b" using ab by (simp_all add: unat_of_nat)
  have n: "unat (num_to_steal (of_nat a) (of_nat b)) = n" "0 < n"
    using num_to_steal_nat [OF ab] ab by (simp_all add: n_def a_def b_def)
  then have "num_to_steal (of_nat a) (of_nat b) \<noteq> 0" by auto
  then have r: "steal_work l r o1 True now s = Inr (True, merge_runqueues l a r n s)"
    using avail n by (simp add: steal_work_def Let_def w ua)
  note m = merge_runqueues_abs [OF ok lr a_def, of n]
  have q: "aq (queues_of (merge_runqueues l a r n s)) r = drop n (aq (queues_of s) r)"
    "aq (queues_of (merge_runqueues l a r n s)) l = merge_by f (take n (aq (queues_of s) r)) (aq (queues_of s) l)"
    using m(2) lr by (simp_all add: a_steal_def f_def)
  have "a + n \<le> Suc (b - n)" "n \<le> b" using ab by (auto simp: n_def a_def [symmetric] b_def [symmetric])
  moreover have "sorted (map f (aq (queues_of s) r)) \<Longrightarrow> sorted (map f (take n (aq (queues_of s) r)))"
    by (simp add: take_map [symmetric] sorted_wrt_take)
  ultimately show ?thesis using r m(1) n(2)
    by (intro exI [of _ "merge_runqueues l a r n s"])
      (auto simp: q mset_merge_by length_merge_by a_def [symmetric] b_def [symmetric] intro: sorted_merge_by)
qed

lemma sched_example_steal:
  "work_available 0 \<lparr>so_iokernel = False, so_timer = False, so_storage = False\<rparr> sched_example1"
  using rq_nonempty [of "krq (kth sched_example1 0)"] sched_example1_abs(2)
  by (auto simp: work_available_def sched_example1_def thread_ready_def thread_ready_prepare_def sched_example_def
      Let_def kthread_init_thread_def rq_push_def RUNTIME_RQ_SIZE_def)

theorem steal_work_balances_witness:
  "\<exists>s'. steal_work 1 0 \<lparr>so_iokernel = False, so_timer = False, so_storage = False\<rparr> True 8 sched_example1 = Inr (True, s') \<and>
     aq (queues_of s') 0 = [] \<and> mset (aq (queues_of s') 1) = {#9#}"
  using steal_work_balances [OF sched_example1_abs(1), of 1 0, OF _ sched_example_steal, of 8]
  by (auto simp: sched_example1_abs)

text \<open>
  \<open>thread_ready\<close> stops the program exactly if the thread is ready already; otherwise it
  puts the thread at the end of the kthread's queue, by whichever of its paths (ring,
  overflow list), and marks it ready. \<open>thread_ready_locked\<close> does the same, and
  \<open>thread_preempt_ready\<close> does it on the queue of preempted threads.
\<close>

theorem thread_ready_appends:
  assumes ok: "sched_ok s"
  shows "(thread_ready_flag (thr s th) \<longrightarrow>
        thread_ready k th now s = Inl Bug_on \<and> thread_ready_locked k th now s = Inl Bug_on \<and>
        thread_preempt_ready k th s = Inl Bug_on) \<and>
    (\<not> thread_ready_flag (thr s th) \<longrightarrow>
        (\<exists>s1 s2 s3. thread_ready k th now s = Inr s1 \<and> thread_ready_locked k th now s = Inr s2 \<and>
           thread_preempt_ready k th s = Inr s3 \<and> sched_ok s1 \<and> sched_ok s2 \<and> sched_ok s3 \<and>
           queues_of s1 = a_ready k th (queues_of s) \<and> queues_of s2 = a_ready k th (queues_of s) \<and>
           queues_of s3 = a_preempt k th (queues_of s)))"
proof (cases "thread_ready_flag (thr s th)")
  case True
  then show ?thesis
    by (simp add: thread_ready_def thread_ready_locked_def thread_preempt_ready_def thread_ready_prepare_def
        thread_preempt_ready_prepare_def Let_def drain_overflow_def)
next
  case False
  have "\<exists>s1. thread_ready k th now s = Inr s1" "\<exists>s2. thread_ready_locked k th now s = Inr s2"
    "\<exists>s3. thread_preempt_ready k th s = Inr s3"
    using False by (simp_all add: thread_ready_def thread_ready_locked_def thread_preempt_ready_def thread_ready_prepare_def
        thread_preempt_ready_prepare_def Let_def drain_overflow_def)
  then obtain s1 s2 s3 where r: "thread_ready k th now s = Inr s1" "thread_ready_locked k th now s = Inr s2"
    "thread_preempt_ready k th s = Inr s3" by blast
  then show ?thesis
    using False thread_ready_abs [OF ok r(1)] thread_ready_locked_abs [OF ok r(2)] thread_preempt_ready_abs [OF ok r(3)]
    by simp
qed

theorem thread_ready_appends_witness:
  "sched_ok sched_example1 \<and> thread_ready 0 9 6 sched_example1 = Inl Bug_on \<and>
   (\<exists>s1. thread_ready 0 4 6 sched_example1 = Inr s1 \<and> aq (queues_of s1) 0 = [9, 4])"
proof -
  have f: "thread_ready_flag (thr sched_example1 9)" "\<not> thread_ready_flag (thr sched_example1 4)"
    by (simp_all add: sched_example1_def thread_ready_def thread_ready_prepare_def sched_example_def Let_def
        drain_overflow_def)
  show ?thesis
    using thread_ready_appends [OF sched_example1_abs(1), of 9 0 6] thread_ready_appends [OF sched_example1_abs(1), of 4 0 6]
      f sched_example1_abs by (auto simp: a_ready_def)
qed

end
