(* ===== verification/Bitmap.thy ===== *)
theory Bitmap
  imports Stddef
begin

text \<open>
  Bit arrays (\<open>inc/base/bitmap.h\<close>, \<open>base/bitmap.c\<close>) and the parser of lists of cores
  (\<open>string_to_bitmap\<close>). An array of \<open>unsigned long\<close> is a list of 64-bit words, bit
  numbers and sizes (non-negative \<open>int\<close> in the code) are natural numbers, and an access
  past the array is the fault \<open>Out_of_bounds\<close>. The atomic variants act on the one word
  they address and are the same functions of it.
\<close>

type_synonym bitmap = "u64 list"

subsection \<open>Operations on single bits\<close>

definition BITMAP_LONG_SIZE :: "nat \<Rightarrow> nat" where
  "BITMAP_LONG_SIZE nbits = (nbits + 64 - 1) div 64"

definition BITMAP_POS_IDX :: "nat \<Rightarrow> nat" where
  "BITMAP_POS_IDX pos = pos div 64"

definition BITMAP_POS_SHIFT :: "nat \<Rightarrow> nat" where
  "BITMAP_POS_SHIFT pos = pos mod 64"

definition bit_of_pos :: "nat \<Rightarrow> u64" where
  "bit_of_pos pos = push_bit (BITMAP_POS_SHIFT pos) 1"

text \<open>Read, modify and write the word of a position.\<close>

definition at_pos :: "bitmap \<Rightarrow> nat \<Rightarrow> (u64 \<Rightarrow> 'a \<times> u64) \<Rightarrow> ('a \<times> bitmap) exec" where
  "at_pos bits pos f =
     (let i = BITMAP_POS_IDX pos
      in if i < length bits then let (r, w) = f (bits ! i) in Inr (r, bits[i := w])
         else Inl Out_of_bounds)"

definition bitmap_set :: "bitmap \<Rightarrow> nat \<Rightarrow> bitmap exec" where
  "bitmap_set bits pos =
     bind_exec (at_pos bits pos (\<lambda>w. ((), w OR bit_of_pos pos))) (\<lambda>(_, bits). Inr bits)"

definition bitmap_clear :: "bitmap \<Rightarrow> nat \<Rightarrow> bitmap exec" where
  "bitmap_clear bits pos =
     bind_exec (at_pos bits pos (\<lambda>w. ((), w AND NOT (bit_of_pos pos)))) (\<lambda>(_, bits). Inr bits)"

definition bitmap_test :: "bitmap \<Rightarrow> nat \<Rightarrow> bool exec" where
  "bitmap_test bits pos =
     bind_exec (at_pos bits pos (\<lambda>w. (w AND bit_of_pos pos \<noteq> 0, w))) (\<lambda>(b, _). Inr b)"

definition bitmap_atomic_set :: "bitmap \<Rightarrow> nat \<Rightarrow> bitmap exec" where
  "bitmap_atomic_set bits pos =
     bind_exec (at_pos bits pos (\<lambda>w. (w, w OR bit_of_pos pos))) (\<lambda>(_, bits). Inr bits)"

definition bitmap_atomic_test_and_set :: "bitmap \<Rightarrow> nat \<Rightarrow> (bool \<times> bitmap) exec" where
  "bitmap_atomic_test_and_set bits pos =
     bind_exec (at_pos bits pos (\<lambda>w. (w, w OR bit_of_pos pos)))
       (\<lambda>(old, bits). Inr (old AND bit_of_pos pos \<noteq> 0, bits))"

definition bitmap_atomic_clear :: "bitmap \<Rightarrow> nat \<Rightarrow> bitmap exec" where
  "bitmap_atomic_clear bits pos =
     bind_exec (at_pos bits pos (\<lambda>w. (w, w AND NOT (bit_of_pos pos)))) (\<lambda>(_, bits). Inr bits)"

definition bitmap_atomic_test :: "bitmap \<Rightarrow> nat \<Rightarrow> bool exec" where
  "bitmap_atomic_test bits pos =
     bind_exec (at_pos bits pos (\<lambda>w. (w, w))) (\<lambda>(old, _). Inr (old AND bit_of_pos pos \<noteq> 0))"

subsection \<open>Operations on whole arrays\<close>

definition builtin_popcountl :: "u64 \<Rightarrow> nat" where
  "builtin_popcountl w = length (filter (bit w) [0..<64])"

fun popcount_loop :: "bitmap \<Rightarrow> nat \<Rightarrow> nat \<Rightarrow> nat \<Rightarrow> nat exec" where
  "popcount_loop bits 0 i val = Inr val"
| "popcount_loop bits (Suc n) i val =
     (if i < length bits then popcount_loop bits n (Suc i) (val + builtin_popcountl (bits ! i))
      else Inl Out_of_bounds)"

definition bitmap_popcount :: "bitmap \<Rightarrow> nat \<Rightarrow> nat exec" where
  "bitmap_popcount bits nbits = popcount_loop bits (BITMAP_LONG_SIZE nbits) 0 0"

text \<open>The loop of \<open>bitmap_and\<close>, \<open>bitmap_or\<close>, \<open>bitmap_xor\<close> and \<open>bitmap_atomic_or\<close>.\<close>

fun map2_loop :: "(u64 \<Rightarrow> u64 \<Rightarrow> u64) \<Rightarrow> bitmap \<Rightarrow> bitmap \<Rightarrow> nat \<Rightarrow> nat \<Rightarrow> bitmap \<Rightarrow> bitmap exec" where
  "map2_loop f src1 src2 0 i dst = Inr dst"
| "map2_loop f src1 src2 (Suc n) i dst =
     (if i < length src1 \<and> i < length src2 \<and> i < length dst
      then map2_loop f src1 src2 n (Suc i) (dst[i := f (src1 ! i) (src2 ! i)])
      else Inl Out_of_bounds)"

definition bitmap_and :: "bitmap \<Rightarrow> bitmap \<Rightarrow> bitmap \<Rightarrow> nat \<Rightarrow> bitmap exec" where
  "bitmap_and dst src1 src2 nbits = map2_loop (\<lambda>a b. a AND b) src1 src2 (BITMAP_LONG_SIZE nbits) 0 dst"

definition bitmap_or :: "bitmap \<Rightarrow> bitmap \<Rightarrow> bitmap \<Rightarrow> nat \<Rightarrow> bitmap exec" where
  "bitmap_or dst src1 src2 nbits = map2_loop (\<lambda>a b. a OR b) src1 src2 (BITMAP_LONG_SIZE nbits) 0 dst"

definition bitmap_xor :: "bitmap \<Rightarrow> bitmap \<Rightarrow> bitmap \<Rightarrow> nat \<Rightarrow> bitmap exec" where
  "bitmap_xor dst src1 src2 nbits = map2_loop (\<lambda>a b. a XOR b) src1 src2 (BITMAP_LONG_SIZE nbits) 0 dst"

definition bitmap_atomic_or :: "bitmap \<Rightarrow> bitmap \<Rightarrow> nat \<Rightarrow> bitmap exec" where
  "bitmap_atomic_or dst src nbits = map2_loop (\<lambda>a b. a OR b) dst src (BITMAP_LONG_SIZE nbits) 0 dst"

definition bitmap_init :: "bitmap \<Rightarrow> nat \<Rightarrow> bool \<Rightarrow> bitmap exec" where
  "bitmap_init bits nbits state =
     (let n = BITMAP_LONG_SIZE nbits
      in if n \<le> length bits then Inr (replicate n (if state then -1 else 0) @ drop n bits)
         else Inl Out_of_bounds)"

subsection \<open>Searching\<close>

definition builtin_ffsl :: "u64 \<Rightarrow> nat" where
  "builtin_ffsl w = (if w = 0 then 0 else Suc (length (takeWhile (\<lambda>i. \<not> bit w i) [0..<64])))"

function find_next_loop :: "bitmap \<Rightarrow> nat \<Rightarrow> bool \<Rightarrow> nat \<Rightarrow> u64 \<Rightarrow> nat exec" where
  "find_next_loop bits nbits invert idx msk =
     (if idx < nbits
      then if BITMAP_POS_IDX idx < length bits
           then let val = bits ! BITMAP_POS_IDX idx;
                    val = (if invert then NOT val else val);
                    val = val AND msk
                in if val \<noteq> 0 then Inr (min (idx + builtin_ffsl val - 1) nbits)
                   else find_next_loop bits nbits invert (idx + 64) (-1)
           else Inl Out_of_bounds
      else Inr nbits)"
  by pat_completeness auto
termination by (relation "measure (\<lambda>(_, nbits, _, idx, _). nbits - idx)") auto

declare find_next_loop.simps [simp del]

definition bitmap_find_next :: "bitmap \<Rightarrow> nat \<Rightarrow> nat \<Rightarrow> bool \<Rightarrow> nat exec" where
  "bitmap_find_next bits nbits pos invert =
     find_next_loop bits nbits invert (pos - pos mod 64)
       (NOT (push_bit (BITMAP_POS_SHIFT pos) 1 - 1))"

definition bitmap_find_next_cleared :: "bitmap \<Rightarrow> nat \<Rightarrow> nat \<Rightarrow> nat exec" where
  "bitmap_find_next_cleared bits nbits pos = bitmap_find_next bits nbits pos True"

definition bitmap_find_next_set :: "bitmap \<Rightarrow> nat \<Rightarrow> nat \<Rightarrow> nat exec" where
  "bitmap_find_next_set bits nbits pos = bitmap_find_next bits nbits pos False"

text \<open>
  The positions that a \<open>bitmap_for_each_set\<close> or \<open>bitmap_for_each_cleared\<close> loop visits,
  \<open>next\<close> being the search and \<open>pos\<close> the position it continues from. Every visited
  position is new, so one unit of fuel per bit and one for the end are enough.
\<close>

fun for_each_loop :: "nat \<Rightarrow> (nat \<Rightarrow> nat exec) \<Rightarrow> nat \<Rightarrow> nat \<Rightarrow> (nat list option) exec" where
  "for_each_loop 0 nxt nbits pos = Inr None"
| "for_each_loop (Suc fuel) nxt nbits pos =
     bind_exec (nxt pos) (\<lambda>p.
       if p < nbits
       then bind_exec (for_each_loop fuel nxt nbits (p + 1)) (\<lambda>r. Inr (map_option (\<lambda>ps. p # ps) r))
       else Inr (Some []))"

definition bitmap_for_each_set :: "bitmap \<Rightarrow> nat \<Rightarrow> (nat list option) exec" where
  "bitmap_for_each_set bits nbits = for_each_loop (Suc nbits) (bitmap_find_next_set bits nbits) nbits 0"

definition bitmap_for_each_cleared :: "bitmap \<Rightarrow> nat \<Rightarrow> (nat list option) exec" where
  "bitmap_for_each_cleared bits nbits = for_each_loop (Suc nbits) (bitmap_find_next_cleared bits nbits) nbits 0"

subsection \<open>The set a bitmap stands for\<close>

definition bset :: "bitmap \<Rightarrow> nat \<Rightarrow> bool" where
  "bset bits p \<longleftrightarrow> p div 64 < length bits \<and> bit (bits ! (p div 64)) (p mod 64)"

lemma bit_bit_of_pos: "bit (bit_of_pos pos) n \<longleftrightarrow> n = pos mod 64 \<and> n < 64"
  by (auto simp: bit_of_pos_def BITMAP_POS_SHIFT_def bit_simps)

lemma and_bit_of_pos: "w AND bit_of_pos pos \<noteq> 0 \<longleftrightarrow> bit w (pos mod 64)"
proof
  assume "w AND bit_of_pos pos \<noteq> 0"
  then obtain n where "bit (w AND bit_of_pos pos) n" by (auto simp: bit_eq_iff)
  then show "bit w (pos mod 64)" by (auto simp: bit_and_iff bit_bit_of_pos)
next
  assume "bit w (pos mod 64)"
  then have "bit (w AND bit_of_pos pos) (pos mod 64)" by (simp add: bit_and_iff bit_bit_of_pos)
  then show "w AND bit_of_pos pos \<noteq> 0" by auto
qed

lemma pos_eq_iff: "p = q \<longleftrightarrow> p div 64 = q div 64 \<and> p mod 64 = q mod (64 :: nat)"
  by (metis div_mult_mod_eq)

lemma bset_update:
  assumes "i < length bits"
  shows "bset (bits[i := w]) p \<longleftrightarrow> (if p div 64 = i then bit w (p mod 64) else bset bits p)"
  using assms by (auto simp: bset_def)

lemmas bitmap_op_defs = bitmap_set_def bitmap_clear_def bitmap_test_def bitmap_atomic_set_def
  bitmap_atomic_test_and_set_def bitmap_atomic_clear_def bitmap_atomic_test_def at_pos_def BITMAP_POS_IDX_def

lemma bitmap_set_bset:
  assumes "pos < 64 * length bits"
  shows "\<exists>bits'. bitmap_set bits pos = Inr bits' \<and> length bits' = length bits \<and> (\<forall>p. bset bits' p \<longleftrightarrow> p = pos \<or> bset bits p)"
  using assms
  by (auto simp: bitmap_op_defs bset_update bit_or_iff bit_bit_of_pos pos_eq_iff [of _ pos] Let_def) (auto simp: bset_def)

lemma bitmap_clear_bset:
  assumes "pos < 64 * length bits"
  shows "\<exists>bits'. bitmap_clear bits pos = Inr bits' \<and> length bits' = length bits \<and> (\<forall>p. bset bits' p \<longleftrightarrow> p \<noteq> pos \<and> bset bits p)"
  using assms
  by (auto simp: bitmap_op_defs bset_update bit_and_iff bit_not_iff bit_bit_of_pos pos_eq_iff [of _ pos] Let_def) (auto simp: bset_def)

lemma bitmap_test_bset: "pos < 64 * length bits \<Longrightarrow> bitmap_test bits pos = Inr (bset bits pos)"
  by (auto simp: bitmap_op_defs and_bit_of_pos bset_def Let_def)

lemma bitmap_op_fault:
  assumes "64 * length bits \<le> pos"
  shows "bitmap_set bits pos = Inl Out_of_bounds" "bitmap_clear bits pos = Inl Out_of_bounds"
    "bitmap_test bits pos = Inl Out_of_bounds"
  using assms by (auto simp: bitmap_op_defs Let_def)

lemma bitmap_atomic_eq:
  "bitmap_atomic_set = bitmap_set" "bitmap_atomic_clear = bitmap_clear" "bitmap_atomic_test = bitmap_test"
  "bitmap_atomic_test_and_set bits pos =
     bind_exec (bitmap_test bits pos) (\<lambda>b. bind_exec (bitmap_set bits pos) (\<lambda>bits. Inr (b, bits)))"
  by (auto simp: fun_eq_iff bitmap_op_defs Let_def)

subsection \<open>Searching finds the next bit\<close>

lemma length_takeWhile_upt:
  assumes "i < n" and "P i"
  defines "k \<equiv> length (takeWhile (\<lambda>i. \<not> P i) [0..<n])"
  shows "k < n \<and> P k \<and> (\<forall>j<k. \<not> P j)"
proof -
  have lt: "k < length [0..<n]"
  proof (rule ccontr)
    assume "\<not> k < length [0..<n]"
    then have "takeWhile (\<lambda>i. \<not> P i) [0..<n] = [0..<n]"
      using takeWhile_eq_take [of "\<lambda>i. \<not> P i" "[0..<n]"] by (simp add: k_def)
    then show False using assms(1,2) by (auto simp: takeWhile_eq_all_conv)
  qed
  have "\<not> \<not> P ([0..<n] ! k)" using nth_length_takeWhile lt unfolding k_def by metis
  moreover have "\<not> P ([0..<n] ! j)" if "j < k" for j
    using that takeWhile_nth [of j "\<lambda>i. \<not> P i" "[0..<n]"] set_takeWhileD nth_mem unfolding k_def by metis
  ultimately show ?thesis using lt by auto
qed

lemma builtin_ffsl_least:
  assumes "w \<noteq> 0"
  shows "\<exists>k < 64. builtin_ffsl w = Suc k \<and> bit w k \<and> (\<forall>j<k. \<not> bit w j)"
proof -
  obtain i where "bit w i" using assms by (auto simp: bit_eq_iff)
  then have "i < 64" using bit_imp_le_length by fastforce
  from length_takeWhile_upt [of i 64 "bit w", OF this \<open>bit w i\<close>] show ?thesis using assms by (auto simp: builtin_ffsl_def)
qed

definition is_next :: "(nat \<Rightarrow> bool) \<Rightarrow> nat \<Rightarrow> nat \<Rightarrow> nat \<Rightarrow> bool" where
  "is_next hit nbits pos r \<longleftrightarrow>
     (\<forall>p. pos \<le> p \<and> p < r \<and> p < nbits \<longrightarrow> \<not> hit p) \<and> (r = nbits \<or> pos \<le> r \<and> r < nbits \<and> hit r)"

lemma find_next_loop_spec:
  assumes "idx mod 64 = 0" and "nbits \<le> 64 * length bits"
    and "\<And>m. m < 64 \<Longrightarrow> bit msk m \<longleftrightarrow> pos \<le> idx + m"
    and "\<And>p. pos \<le> p \<Longrightarrow> p < idx \<Longrightarrow> p < nbits \<Longrightarrow> bset bits p = invert"
    and "pos < idx + 64"
  shows "\<exists>r. find_next_loop bits nbits invert idx msk = Inr r \<and> is_next (\<lambda>p. bset bits p \<noteq> invert) nbits pos r"
  using assms
proof (induction bits nbits invert idx msk rule: find_next_loop.induct)
  case (1 bits nbits invert idx msk)
  note prems = "1.prems"
  show ?case
  proof (cases "idx < nbits")
    case True
    define i where "i = idx div 64"
    have i: "i < length bits" "idx = 64 * i" using True prems(1,2) by (auto simp: i_def)
    define val where "val = (if invert then NOT (bits ! i) else bits ! i) AND msk"
    have bval: "bit val m \<longleftrightarrow> bset bits (idx + m) \<noteq> invert \<and> pos \<le> idx + m" if "m < 64" for m
      using that prems(3) [OF that] i by (auto simp: val_def bset_def bit_and_iff bit_not_iff)
    have step: "find_next_loop bits nbits invert idx msk =
        (if val \<noteq> 0 then Inr (min (idx + builtin_ffsl val - 1) nbits) else find_next_loop bits nbits invert (idx + 64) (-1))"
      using True i unfolding find_next_loop.simps [of _ _ _ idx] by (simp add: BITMAP_POS_IDX_def val_def Let_def)
    show ?thesis
    proof (cases "val = 0")
      case False
      from builtin_ffsl_least [OF this] obtain k where k: "k < 64" "builtin_ffsl val = Suc k" "bit val k"
        "\<forall>j<k. \<not> bit val j" by blast
      have "is_next (\<lambda>p. bset bits p \<noteq> invert) nbits pos (min (idx + k) nbits)"
        unfolding is_next_def
      proof (intro conjI allI impI)
        fix p assume p: "pos \<le> p \<and> p < min (idx + k) nbits \<and> p < nbits"
        show "\<not> bset bits p \<noteq> invert"
        proof (cases "p < idx")
          case True
          then show ?thesis using prems(4) p by simp
        next
          case False
          then have "p = idx + (p - idx)" "p - idx < k" using p by auto
          then show ?thesis using k(1,4) bval [of "p - idx"] p by force
        qed
      qed (use k bval [OF k(1)] in auto)
      then show ?thesis using step False k(2) by simp
    next
      case True
      then have none: "bset bits (idx + m) = invert" if "m < 64" "pos \<le> idx + m" for m using bval that by force
      have "bset bits p = invert" if "pos \<le> p" "p < idx + 64" "p < nbits" for p
        using that prems(4) [of p] none [of "p - idx"] by (cases "p < idx") auto
      then have "\<exists>r. find_next_loop bits nbits invert (idx + 64) (-1) = Inr r \<and> is_next (\<lambda>p. bset bits p \<noteq> invert) nbits pos r"
        using prems(1,2,5) i True
        by (intro "1.IH" [OF \<open>idx < nbits\<close> _ refl refl refl]) (auto simp: BITMAP_POS_IDX_def val_def split: if_splits)
      then show ?thesis using step True by simp
    qed
  next
    case False
    then have "find_next_loop bits nbits invert idx msk = Inr nbits" by (simp add: find_next_loop.simps)
    moreover have "is_next (\<lambda>p. bset bits p \<noteq> invert) nbits pos nbits"
      using prems(4) False by (auto simp: is_next_def)
    ultimately show ?thesis by blast
  qed
qed

lemma bit_start_mask:
  "m < 64 \<Longrightarrow> bit (NOT (push_bit (BITMAP_POS_SHIFT pos) 1 - 1) :: u64) m \<longleftrightarrow> pos \<le> pos - pos mod 64 + m"
proof -
  assume m: "m < 64"
  have "push_bit (pos mod 64) (1 :: u64) - 1 = mask (pos mod 64)" by (simp add: mask_eq_exp_minus_1 push_bit_eq_mult)
  moreover have "pos mod 64 \<le> pos" by simp
  ultimately show ?thesis using m by (auto simp: BITMAP_POS_SHIFT_def bit_simps)
qed

lemma bitmap_find_next_spec:
  assumes "nbits \<le> 64 * length bits"
  shows "\<exists>r. bitmap_find_next bits nbits pos invert = Inr r \<and> is_next (\<lambda>p. bset bits p \<noteq> invert) nbits pos r"
  unfolding bitmap_find_next_def
proof (rule find_next_loop_spec [OF _ assms])
  show "(pos - pos mod 64) mod 64 = 0" by (simp add: minus_mod_eq_mult_div)
  show "pos < pos - pos mod 64 + 64" using mod_less_divisor [of 64 pos] mod_le_divisor by linarith
qed (simp only: bit_start_mask, simp)

lemma filter_upt_next:
  assumes "is_next hit nbits pos r" and "r < nbits"
  shows "filter hit [pos..<nbits] = r # filter hit [Suc r..<nbits]"
proof -
  have r: "pos \<le> r" "hit r" "\<And>p. pos \<le> p \<Longrightarrow> p < r \<Longrightarrow> \<not> hit p" using assms by (auto simp: is_next_def)
  have "[pos..<nbits] = [pos..<r] @ r # [Suc r..<nbits]"
    using upt_add_eq_append [OF r(1), of "nbits - r"] upt_conv_Cons [OF assms(2)] assms(2) by simp
  moreover have "filter hit [pos..<r] = []" using r(3) by (auto simp: filter_empty_conv)
  ultimately show ?thesis using r(2) by simp
qed

lemma for_each_loop_spec:
  assumes nxt: "\<And>p. \<exists>r. nxt p = Inr r \<and> is_next hit nbits p r"
  shows "nbits - pos < fuel \<Longrightarrow> for_each_loop fuel nxt nbits pos = Inr (Some (filter hit [pos..<nbits]))"
proof (induction fuel arbitrary: pos)
  case (Suc fuel)
  obtain r where r: "nxt pos = Inr r" "is_next hit nbits pos r" using nxt by blast
  show ?case
  proof (cases "r < nbits")
    case True
    then have "pos \<le> r" using r(2) by (auto simp: is_next_def)
    then have "for_each_loop fuel nxt nbits (Suc r) = Inr (Some (filter hit [Suc r..<nbits]))"
      using True Suc.prems by (intro Suc.IH) simp
    then show ?thesis using r True filter_upt_next [OF r(2) True] by simp
  next
    case False
    then have "filter hit [pos..<nbits] = []" using r(2) by (auto simp: is_next_def filter_empty_conv)
    then show ?thesis using r(1) False by simp
  qed
qed simp

subsection \<open>Whole arrays\<close>

lemma map2_loop_spec:
  assumes "i + n \<le> length src1" and "i + n \<le> length src2" and "i + n \<le> length dst"
  shows "\<exists>d. map2_loop f src1 src2 n i dst = Inr d \<and> length d = length dst \<and>
    (\<forall>j < length dst. d ! j = (if i \<le> j \<and> j < i + n then f (src1 ! j) (src2 ! j) else dst ! j))"
  using assms
proof (induction n arbitrary: i dst)
  case (Suc n)
  let ?dst = "dst[i := f (src1 ! i) (src2 ! i)]"
  obtain d where d: "map2_loop f src1 src2 n (Suc i) ?dst = Inr d" "length d = length ?dst"
    "\<forall>j < length ?dst. d ! j = (if Suc i \<le> j \<and> j < Suc i + n then f (src1 ! j) (src2 ! j) else ?dst ! j)"
    using Suc.IH [of "Suc i" ?dst] Suc.prems by auto
  then show ?case using Suc.prems by (auto simp: nth_list_update not_less_eq_eq dest: le_antisym)
qed auto

lemma LONG_SIZE_bound: "nbits \<le> 64 * length bits \<Longrightarrow> BITMAP_LONG_SIZE nbits \<le> length bits"
  by (auto simp: BITMAP_LONG_SIZE_def)

lemma LONG_SIZE_covers: "p < nbits \<Longrightarrow> p div 64 < BITMAP_LONG_SIZE nbits"
  by (auto simp: BITMAP_LONG_SIZE_def div_less_iff_less_mult)

lemma bitwise_loop_bset:
  assumes f: "\<And>a b n. n < 64 \<Longrightarrow> bit (f a b) n = g (bit a n) (bit b n)"
    and len: "nbits \<le> 64 * length src1" "nbits \<le> 64 * length src2" "nbits \<le> 64 * length dst"
  shows "\<exists>d. map2_loop f src1 src2 (BITMAP_LONG_SIZE nbits) 0 dst = Inr d \<and> length d = length dst \<and>
    (\<forall>p < nbits. bset d p = g (bset src1 p) (bset src2 p))"
proof -
  have n: "BITMAP_LONG_SIZE nbits \<le> length src1" "BITMAP_LONG_SIZE nbits \<le> length src2"
    "BITMAP_LONG_SIZE nbits \<le> length dst" using len LONG_SIZE_bound by blast+
  then obtain d where d: "map2_loop f src1 src2 (BITMAP_LONG_SIZE nbits) 0 dst = Inr d" "length d = length dst"
    "\<forall>j < length dst. d ! j = (if j < BITMAP_LONG_SIZE nbits then f (src1 ! j) (src2 ! j) else dst ! j)"
    using map2_loop_spec [of 0 "BITMAP_LONG_SIZE nbits" src1 src2 dst f] by auto
  have "bset d p = g (bset src1 p) (bset src2 p)" if "p < nbits" for p
  proof -
    have i: "p div 64 < BITMAP_LONG_SIZE nbits" using LONG_SIZE_covers [OF that] .
    then show ?thesis using d(2,3) n f [of "p mod 64"] by (simp add: bset_def)
  qed
  then show ?thesis using d by blast
qed

lemma popcount_word:
  assumes "i < length bits"
  shows "length (filter (bset bits) [64 * i..<64 * i + 64]) = builtin_popcountl (bits ! i)"
proof -
  have "[64 * i..<64 * i + 64] = map (\<lambda>j. j + 64 * i) [0..<64]" by (simp only: map_add_upt add.commute)
  moreover have "bset bits (j + 64 * i) = bit (bits ! i) j" if "j < 64" for j using that assms by (simp add: bset_def)
  then have "filter (bset bits \<circ> (\<lambda>j. j + 64 * i)) [0..<64] = filter (bit (bits ! i)) [0..<64]"
    by (intro filter_cong) auto
  ultimately show ?thesis by (simp add: filter_map builtin_popcountl_def)
qed

lemma popcount_loop_spec:
  "i + n \<le> length bits \<Longrightarrow>
     popcount_loop bits n i val = Inr (val + length (filter (bset bits) [64 * i..<64 * (i + n)]))"
proof (induction n arbitrary: i val)
  case (Suc n)
  have "[64 * i..<64 * (i + Suc n)] = [64 * i..<64 * i + 64] @ [64 * Suc i..<64 * (Suc i + n)]"
    using upt_add_eq_append [of "64 * i" "64 * i + 64" "64 * n"] by (simp add: algebra_simps)
  then show ?case using Suc popcount_word [of i bits] by (simp add: add.assoc)
qed simp

subsection \<open>Lists of cores\<close>

text \<open>
  A pointer into the parsed string is the rest of the string from there on, so a smaller
  pointer is a longer rest; \<open>None\<close> is the null pointer.
\<close>

definition isdigit :: "char \<Rightarrow> bool" where
  "isdigit c \<longleftrightarrow> 48 \<le> (of_char c :: nat) \<and> (of_char c :: nat) \<le> 57"

definition nexttoken :: "string option \<Rightarrow> char \<Rightarrow> string option" where
  "nexttoken q sep =
     (case q of None \<Rightarrow> None
      | Some s \<Rightarrow> (case dropWhile (\<lambda>c. c \<noteq> sep) s of [] \<Rightarrow> None | _ # rest \<Rightarrow> Some rest))"

fun digits_value :: "nat \<Rightarrow> string \<Rightarrow> nat" where
  "digits_value acc [] = acc"
| "digits_value acc (c # cs) = digits_value (10 * acc + (of_char c - 48)) cs"

text \<open>
  \<open>nextnumber\<close>: \<open>None\<close> is an error. \<open>strtoul\<close> reads the longest run of digits and fails
  with \<open>ERANGE\<close> above \<open>ULONG_MAX\<close>; the result is cut to 32 bits.
\<close>

definition nextnumber :: "string option \<Rightarrow> (string \<times> u32) option" where
  "nextnumber str =
     (case str of
        None \<Rightarrow> None
      | Some [] \<Rightarrow> None
      | Some (c # cs) \<Rightarrow>
          if \<not> isdigit c then None
          else let n = digits_value 0 (takeWhile isdigit (c # cs))
               in if n < 2 ^ 64 then Some (dropWhile isdigit (c # cs), of_nat n) else None)"

definition ptr_before :: "string option \<Rightarrow> string option \<Rightarrow> bool" where
  "ptr_before c1 c2 \<longleftrightarrow>
     (case c1 of None \<Rightarrow> False
      | Some s1 \<Rightarrow> (case c2 of None \<Rightarrow> True | Some s2 \<Rightarrow> length s1 > length s2))"

text \<open>
  The loop that sets the bits of one range. Each round sets another bit below \<open>nbits\<close>, so
  \<open>nbits + 1\<close> rounds are enough; running out of fuel is \<open>None\<close> inside.
\<close>

fun range_loop :: "nat \<Rightarrow> u32 \<Rightarrow> u32 \<Rightarrow> u32 \<Rightarrow> bitmap \<Rightarrow> nat \<Rightarrow> (bool \<times> bitmap) option exec" where
  "range_loop 0 a b s bits nbits = Inr None"
| "range_loop (Suc fuel) a b s bits nbits =
     (if a \<le> b
      then if unat a \<ge> nbits then Inr (Some (False, bits))
           else bind_exec (bitmap_set bits (unat a)) (\<lambda>bits. range_loop fuel (a + s) b s bits nbits)
      else Inr (Some (True, bits)))"

text \<open>The head of the main loop: the range and the rest after it, or an error.\<close>

definition parse_range :: "string \<Rightarrow> (u32 \<times> u32 \<times> u32 \<times> string) option" where
  "parse_range p =
     (case nextnumber (Some p) of
        None \<Rightarrow> None
      | Some (end1, a) \<Rightarrow>
          let c1 = nexttoken (Some end1) (CHR ''-'');
              c2 = nexttoken (Some end1) (CHR '','')
          in if ptr_before c1 c2
             then case nextnumber c1 of
                    None \<Rightarrow> None
                  | Some (end2, b) \<Rightarrow>
                      let c1 = (if end2 \<noteq> [] then nexttoken (Some end2) (CHR '':'') else None)
                      in if ptr_before c1 c2
                         then case nextnumber c1 of
                                None \<Rightarrow> None
                              | Some (end3, s) \<Rightarrow> if s = 0 then None else Some (a, b, s, end3)
                         else Some (a, b, 1, end2)
             else Some (a, a, 1, end1))"

lemma nexttoken_shorter: "nexttoken (Some p) sep = Some q \<Longrightarrow> length q < length p"
proof -
  assume "nexttoken (Some p) sep = Some q"
  then obtain c where "dropWhile (\<lambda>c. c \<noteq> sep) p = c # q" by (auto simp: nexttoken_def split: list.splits)
  then show ?thesis using length_dropWhile_le [of "\<lambda>c. c \<noteq> sep" p] by simp
qed

text \<open>\<open>string_to_bitmap\<close> returns 0 or, for an error, 1; a last item with a rest is an error.\<close>

function parse_list :: "string \<Rightarrow> bitmap \<Rightarrow> nat \<Rightarrow> (int \<times> bitmap) option exec" where
  "parse_list p bits nbits =
     (case parse_range p of
        None \<Rightarrow> Inr (Some (1, bits))
      | Some (a, b, s, rest) \<Rightarrow>
          if \<not> a \<le> b then Inr (Some (1, bits))
          else bind_exec (range_loop (Suc nbits) a b s bits nbits) (\<lambda>r.
                 case r of
                   None \<Rightarrow> Inr None
                 | Some (False, bits) \<Rightarrow> Inr (Some (1, bits))
                 | Some (True, bits) \<Rightarrow>
                     (case nexttoken (Some p) (CHR '','') of
                        None \<Rightarrow> Inr (Some (if rest \<noteq> [] then 1 else 0, bits))
                      | Some q \<Rightarrow> parse_list q bits nbits)))"
  by pat_completeness auto
termination by (relation "measure (\<lambda>(p, _, _). length p)") (auto dest: nexttoken_shorter)

declare parse_list.simps [simp del]

definition string_to_bitmap :: "string \<Rightarrow> bitmap \<Rightarrow> nat \<Rightarrow> (int \<times> bitmap) option exec" where
  "string_to_bitmap str bits nbits =
     bind_exec (bitmap_init bits nbits False) (\<lambda>bits. parse_list str bits nbits)"

subsection \<open>Parsing printed lists\<close>

fun show_nat :: "nat \<Rightarrow> string" where
  "show_nat n = (if n < 10 then [char_of (48 + n)] else show_nat (n div 10) @ [char_of (48 + n mod 10)])"

declare show_nat.simps [simp del]

datatype core_item = One nat | Range nat nat | Stride nat nat nat

fun print_item :: "core_item \<Rightarrow> string" where
  "print_item (One a) = show_nat a"
| "print_item (Range a b) = show_nat a @ ''-'' @ show_nat b"
| "print_item (Stride a b s) = show_nat a @ ''-'' @ show_nat b @ '':'' @ show_nat s"

fun print_items :: "core_item list \<Rightarrow> string" where
  "print_items [] = []"
| "print_items [it] = print_item it"
| "print_items (it # its) = print_item it @ '','' @ print_items its"

fun item_bounds :: "core_item \<Rightarrow> nat \<times> nat \<times> nat" where
  "item_bounds (One a) = (a, a, 1)"
| "item_bounds (Range a b) = (a, b, 1)"
| "item_bounds (Stride a b s) = (a, b, s)"

text \<open>The cores an item names, and the items that fit a bitmap of \<open>nbits\<close> bits.\<close>

definition item_cores :: "core_item \<Rightarrow> nat set" where
  "item_cores it = (case item_bounds it of (a, b, s) \<Rightarrow> {p. \<exists>k. p = a + k * s \<and> p \<le> b})"

definition item_ok :: "nat \<Rightarrow> core_item \<Rightarrow> bool" where
  "item_ok nbits it \<longleftrightarrow> (case item_bounds it of (a, b, s) \<Rightarrow> a \<le> b \<and> b < nbits \<and> 0 < s \<and> s < 2 ^ 31)"

lemma isdigit_digit: "n < 10 \<Longrightarrow> isdigit (char_of (48 + n)) \<and> of_char (char_of (48 + n) :: char) - 48 = (n :: nat)"
  by (simp add: isdigit_def)

lemma digits_value_snoc: "digits_value acc (xs @ [c]) = 10 * digits_value acc xs + (of_char c - 48)"
  by (induction xs arbitrary: acc) auto

lemma show_nat_digits: "(\<forall>c \<in> set (show_nat n). isdigit c) \<and> show_nat n \<noteq> [] \<and> digits_value 0 (show_nat n) = n"
proof (induction n rule: less_induct)
  case (less n)
  show ?case
  proof (cases "n < 10")
    case True
    then show ?thesis using isdigit_digit [OF True] by (simp add: show_nat.simps)
  next
    case False
    then have "n div 10 < n" by simp
    from less.IH [OF this] show ?thesis
      using False isdigit_digit [of "n mod 10"] by (simp add: show_nat.simps [of n] digits_value_snoc)
  qed
qed

lemma nextnumber_show:
  assumes "n < 2 ^ 64" and "rest = [] \<or> \<not> isdigit (hd rest)"
  shows "nextnumber (Some (show_nat n @ rest)) = Some (rest, of_nat n)"
proof -
  note d = show_nat_digits [of n]
  obtain c cs where c: "show_nat n = c # cs" using d by (cases "show_nat n") auto
  have "takeWhile isdigit rest = [] \<and> dropWhile isdigit rest = rest" using assms(2) by (cases rest) auto
  then have tk: "takeWhile isdigit (show_nat n @ rest) = show_nat n" "dropWhile isdigit (show_nat n @ rest) = rest"
    using d by (simp_all add: takeWhile_append2 dropWhile_append2)
  have "isdigit c" using d c by simp
  then show ?thesis using tk d assms(1) unfolding c by (simp add: nextnumber_def Let_def)
qed

lemma isdigit_sep: "\<not> isdigit (CHR ''-'')" "\<not> isdigit (CHR '','')" "\<not> isdigit (CHR '':'')"
  by (simp_all add: isdigit_def)

lemma sep_notin_show: "CHR ''-'' \<notin> set (show_nat n)" "CHR '','' \<notin> set (show_nat n)" "CHR '':'' \<notin> set (show_nat n)"
  using show_nat_digits [of n] isdigit_sep by blast+

lemma nexttoken_skip: "sep \<notin> set xs \<Longrightarrow> nexttoken (Some (xs @ ys)) sep = nexttoken (Some ys) sep"
  by (induction xs) (auto simp: nexttoken_def)

lemma nexttoken_here: "nexttoken (Some (sep # ys)) sep = Some ys"
  by (simp add: nexttoken_def)

lemma nexttoken_other: "c \<noteq> sep \<Longrightarrow> nexttoken (Some (c # ys)) sep = nexttoken (Some ys) sep"
  by (simp add: nexttoken_def)

lemma nexttoken_Nil: "nexttoken (Some []) sep = None"
  by (simp add: nexttoken_def)

lemmas nexttoken_simps = nexttoken_skip nexttoken_here nexttoken_other nexttoken_Nil sep_notin_show

text \<open>What follows an item: nothing, or a comma and the other items.\<close>

definition item_end :: "string \<Rightarrow> bool" where
  "item_end rest \<longleftrightarrow> rest = [] \<or> (\<exists>q. rest = CHR '','' # q)"

lemma item_end_digit: "item_end rest \<Longrightarrow> rest = [] \<or> \<not> isdigit (hd rest)"
  by (auto simp: item_end_def isdigit_sep)

lemma item_end_later:
  assumes "item_end rest" and "sep \<noteq> CHR '',''"
  shows "\<not> ptr_before (nexttoken (Some rest) sep) (nexttoken (Some rest) (CHR '',''))"
proof (cases "rest = []")
  case False
  then obtain q where r: "rest = CHR '','' # q" using assms(1) by (auto simp: item_end_def)
  then show ?thesis using nexttoken_shorter [of q sep] assms(2)
    by (cases "nexttoken (Some q) sep") (auto simp: ptr_before_def nexttoken_simps)
qed (simp add: ptr_before_def nexttoken_Nil)

lemma item_end_here:
  assumes "item_end rest"
  shows "ptr_before (Some (xs @ rest)) (nexttoken (Some rest) (CHR '',''))"
  using assms by (auto simp: item_end_def ptr_before_def nexttoken_simps)

lemma parse_range_print:
  assumes ok: "item_ok nbits it" "nbits \<le> 2 ^ 31" and e: "item_end rest" and b: "item_bounds it = (a, b, s)"
  shows "parse_range (print_item it @ rest) = Some (of_nat a, of_nat b, of_nat s, rest)"
proof -
  have lt: "a < 2 ^ 64" "b < 2 ^ 64" "s < 2 ^ 64" and s0: "(of_nat s :: u32) \<noteq> 0"
    using ok b by (auto simp: item_ok_def word_unat_eq_iff unat_of_nat)
  note n = nextnumber_show [OF _ item_end_digit [OF e]]
  have dash: "nextnumber (Some (show_nat k @ CHR ''-'' # xs)) = Some (CHR ''-'' # xs, of_nat k)" if "k < 2 ^ 64" for k xs
    using nextnumber_show [OF that, of "CHR ''-'' # xs"] by (simp add: isdigit_sep)
  have colon: "nextnumber (Some (show_nat k @ CHR '':'' # xs)) = Some (CHR '':'' # xs, of_nat k)" if "k < 2 ^ 64" for k xs
    using nextnumber_show [OF that, of "CHR '':'' # xs"] by (simp add: isdigit_sep)
  note l = item_end_later [OF e]
  show ?thesis
  proof (cases it)
    case (One a')
    then show ?thesis using b lt n [of a] l [of "CHR ''-''"] by (auto simp: parse_range_def Let_def)
  next
    case (Range a' b')
    have later: "\<not> ptr_before (if rest \<noteq> [] then nexttoken (Some rest) (CHR '':'') else None) (nexttoken (Some rest) (CHR '',''))"
      using l [of "CHR '':''"] by (cases "rest = []") (simp_all add: ptr_before_def)
    have "s = 1" using Range b by simp
    then show ?thesis using Range b lt n [of b] dash [of a] item_end_here [OF e, of "show_nat b"] later
      by (simp add: parse_range_def Let_def nexttoken_simps)
  next
    case (Stride a' b' s')
    show ?thesis
      using Stride b lt n [of s] dash [of a] colon [of b] s0 item_end_here [OF e, of "show_nat b @ CHR '':'' # show_nat s"]
        item_end_here [OF e, of "show_nat s"]
      by (simp add: parse_range_def Let_def nexttoken_simps)
  qed
qed

lemma range_loop_sets:
  assumes nb: "nbits \<le> 2 ^ 31" "nbits \<le> 64 * length bits" and b: "b < nbits" and st: "0 < s" "s < 2 ^ 31"
    and "a < 2 ^ 32" and "Suc b - a < fuel"
  shows "\<exists>bits'. range_loop fuel (of_nat a) (of_nat b) (of_nat s) bits nbits = Inr (Some (True, bits')) \<and>
    length bits' = length bits \<and> (\<forall>p. bset bits' p \<longleftrightarrow> bset bits p \<or> (\<exists>k. p = a + k * s \<and> p \<le> b))"
  using nb(2) assms(6,7)
proof (induction fuel arbitrary: a bits)
  case (Suc fuel)
  have ub: "unat (of_nat b :: u32) = b" using b nb by (simp add: unat_of_nat)
  have ua: "unat (of_nat a :: u32) = a" using Suc.prems by (simp add: unat_of_nat)
  show ?case
  proof (cases "a \<le> b")
    case True
    obtain bits1 where b1: "bitmap_set bits a = Inr bits1" "length bits1 = length bits" "\<forall>p. bset bits1 p \<longleftrightarrow> p = a \<or> bset bits p"
      using bitmap_set_bset [of a bits] True b Suc.prems by auto
    have "a + s < 2 ^ 32" "Suc b - (a + s) < fuel" using True b nb st Suc.prems by simp_all
    then obtain bits2 where b2: "range_loop fuel (of_nat (a + s)) (of_nat b) (of_nat s) bits1 nbits = Inr (Some (True, bits2))"
      "length bits2 = length bits1" "\<forall>p. bset bits2 p \<longleftrightarrow> bset bits1 p \<or> (\<exists>k. p = a + s + k * s \<and> p \<le> b)"
      using Suc.IH [of bits1 "a + s"] Suc.prems b1(2) st True by auto
    have "(\<exists>k. p = a + k * s \<and> p \<le> b) \<longleftrightarrow> p = a \<or> (\<exists>k. p = a + s + k * s \<and> p \<le> b)" for p
    proof
      assume "\<exists>k. p = a + k * s \<and> p \<le> b"
      then obtain k where k: "p = a + k * s" "p \<le> b" by blast
      then show "p = a \<or> (\<exists>k. p = a + s + k * s \<and> p \<le> b)" by (cases k) auto
    next
      assume "p = a \<or> (\<exists>k. p = a + s + k * s \<and> p \<le> b)"
      then show "\<exists>k. p = a + k * s \<and> p \<le> b"
      proof
        assume "\<exists>k. p = a + s + k * s \<and> p \<le> b"
        then obtain k where k: "p = a + s + k * s" "p \<le> b" by blast
        then have "p = a + Suc k * s" by simp
        then show ?thesis using k(2) by blast
      qed (use True in \<open>auto intro: exI [of _ 0]\<close>)
    qed
    then show ?thesis using b1 b2 True ua ub b by (auto simp: word_le_nat_alt)
  next
    case False
    then show ?thesis using ua ub by (auto simp: word_le_nat_alt)
  qed
qed simp

lemma item_ok_range_loop:
  assumes "item_ok nbits it" and "item_bounds it = (a, b, s)" and nb: "nbits \<le> 2 ^ 31" "nbits \<le> 64 * length bits"
  shows "\<exists>bits'. range_loop (Suc nbits) (of_nat a) (of_nat b) (of_nat s) bits nbits = Inr (Some (True, bits')) \<and>
    length bits' = length bits \<and> (\<forall>p. bset bits' p \<longleftrightarrow> bset bits p \<or> p \<in> item_cores it)"
proof -
  have i: "a \<le> b" "b < nbits" "0 < s" "s < 2 ^ 31" using assms(1,2) by (auto simp: item_ok_def)
  then show ?thesis using range_loop_sets [OF nb i(2,3,4), of a "Suc nbits"] nb assms(2)
    by (auto simp: item_cores_def)
qed

lemma print_item_no_comma: "CHR '','' \<notin> set (print_item it)"
  by (cases it) (auto simp: sep_notin_show)

lemma item_ok_le: "item_ok nbits it \<Longrightarrow> nbits \<le> 2 ^ 31 \<Longrightarrow> item_bounds it = (a, b, s) \<Longrightarrow> (of_nat a :: u32) \<le> of_nat b"
  by (auto simp: item_ok_def word_le_nat_alt unat_of_nat)

lemma parse_list_print:
  assumes "its \<noteq> []" and "\<forall>it \<in> set its. item_ok nbits it" and nb: "nbits \<le> 2 ^ 31" "nbits \<le> 64 * length bits"
  shows "\<exists>bits'. parse_list (print_items its) bits nbits = Inr (Some (0, bits')) \<and>
    (\<forall>p. bset bits' p \<longleftrightarrow> bset bits p \<or> (\<exists>it \<in> set its. p \<in> item_cores it))"
  using assms
proof (induction its arbitrary: bits rule: print_items.induct)
  case (2 it)
  obtain a b s where b: "item_bounds it = (a, b, s)" by (metis prod_cases3)
  have "parse_range (print_item it) = Some (of_nat a, of_nat b, of_nat s, [])"
    using parse_range_print [OF _ "2.prems"(3) _ b, of "[]"] "2.prems" by (simp add: item_end_def)
  moreover have "nexttoken (Some (print_item it)) (CHR '','') = None"
    using nexttoken_skip [OF print_item_no_comma, of it "[]"] by (simp add: nexttoken_Nil)
  moreover obtain bits' where "range_loop (Suc nbits) (of_nat a) (of_nat b) (of_nat s) bits nbits = Inr (Some (True, bits'))"
    "\<forall>p. bset bits' p \<longleftrightarrow> bset bits p \<or> p \<in> item_cores it"
    using item_ok_range_loop [OF _ b "2.prems"(3,4)] "2.prems"(2) by auto
  moreover have "(of_nat a :: u32) \<le> of_nat b" using item_ok_le [OF _ "2.prems"(3) b] "2.prems"(2) by simp
  ultimately show ?case by (simp add: parse_list.simps del: range_loop.simps)
next
  case (3 it it2 its)
  let ?its = "it2 # its"
  let ?rest = "CHR '','' # print_items ?its"
  obtain a b s where b: "item_bounds it = (a, b, s)" by (metis prod_cases3)
  have ok: "item_ok nbits it" using "3.prems" by simp
  have r: "parse_range (print_item it @ ?rest) = Some (of_nat a, of_nat b, of_nat s, ?rest)"
    using parse_range_print [OF ok "3.prems"(3) _ b] by (simp add: item_end_def)
  have t: "nexttoken (Some (print_item it @ ?rest)) (CHR '','') = Some (print_items ?its)"
    by (simp add: nexttoken_skip print_item_no_comma nexttoken_here)
  obtain bits1 where b1: "range_loop (Suc nbits) (of_nat a) (of_nat b) (of_nat s) bits nbits = Inr (Some (True, bits1))"
    "length bits1 = length bits" "\<forall>p. bset bits1 p \<longleftrightarrow> bset bits p \<or> p \<in> item_cores it"
    using item_ok_range_loop [OF ok b "3.prems"(3,4)] by auto
  obtain bits2 where b2: "parse_list (print_items ?its) bits1 nbits = Inr (Some (0, bits2))"
    "\<forall>p. bset bits2 p \<longleftrightarrow> bset bits1 p \<or> (\<exists>it \<in> set ?its. p \<in> item_cores it)"
    using "3.IH" [of bits1] "3.prems" b1(2) by auto
  have "parse_list (print_items (it # ?its)) bits nbits = Inr (Some (0, bits2))"
    using r t b1(1) b2(1) item_ok_le [OF ok "3.prems"(3) b]
    by (simp add: parse_list.simps [of "print_item it @ ?rest"] del: range_loop.simps)
  then show ?case using b1(3) b2(2) by auto
qed simp

subsection \<open>Properties\<close>

text \<open>
  C26. Within the array, setting, clearing and testing a bit act as insertion, deletion and
  membership of a set of positions and keep the length of the array; the atomic variants do the
  same and report the old bit; a position past the array is an access out of bounds.
\<close>

theorem bitmap_is_a_set:
  "(pos < 64 * length bits \<longrightarrow>
      (\<exists>bits'. bitmap_set bits pos = Inr bits' \<and> bitmap_atomic_set bits pos = Inr bits' \<and>
         bitmap_atomic_test_and_set bits pos = Inr (bset bits pos, bits') \<and>
         length bits' = length bits \<and> (\<forall>p. bset bits' p \<longleftrightarrow> p = pos \<or> bset bits p)) \<and>
      (\<exists>bits'. bitmap_clear bits pos = Inr bits' \<and> bitmap_atomic_clear bits pos = Inr bits' \<and>
         length bits' = length bits \<and> (\<forall>p. bset bits' p \<longleftrightarrow> p \<noteq> pos \<and> bset bits p)) \<and>
      bitmap_test bits pos = Inr (bset bits pos) \<and> bitmap_atomic_test bits pos = Inr (bset bits pos)) \<and>
   (64 * length bits \<le> pos \<longrightarrow>
      bitmap_set bits pos = Inl Out_of_bounds \<and> bitmap_clear bits pos = Inl Out_of_bounds \<and>
      bitmap_test bits pos = Inl Out_of_bounds)"
  using bitmap_set_bset [of pos bits] bitmap_clear_bset [of pos bits] bitmap_test_bset [of pos bits]
    bitmap_op_fault [of bits pos]
  by (auto simp: bitmap_atomic_eq)

theorem bitmap_is_a_set_witness:
  "\<exists>bits'. bitmap_set [0, 5] 70 = Inr bits' \<and> bset bits' 70 \<and> bset bits' 66 \<and> \<not> bset bits' 65 \<and>
     bitmap_test [0, 5] 128 = Inl Out_of_bounds"
proof -
  have "bset [0, 5] 66" "\<not> bset [0, 5] 65" by (simp_all add: bset_def)
  then show ?thesis using bitmap_is_a_set [of 70 "[0, 5]"] bitmap_is_a_set [of 128 "[0, 5]"] by auto
qed



text \<open>
  The bitwise operations on whole arrays compute intersection, union and symmetric
  difference of the first \<open>nbits\<close> positions, and the weight of a bitmap is the number of bits
  set in all the words that hold its \<open>nbits\<close> bits, also of those past \<open>nbits\<close>.
\<close>

theorem bitmap_wordwise:
  assumes "nbits \<le> 64 * length s1" and "nbits \<le> 64 * length s2" and "nbits \<le> 64 * length dst"
  shows "(\<exists>d. bitmap_and dst s1 s2 nbits = Inr d \<and> length d = length dst \<and> (\<forall>p < nbits. bset d p \<longleftrightarrow> bset s1 p \<and> bset s2 p)) \<and>
    (\<exists>d. bitmap_or dst s1 s2 nbits = Inr d \<and> length d = length dst \<and> (\<forall>p < nbits. bset d p \<longleftrightarrow> bset s1 p \<or> bset s2 p)) \<and>
    (\<exists>d. bitmap_xor dst s1 s2 nbits = Inr d \<and> length d = length dst \<and> (\<forall>p < nbits. bset d p \<longleftrightarrow> bset s1 p \<noteq> bset s2 p)) \<and>
    (\<exists>d. bitmap_atomic_or dst s2 nbits = Inr d \<and> length d = length dst \<and> (\<forall>p < nbits. bset d p \<longleftrightarrow> bset dst p \<or> bset s2 p)) \<and>
    bitmap_popcount s1 nbits = Inr (length (filter (bset s1) [0..<64 * BITMAP_LONG_SIZE nbits]))"
proof -
  have pc: "bitmap_popcount s1 nbits = Inr (length (filter (bset s1) [0..<64 * BITMAP_LONG_SIZE nbits]))"
    using popcount_loop_spec [of 0 "BITMAP_LONG_SIZE nbits" s1 0] LONG_SIZE_bound [OF assms(1)] by (simp add: bitmap_popcount_def)
  have "\<exists>d. bitmap_and dst s1 s2 nbits = Inr d \<and> length d = length dst \<and> (\<forall>p < nbits. bset d p \<longleftrightarrow> bset s1 p \<and> bset s2 p)"
    unfolding bitmap_and_def by (rule bitwise_loop_bset [where g = "\<lambda>a b. a \<and> b", OF _ assms]) (simp add: bit_and_iff)
  moreover have "\<exists>d. bitmap_or dst s1 s2 nbits = Inr d \<and> length d = length dst \<and> (\<forall>p < nbits. bset d p \<longleftrightarrow> bset s1 p \<or> bset s2 p)"
    unfolding bitmap_or_def by (rule bitwise_loop_bset [where g = "\<lambda>a b. a \<or> b", OF _ assms]) (simp add: bit_or_iff)
  moreover have "\<exists>d. bitmap_xor dst s1 s2 nbits = Inr d \<and> length d = length dst \<and> (\<forall>p < nbits. bset d p \<longleftrightarrow> bset s1 p \<noteq> bset s2 p)"
    unfolding bitmap_xor_def by (rule bitwise_loop_bset [where g = "\<lambda>a b. a \<noteq> b", OF _ assms]) (simp add: bit_xor_iff)
  moreover have "\<exists>d. bitmap_atomic_or dst s2 nbits = Inr d \<and> length d = length dst \<and> (\<forall>p < nbits. bset d p \<longleftrightarrow> bset dst p \<or> bset s2 p)"
    unfolding bitmap_atomic_or_def by (rule bitwise_loop_bset [where g = "\<lambda>a b. a \<or> b", OF _ assms(3,2,3)]) (simp add: bit_or_iff)
  ultimately show ?thesis using pc by blast
qed

theorem bitmap_wordwise_witness:
  "\<exists>d. bitmap_and [0] [6] [3] 3 = Inr d \<and> \<not> bset d 0 \<and> bset d 1 \<and> \<not> bset d 2"
proof -
  obtain d where "bitmap_and [0] [6] [3] 3 = Inr d" "\<forall>p < 3. bset d p \<longleftrightarrow> bset [6] p \<and> bset [3] p"
    using bitmap_wordwise [of 3 "[6]" "[3]" "[0]"] by auto
  moreover have "\<not> bset [6] 0" "bset [6] 1" "bset [3] 1" "\<not> bset [3] 2" by (simp_all add: bset_def)
  ultimately show ?thesis by simp
qed

text \<open>
  C28. Parsing a printed list of cores gives the bitmap of exactly the named cores: for any
  non-empty list of single cores, ranges and ranges with a stride within the bitmap,
  \<open>string_to_bitmap\<close> ends with result 0 and sets the bits the items name and no others.
\<close>

theorem string_to_bitmap_roundtrip:
  assumes "its \<noteq> []" and "\<forall>it \<in> set its. item_ok nbits it" and nb: "nbits \<le> 2 ^ 31" "nbits \<le> 64 * length bits"
  shows "\<exists>bits'. string_to_bitmap (print_items its) bits nbits = Inr (Some (0, bits')) \<and>
    (\<forall>p < nbits. bset bits' p \<longleftrightarrow> (\<exists>it \<in> set its. p \<in> item_cores it))"
proof -
  define z where "z = replicate (BITMAP_LONG_SIZE nbits) (0 :: u64) @ drop (BITMAP_LONG_SIZE nbits) bits"
  have "BITMAP_LONG_SIZE nbits \<le> length bits" using LONG_SIZE_bound nb by blast
  then have i: "bitmap_init bits nbits False = Inr z" and l: "length z = length bits"
    by (simp_all add: bitmap_init_def z_def Let_def)
  obtain bits' where b: "parse_list (print_items its) z nbits = Inr (Some (0, bits'))"
    "\<forall>p. bset bits' p \<longleftrightarrow> bset z p \<or> (\<exists>it \<in> set its. p \<in> item_cores it)"
    using parse_list_print [OF assms(1,2) nb(1), of z] nb(2) l by auto
  have "\<not> bset z p" if "p < nbits" for p
    using LONG_SIZE_covers [OF that] by (simp add: bset_def z_def nth_append)
  then show ?thesis using i b by (auto simp: string_to_bitmap_def)
qed

theorem string_to_bitmap_roundtrip_witness:
  "print_items [One 3, Stride 4 9 2] = ''3,4-9:2'' \<and>
   (\<exists>bits'. string_to_bitmap ''3,4-9:2'' [0] 16 = Inr (Some (0, bits')) \<and> bset bits' 6 \<and> \<not> bset bits' 7)"
proof -
  have p: "print_items [One 3, Stride 4 9 2] = ''3,4-9:2''" by code_simp
  have "\<exists>k. 6 = 4 + k * (2 :: nat)" by (intro exI [of _ 1]) simp
  moreover have "\<not> (\<exists>k. 7 = 4 + k * (2 :: nat))" by presburger
  ultimately show ?thesis
    using string_to_bitmap_roundtrip [of "[One 3, Stride 4 9 2]" 16 "[0]"] p by (auto simp: item_ok_def item_cores_def)
qed

end
