(* ===== verification/CList.thy ===== *)
theory CList
  imports Prelude
begin

text \<open>
  The intrusive linked lists of \<open>inc/base/list.h\<close> and \<open>base/list.c\<close>: circular doubly linked
  lists (\<open>list_head\<close>), singly linked lists (\<open>slist_head\<close>) and doubly linked lists with a
  single head pointer (\<open>hlist_head\<close>). Memory is a store of link fields indexed by the
  address of the node; a list head is a node like the others. Address 0 is the null pointer.

  The relation between memory and the sequence of nodes is \<open>is_list\<close> (\<open>is_slist\<close>,
  \<open>is_hlist\<close>); the locales \<open>node_stack\<close> and \<open>node_queue\<close> state what the users of the lists
  rely on and are interpreted for the three kinds of list.
\<close>

subsection \<open>Interfaces\<close>

text \<open>
  A container of nodes whose contents are a sequence: nodes are added in front and taken
  from the front. A node that is added must be \<open>ok\<close> (not a list head) and not yet in it.
\<close>

locale node_stack =
  fixes holds :: "'s \<Rightarrow> addr list \<Rightarrow> bool"
    and ok :: "addr \<Rightarrow> bool"
    and push :: "addr \<Rightarrow> 's \<Rightarrow> 's"
    and pop :: "'s \<Rightarrow> addr option \<times> 's"
  assumes push_holds: "holds s xs \<Longrightarrow> ok n \<Longrightarrow> n \<notin> set xs \<Longrightarrow> holds (push n s) (n # xs)"
    and pop_empty: "holds s [] \<Longrightarrow> pop s = (None, s)"
    and pop_first: "holds s (x # xs) \<Longrightarrow> fst (pop s) = Some x \<and> holds (snd (pop s)) xs"
begin

fun push_all :: "addr list \<Rightarrow> 's \<Rightarrow> 's" where
  "push_all [] s = s"
| "push_all (n # ns) s = push_all ns (push n s)"

fun pop_all :: "nat \<Rightarrow> 's \<Rightarrow> addr option list \<times> 's" where
  "pop_all 0 s = ([], s)"
| "pop_all (Suc k) s = (let (n, s) = pop s; (ns, s) = pop_all k s in (n # ns, s))"

lemma push_all_holds:
  "holds s xs \<Longrightarrow> \<forall>n \<in> set ns. ok n \<Longrightarrow> distinct (ns @ xs) \<Longrightarrow> holds (push_all ns s) (rev ns @ xs)"
  by (induction ns arbitrary: s xs) (auto simp: push_holds)

lemma pop_all_holds:
  "holds s (xs @ ys) \<Longrightarrow> fst (pop_all (length xs) s) = map Some xs \<and> holds (snd (pop_all (length xs) s)) ys"
proof (induction xs arbitrary: s)
  case (Cons x xs)
  obtain n s1 where p: "pop s = (n, s1)" by fastforce
  have "n = Some x" "holds s1 (xs @ ys)" using pop_first [of s x "xs @ ys"] Cons.prems p by simp_all
  then show ?case using Cons.IH [of s1] p by (auto simp: split_beta)
qed simp

text \<open>Last in, first out.\<close>

lemma lifo:
  assumes "holds s []" and "\<forall>n \<in> set ns. ok n" and "distinct ns"
  shows "fst (pop_all (length ns) (push_all ns s)) = map Some (rev ns)"
  using push_all_holds [OF assms(1,2)] pop_all_holds [of "push_all ns s" "rev ns" "[]"] assms(3) by simp

end

locale node_queue = node_stack holds ok push pop
  for holds :: "'s \<Rightarrow> addr list \<Rightarrow> bool" and ok :: "addr \<Rightarrow> bool" and push :: "addr \<Rightarrow> 's \<Rightarrow> 's"
    and pop :: "'s \<Rightarrow> addr option \<times> 's" +
  fixes push_tail :: "addr \<Rightarrow> 's \<Rightarrow> 's"
  assumes push_tail_holds: "holds s xs \<Longrightarrow> ok n \<Longrightarrow> n \<notin> set xs \<Longrightarrow> holds (push_tail n s) (xs @ [n])"
begin

fun enq_all :: "addr list \<Rightarrow> 's \<Rightarrow> 's" where
  "enq_all [] s = s"
| "enq_all (n # ns) s = enq_all ns (push_tail n s)"

lemma enq_all_holds:
  "holds s xs \<Longrightarrow> \<forall>n \<in> set ns. ok n \<Longrightarrow> distinct (xs @ ns) \<Longrightarrow> holds (enq_all ns s) (xs @ ns)"
proof (induction ns arbitrary: s xs)
  case (Cons n ns)
  have "holds (push_tail n s) (xs @ [n])" using Cons.prems by (intro push_tail_holds) auto
  then show ?case using Cons.IH [of "push_tail n s" "xs @ [n]"] Cons.prems by simp
qed simp

text \<open>First in, first out.\<close>

lemma fifo:
  assumes "holds s []" and "\<forall>n \<in> set ns. ok n" and "distinct ns"
  shows "fst (pop_all (length ns) (enq_all ns s)) = map Some ns"
  using enq_all_holds [OF assms(1,2)] pop_all_holds [of "enq_all ns s" ns "[]"] assms(3) by simp

end

subsection \<open>Circular doubly linked lists\<close>

record lheap =
  lnext :: "addr \<Rightarrow> addr"
  lprev :: "addr \<Rightarrow> addr"

definition set_next :: "addr \<Rightarrow> addr \<Rightarrow> lheap \<Rightarrow> lheap" where
  "set_next n v m = m\<lparr>lnext := (lnext m)(n := v)\<rparr>"

definition set_prev :: "addr \<Rightarrow> addr \<Rightarrow> lheap \<Rightarrow> lheap" where
  "set_prev n v m = m\<lparr>lprev := (lprev m)(n := v)\<rparr>"

definition list_head_init :: "addr \<Rightarrow> lheap \<Rightarrow> lheap" where
  "list_head_init h m = set_next h h (set_prev h h m)"

definition list_add :: "addr \<Rightarrow> addr \<Rightarrow> lheap \<Rightarrow> lheap" where
  "list_add h n m =
     (let m = set_next n (lnext m h) m;
          m = set_prev n h m;
          m = set_prev (lnext m h) n m
      in set_next h n m)"

definition list_add_tail :: "addr \<Rightarrow> addr \<Rightarrow> lheap \<Rightarrow> lheap" where
  "list_add_tail h n m =
     (let m = set_next n h m;
          m = set_prev n (lprev m h) m;
          m = set_next (lprev m h) n m
      in set_prev h n m)"

definition list_add_between :: "addr \<Rightarrow> addr \<Rightarrow> addr \<Rightarrow> lheap \<Rightarrow> lheap" where
  "list_add_between prv n nxt m = set_prev nxt n (set_next n nxt (set_prev n prv (set_next prv n m)))"

definition list_add_after :: "addr \<Rightarrow> addr \<Rightarrow> lheap \<Rightarrow> lheap" where
  "list_add_after prv n m = list_add_between prv n (lnext m prv) m"

definition list_add_before :: "addr \<Rightarrow> addr \<Rightarrow> lheap \<Rightarrow> lheap" where
  "list_add_before nxt n m = list_add_between (lprev m nxt) n nxt m"

definition list_empty :: "addr \<Rightarrow> lheap \<Rightarrow> bool" where
  "list_empty h m \<longleftrightarrow> lnext m h = h"

definition list_del :: "addr \<Rightarrow> lheap \<Rightarrow> lheap" where
  "list_del n m =
     (let m = set_prev (lnext m n) (lprev m n) m
      in set_next (lprev m n) (lnext m n) m)"

definition list_del_from :: "addr \<Rightarrow> addr \<Rightarrow> lheap \<Rightarrow> lheap" where
  "list_del_from h n m = list_del n m"

text \<open>The entry accessors; \<open>off\<close> is the offset of the node in the entry.\<close>

definition list_top :: "nat \<Rightarrow> addr \<Rightarrow> lheap \<Rightarrow> addr option" where
  "list_top off h m = (if list_empty h m then None else Some (lnext m h - off))"

definition list_tail :: "nat \<Rightarrow> addr \<Rightarrow> lheap \<Rightarrow> addr option" where
  "list_tail off h m = (if list_empty h m then None else Some (lprev m h - off))"

definition list_pop :: "nat \<Rightarrow> addr \<Rightarrow> lheap \<Rightarrow> addr option \<times> lheap" where
  "list_pop off h m =
     (if list_empty h m then (None, m)
      else let n = lnext m h in (Some (n - off), list_del n m))"

definition list_entry_or_null :: "nat \<Rightarrow> addr \<Rightarrow> addr \<Rightarrow> addr option" where
  "list_entry_or_null off h n = (if n = h then None else Some (n - off))"

definition list_next :: "nat \<Rightarrow> addr \<Rightarrow> addr \<Rightarrow> lheap \<Rightarrow> addr option" where
  "list_next off h i m = list_entry_or_null off h (lnext m (i + off))"

definition list_prev :: "nat \<Rightarrow> addr \<Rightarrow> addr \<Rightarrow> lheap \<Rightarrow> addr option" where
  "list_prev off h i m = list_entry_or_null off h (lprev m (i + off))"

definition list_append_list :: "addr \<Rightarrow> addr \<Rightarrow> lheap \<Rightarrow> lheap" where
  "list_append_list to from1 m =
     (let from_tail = lprev m from1;
          to_tail = lprev m to;
          m = set_prev to from_tail m;
          m = set_next from_tail to m;
          m = set_next to_tail from1 m;
          m = set_prev from1 to_tail m;
          m = list_del from1 m
      in list_head_init from1 m)"

definition list_prepend_list :: "addr \<Rightarrow> addr \<Rightarrow> lheap \<Rightarrow> lheap" where
  "list_prepend_list to from1 m =
     (let from_tail = lprev m from1;
          to_head = lnext m to;
          m = set_next to from1 m;
          m = set_prev from1 to m;
          m = set_prev to_head from_tail m;
          m = set_next from_tail to_head m;
          m = list_del from1 m
      in list_head_init from1 m)"

text \<open>
  \<open>list_for_each\<close> and \<open>list_for_each_rev\<close>: the nodes visited. The loops of a broken list may
  not end; \<open>None\<close> is running out of fuel.
\<close>

fun walk :: "nat \<Rightarrow> (addr \<Rightarrow> addr) \<Rightarrow> addr \<Rightarrow> addr \<Rightarrow> addr list option" where
  "walk 0 nxt h n = None"
| "walk (Suc fuel) nxt h n =
     (if n = h then Some [] else map_option (\<lambda>ns. n # ns) (walk fuel nxt h (nxt n)))"

definition list_for_each :: "nat \<Rightarrow> addr \<Rightarrow> lheap \<Rightarrow> addr list option" where
  "list_for_each fuel h m = walk fuel (lnext m) h (lnext m h)"

definition list_for_each_rev :: "nat \<Rightarrow> addr \<Rightarrow> lheap \<Rightarrow> addr list option" where
  "list_for_each_rev fuel h m = walk fuel (lprev m) h (lprev m h)"

text \<open>
  \<open>list_check_node\<close>: outer \<open>None\<close> is running out of fuel; a corrupt list stops the program
  if a message is given (\<open>abortstr\<close>) and is answered with a null pointer otherwise.
\<close>

definition corrupt :: "bool \<Rightarrow> addr option exec" where
  "corrupt abortstr = (if abortstr then Inl Bug_on else Inr None)"

fun check_loop :: "nat \<Rightarrow> lheap \<Rightarrow> addr \<Rightarrow> bool \<Rightarrow> addr \<Rightarrow> addr \<Rightarrow> addr option exec option" where
  "check_loop 0 m node abortstr p n = None"
| "check_loop (Suc fuel) m node abortstr p n =
     (if n \<noteq> node
      then if lprev m n \<noteq> p then Some (corrupt abortstr)
           else check_loop fuel m node abortstr n (lnext m n)
      else if lprev m node \<noteq> p then Some (corrupt abortstr)
      else Some (Inr (Some node)))"

definition list_check_node :: "nat \<Rightarrow> lheap \<Rightarrow> addr \<Rightarrow> bool \<Rightarrow> addr option exec option" where
  "list_check_node fuel m node abortstr = check_loop fuel m node abortstr node (lnext m node)"

definition list_check :: "nat \<Rightarrow> lheap \<Rightarrow> addr \<Rightarrow> bool \<Rightarrow> addr option exec option" where
  "list_check fuel m h abortstr =
     map_option (\<lambda>r. bind_exec r (\<lambda>n. case n of None \<Rightarrow> Inr None | Some _ \<Rightarrow> Inr (Some h)))
       (list_check_node fuel m h abortstr)"

subsection \<open>The sequence of a circular list\<close>

text \<open>\<open>seg m a xs b\<close>: from \<open>a\<close> through \<open>xs\<close> to \<open>b\<close>, with forward and backward links.\<close>

fun seg :: "lheap \<Rightarrow> addr \<Rightarrow> addr list \<Rightarrow> addr \<Rightarrow> bool" where
  "seg m a [] b \<longleftrightarrow> lnext m a = b \<and> lprev m b = a"
| "seg m a (x # xs) b \<longleftrightarrow> lnext m a = x \<and> lprev m x = a \<and> seg m x xs b"

definition is_list :: "lheap \<Rightarrow> addr \<Rightarrow> addr list \<Rightarrow> bool" where
  "is_list m h xs \<longleftrightarrow> distinct (h # xs) \<and> seg m h xs h"

lemma seg_append: "seg m a (xs @ x # ys) b \<longleftrightarrow> seg m a xs x \<and> seg m x ys b"
  by (induction xs arbitrary: a) auto

lemma set_fields [simp]:
  "lnext (set_next n v m) = (lnext m)(n := v)" "lprev (set_next n v m) = lprev m"
  "lprev (set_prev n v m) = (lprev m)(n := v)" "lnext (set_prev n v m) = lnext m"
  by (simp_all add: set_next_def set_prev_def)

lemma seg_set_next [simp]: "u \<notin> set (a # xs) \<Longrightarrow> seg (set_next u v m) a xs b = seg m a xs b"
  by (induction xs arbitrary: a) auto

lemma seg_set_prev [simp]: "u \<notin> set xs \<Longrightarrow> u \<noteq> b \<Longrightarrow> seg (set_prev u v m) a xs b = seg m a xs b"
  by (induction xs arbitrary: a) auto

text \<open>A segment depends on the forward links of its nodes and the backward links after its first.\<close>

lemma seg_frame:
  assumes "\<And>x. x \<in> set (a # xs) \<Longrightarrow> lnext m' x = lnext m x" and "\<And>x. x \<in> set (xs @ [b]) \<Longrightarrow> lprev m' x = lprev m x"
  shows "seg m' a xs b = seg m a xs b"
  using assms by (induction xs arbitrary: a) auto

lemma seg_first: "seg m a xs b \<Longrightarrow> lnext m a = hd (xs @ [b])"
  by (cases xs) auto

lemma seg_last: "seg m a xs b \<Longrightarrow> lprev m b = last (a # xs)"
  by (induction xs arbitrary: a) auto

lemma seg_ends: "seg m a xs b \<Longrightarrow> lnext m (last (a # xs)) = b \<and> lprev m (hd (xs @ [b])) = a"
proof (induction xs arbitrary: a)
  case (Cons x xs)
  then have "lnext m (last (x # xs)) = b" by auto
  then show ?case using Cons.prems by simp
qed simp

lemma seg_split: "seg m a (xs @ ys) b \<longleftrightarrow> seg m a xs (hd (ys @ [b])) \<and> seg m (last (a # xs)) ys b"
proof (induction xs arbitrary: a)
  case Nil
  then show ?case by (cases ys) auto
qed simp

text \<open>A segment with another end, and with another start.\<close>

lemma seg_reend:
  assumes "seg m a xs q" and "lnext m' (last (a # xs)) = n" and "lprev m' n = last (a # xs)"
    and "\<And>x. x \<in> set (butlast (a # xs)) \<Longrightarrow> lnext m' x = lnext m x" and "\<And>x. x \<in> set xs \<Longrightarrow> lprev m' x = lprev m x"
  shows "seg m' a xs n"
  using assms by (induction xs arbitrary: a) auto

lemma seg_restart:
  assumes "seg m p ys b" and "lnext m' n = hd (ys @ [b])" and "lprev m' (hd (ys @ [b])) = n"
    and "\<And>x. x \<in> set ys \<Longrightarrow> lnext m' x = lnext m x" and "\<And>x. x \<in> set (tl (ys @ [b])) \<Longrightarrow> lprev m' x = lprev m x"
  shows "seg m' n ys b"
proof (cases ys)
  case (Cons y ys')
  then have "seg m' y ys' b" using assms seg_frame [of y ys' m' m b] by simp
  then show ?thesis using assms Cons by simp
qed (use assms in simp)

lemma is_list_init: "is_list (list_head_init h m) h []"
  by (simp add: is_list_def list_head_init_def)

lemma is_list_empty: "is_list m h xs \<Longrightarrow> list_empty h m \<longleftrightarrow> xs = []"
  by (cases xs) (auto simp: is_list_def list_empty_def)

lemma last_in: "last (a # xs) = a \<or> last (a # xs) \<in> set xs"
  by (cases xs rule: rev_cases) auto

lemma hd_in: "hd (ys @ [b]) = b \<or> hd (ys @ [b]) \<in> set ys"
  by (cases ys) auto

lemma butlast_last: "distinct (a # xs) \<Longrightarrow> x \<in> set (butlast (a # xs)) \<Longrightarrow> x \<noteq> last (a # xs)"
  using append_butlast_last_id [of "a # xs"] by (metis distinct_append distinct_singleton disjoint_iff list.distinct(1) list.set_intros(1))

lemma tl_hd: "distinct (ys @ [b]) \<Longrightarrow> x \<in> set (tl (ys @ [b])) \<Longrightarrow> x \<noteq> hd (ys @ [b])"
  by (cases ys) auto

text \<open>Inserting a node between the last node of \<open>h # xs\<close> and the first of \<open>ys @ [h]\<close>.\<close>

lemma is_list_insert:
  assumes l: "is_list m h (xs @ ys)" and n: "n \<noteq> h" "n \<notin> set (xs @ ys)"
    and p: "p = last (h # xs)" and q: "q = hd (ys @ [h])"
    and m': "lnext m' = (lnext m)(n := q, p := n)" "lprev m' = (lprev m)(n := p, q := n)"
  shows "is_list m' h (xs @ n # ys)"
proof -
  have d: "distinct (h # xs)" "distinct (ys @ [h])" "set xs \<inter> set ys = {}" using l by (auto simp: is_list_def)
  have s: "seg m h xs q" "seg m p ys h" using l seg_split [of m h xs ys h] p q by (simp_all add: is_list_def)
  have np: "n \<noteq> p" "n \<noteq> q" using n p q last_in [of h xs] hd_in [of ys h] by auto
  have px: "p \<notin> set ys" using p last_in [of h xs] d by auto
  have qx: "q \<notin> set xs" using q hd_in [of ys h] d by auto
  have "seg m' h xs n"
  proof (rule seg_reend [OF s(1)])
    show "x \<in> set (butlast (h # xs)) \<Longrightarrow> lnext m' x = lnext m x" for x
      using butlast_last [OF d(1), of x] n p in_set_butlastD [of x "h # xs"] by (auto simp: m')
    show "x \<in> set xs \<Longrightarrow> lprev m' x = lprev m x" for x using n qx by (auto simp: m')
  qed (use m' np p in \<open>auto\<close>)
  moreover have "seg m' n ys h"
  proof (rule seg_restart [OF s(2)])
    show "x \<in> set ys \<Longrightarrow> lnext m' x = lnext m x" for x using n px by (auto simp: m')
    show "x \<in> set (tl (ys @ [h])) \<Longrightarrow> lprev m' x = lprev m x" for x
      using tl_hd [OF d(2), of x] n q list.set_sel(2) [of "ys @ [h]" x] by (auto simp: m')
  qed (use m' np q in \<open>auto\<close>)
  ultimately show ?thesis using l n by (simp add: is_list_def seg_append)
qed

lemma is_list_delete:
  assumes l: "is_list m h (xs @ n # ys)" and p: "p = last (h # xs)" and q: "q = hd (ys @ [h])"
    and m': "lnext m' = (lnext m)(p := q)" "lprev m' = (lprev m)(q := p)"
  shows "is_list m' h (xs @ ys)"
proof -
  have d: "distinct (h # xs)" "distinct (ys @ [h])" "set xs \<inter> set ys = {}" using l by (auto simp: is_list_def)
  have s: "seg m h xs n" "seg m n ys h" using l by (simp_all add: is_list_def seg_append)
  have px: "p \<notin> set ys" using p last_in [of h xs] d by auto
  have qx: "q \<notin> set xs" using q hd_in [of ys h] d by auto
  have "seg m' h xs q"
  proof (rule seg_reend [OF s(1)])
    show "x \<in> set (butlast (h # xs)) \<Longrightarrow> lnext m' x = lnext m x" for x
      using butlast_last [OF d(1), of x] p by (auto simp: m')
    show "x \<in> set xs \<Longrightarrow> lprev m' x = lprev m x" for x using qx by (auto simp: m')
  qed (use m' p in \<open>auto\<close>)
  moreover have "seg m' p ys h"
  proof (rule seg_restart [OF s(2)])
    show "x \<in> set ys \<Longrightarrow> lnext m' x = lnext m x" for x using px by (auto simp: m')
    show "x \<in> set (tl (ys @ [h])) \<Longrightarrow> lprev m' x = lprev m x" for x
      using tl_hd [OF d(2), of x] q by (auto simp: m')
  qed (use m' q in \<open>auto\<close>)
  ultimately show ?thesis using l p q seg_split [of m' h xs ys h] by (simp add: is_list_def)
qed

lemma list_add_is_list: "is_list m h xs \<Longrightarrow> n \<noteq> h \<Longrightarrow> n \<notin> set xs \<Longrightarrow> is_list (list_add h n m) h (n # xs)"
  using is_list_insert [of m h "[]" xs n h "lnext m h" "list_add h n m"] seg_first [of m h xs h]
  by (auto simp: list_add_def Let_def is_list_def)

lemma list_add_tail_is_list: "is_list m h xs \<Longrightarrow> n \<noteq> h \<Longrightarrow> n \<notin> set xs \<Longrightarrow> is_list (list_add_tail h n m) h (xs @ [n])"
  using is_list_insert [of m h xs "[]" n "lprev m h" h "list_add_tail h n m"] seg_last [of m h xs h]
  by (auto simp: list_add_tail_def Let_def is_list_def)

text \<open>The neighbours of a node of a list.\<close>

lemma is_list_links:
  assumes "is_list m h (xs @ n # ys)"
  shows "lnext m n = hd (ys @ [h])" and "lprev m n = last (h # xs)"
proof -
  have s: "seg m h xs n" "seg m n ys h" using assms by (simp_all add: is_list_def seg_append)
  show "lnext m n = hd (ys @ [h])" by (rule seg_first [OF s(2)])
  show "lprev m n = last (h # xs)" by (rule seg_last [OF s(1)])
qed

lemma list_add_after_is_list:
  assumes l: "is_list m h (xs @ p # ys)" and n: "n \<noteq> h" "n \<notin> set (xs @ p # ys)"
  shows "is_list (list_add_after p n m) h (xs @ p # n # ys)"
proof -
  have l': "is_list m h ((xs @ [p]) @ ys)" and n': "n \<notin> set ((xs @ [p]) @ ys)" using l n by simp_all
  have "p \<noteq> n" "lnext m p \<noteq> n" using n is_list_links(1) [OF l] hd_in [of ys h] by auto
  then show ?thesis
    using is_list_insert [OF l' n(1) n', of p "lnext m p" "list_add_after p n m"] is_list_links(1) [OF l]
    by (simp add: list_add_after_def list_add_between_def fun_upd_twist)
qed

lemma list_add_before_is_list:
  assumes l: "is_list m h (xs @ q # ys)" and n: "n \<noteq> h" "n \<notin> set (xs @ q # ys)"
  shows "is_list (list_add_before q n m) h (xs @ n # q # ys)"
proof -
  have "q \<noteq> n" "lprev m q \<noteq> n" using n is_list_links(2) [OF l] last_in [of h xs] by auto
  then show ?thesis
    using is_list_insert [OF l n, of "lprev m q" q "list_add_before q n m"] is_list_links(2) [OF l]
    by (simp add: list_add_before_def list_add_between_def fun_upd_twist)
qed

lemma list_del_is_list:
  assumes l: "is_list m h (xs @ n # ys)"
  shows "is_list (list_del n m) h (xs @ ys)"
proof -
  note k = is_list_links [OF l]
  have "n \<noteq> h" "n \<notin> set xs" "n \<notin> set ys" using l by (auto simp: is_list_def)
  then have "lnext m n \<noteq> n" using k hd_in [of ys h] by auto
  then show ?thesis using is_list_delete [OF l k(2) k(1), of "list_del n m"] by (simp add: list_del_def Let_def)
qed

lemma list_pop_is_list:
  "is_list m h [] \<Longrightarrow> list_pop off h m = (None, m)"
  "is_list m h (x # xs) \<Longrightarrow> list_pop off h m = (Some (x - off), list_del x m) \<and> is_list (list_del x m) h xs"
  using list_del_is_list [of m h "[]" x xs]
  by (simp_all add: list_pop_def is_list_empty) (simp add: is_list_def Let_def)

lemma list_ends:
  assumes "is_list m h xs"
  shows "list_top off h m = (case xs of [] \<Rightarrow> None | x # _ \<Rightarrow> Some (x - off))"
    and "list_tail off h m = (if xs = [] then None else Some (last xs - off))"
  using assms seg_first [of m h xs h] seg_last [of m h xs h] is_list_empty [OF assms]
  by (auto simp: list_top_def list_tail_def is_list_def split: list.splits)

lemma list_neighbours:
  assumes l: "is_list m h (xs @ n # ys)" and off: "off \<le> n"
  shows "list_next off h (n - off) m = (case ys of [] \<Rightarrow> None | y # _ \<Rightarrow> Some (y - off))"
    and "list_prev off h (n - off) m = (if xs = [] then None else Some (last xs - off))"
proof -
  have "h \<notin> set xs" "h \<notin> set ys" using l by (auto simp: is_list_def)
  then show "list_next off h (n - off) m = (case ys of [] \<Rightarrow> None | y # _ \<Rightarrow> Some (y - off))"
    "list_prev off h (n - off) m = (if xs = [] then None else Some (last xs - off))"
    using is_list_links [OF l] off
    by (cases ys; cases xs rule: rev_cases; auto simp: list_next_def list_prev_def list_entry_or_null_def)+
qed

text \<open>Moving a whole list to the end or the start of another.\<close>

lemma is_list_concat:
  assumes t: "is_list m t (xs @ zs)" and f: "is_list m f ys" and y: "ys \<noteq> []"
    and d: "set (t # xs @ zs) \<inter> set (f # ys) = {}"
    and p: "p = last (t # xs)" and q: "q = hd (zs @ [t])"
    and m': "lnext m' = (lnext m)(p := hd ys, last ys := q, f := f)" "lprev m' = (lprev m)(q := last ys, hd ys := p, f := f)"
  shows "is_list m' t (xs @ ys @ zs)" and "is_list m' f []"
proof -
  obtain y0 ys0 where ys: "ys = y0 # ys0" using y by (cases ys) auto
  have dt: "distinct (t # xs)" "distinct (zs @ [t])" "set xs \<inter> set zs = {}" using t by (auto simp: is_list_def)
  have dy: "distinct (f # ys)" using f by (simp add: is_list_def)
  have st: "seg m t xs q" "seg m p zs t" using t seg_split [of m t xs zs t] p q by (simp_all add: is_list_def)
  have sy: "seg m y0 ys0 f" using f ys by (simp add: is_list_def)
  have lasty: "last ys = last (y0 # ys0)" "last ys \<in> set ys" by (simp_all add: ys)
  have pin: "p \<in> set (t # xs)" using p last_in [of t xs] by auto
  have qin: "q \<in> set (zs @ [t])" using q hd_in [of zs t] by auto
  have sep: "x \<noteq> z" if "x \<in> set (t # xs @ zs)" "z \<in> set (f # ys)" for x z using that d by blast
  have "seg m' t xs y0"
  proof (rule seg_reend [OF st(1)])
    show "lnext m' (last (t # xs)) = y0" using pin sep [of p "last ys"] sep [of p f] lasty by (auto simp: m' p ys)
    show "lprev m' y0 = last (t # xs)" using dy by (simp add: m' p ys)
    show "x \<in> set (butlast (t # xs)) \<Longrightarrow> lnext m' x = lnext m x" for x
      using butlast_last [OF dt(1), of x] in_set_butlastD [of x "t # xs"] sep [of x "last ys"] sep [of x f] lasty
      by (auto simp: m' p)
    show "x \<in> set xs \<Longrightarrow> lprev m' x = lprev m x" for x
      using qin dt sep [of x y0] sep [of x f] by (auto simp: m' ys)
  qed
  moreover have "seg m' y0 ys0 q"
  proof (rule seg_reend [OF sy])
    show "lnext m' (last (y0 # ys0)) = q" using lasty dy by (auto simp: m')
    show "lprev m' q = last (y0 # ys0)" using qin sep [of q y0] sep [of q f] lasty by (auto simp: m' ys)
    show "x \<in> set (butlast (y0 # ys0)) \<Longrightarrow> lnext m' x = lnext m x" for x
      using butlast_last [of y0 ys0 x] in_set_butlastD [of x "y0 # ys0"] dy sep [of p x] pin lasty
      by (auto simp: m' ys)
    show "x \<in> set ys0 \<Longrightarrow> lprev m' x = lprev m x" for x using dy sep [of q x] qin by (auto simp: m' ys)
  qed
  moreover have "seg m' (last ys) zs t"
  proof (rule seg_restart [OF st(2)])
    show "lnext m' (last ys) = hd (zs @ [t])" using lasty dy q by (auto simp: m')
    show "lprev m' (hd (zs @ [t])) = last ys" using qin sep [of q y0] sep [of q f] q by (auto simp: m' ys)
    show "x \<in> set zs \<Longrightarrow> lnext m' x = lnext m x" for x
      using pin dt t sep [of x "last ys"] sep [of x f] lasty by (auto simp: m' is_list_def)
    show "x \<in> set (tl (zs @ [t])) \<Longrightarrow> lprev m' x = lprev m x" for x
      using tl_hd [OF dt(2), of x] list.set_sel(2) [of "zs @ [t]" x] q sep [of x y0] sep [of x f] by (auto simp: m' ys)
  qed
  ultimately have "seg m' t xs y0 \<and> seg m' y0 (ys0 @ zs) t"
    unfolding seg_split [of m' y0 ys0] using q lasty(1) by simp
  then have "seg m' t (xs @ ys @ zs) t" by (simp only: ys append_Cons seg_append)
  then show "is_list m' t (xs @ ys @ zs)" using t dy d ys by (auto simp: is_list_def)
  show "is_list m' f []" by (simp add: is_list_def m')
qed

lemma list_append_list_is_list:
  assumes t: "is_list m t xs" and f: "is_list m f ys" and d: "set (t # xs) \<inter> set (f # ys) = {}"
  shows "is_list (list_append_list t f m) t (xs @ ys) \<and> is_list (list_append_list t f m) f []"
proof -
  define p where "p = lprev m t"
  have p: "p = last (t # xs)" using seg_last [of m t xs t] t by (simp add: p_def is_list_def)
  then have pin: "p \<in> set (t # xs)" using last_in [of t xs] by auto
  show ?thesis
  proof (cases "ys = []")
    case True
    then have ff: "lnext m f = f" "lprev m f = f" using f by (simp_all add: is_list_def)
    have "lnext m p = t" using seg_ends [of m t xs t] t p by (simp only: is_list_def)
    moreover have "t \<noteq> f" "p \<noteq> f" using d pin by auto
    ultimately have "lnext (list_append_list t f m) = (lnext m)(f := f)" "lprev (list_append_list t f m) = (lprev m)(f := f)"
      using ff by (auto simp: list_append_list_def list_del_def list_head_init_def Let_def p_def [symmetric] fun_eq_iff)
    moreover from this have "seg (list_append_list t f m) t xs t = seg m t xs t"
      using d by (intro seg_frame) auto
    ultimately show ?thesis using t True by (simp add: is_list_def)
  next
    case False
    have q: "lprev m f = last ys" "lnext m f = hd ys"
      using seg_last [of m f ys f] seg_first [of m f ys f] f False by (auto simp: is_list_def)
    have ne: "t \<noteq> f" "p \<noteq> f" "last ys \<noteq> f" "hd ys \<noteq> f" "t \<noteq> hd ys" "p \<noteq> last ys" "t \<noteq> last ys" "p \<noteq> hd ys"
      using d pin f False hd_in_set [OF False] last_in_set [OF False] by (auto simp: is_list_def)
    have "lnext (list_append_list t f m) = (lnext m)(p := hd ys, last ys := t, f := f)"
      "lprev (list_append_list t f m) = (lprev m)(t := last ys, hd ys := p, f := f)"
      using ne q by (auto simp: list_append_list_def list_del_def list_head_init_def Let_def p_def [symmetric] fun_eq_iff)
    from is_list_concat [of m t xs "[]", OF _ f False _ p _ this] show ?thesis using t d by simp
  qed
qed

lemma list_prepend_list_is_list:
  assumes t: "is_list m t zs" and f: "is_list m f ys" and d: "set (t # zs) \<inter> set (f # ys) = {}"
  shows "is_list (list_prepend_list t f m) t (ys @ zs) \<and> is_list (list_prepend_list t f m) f []"
proof -
  define q where "q = lnext m t"
  have q: "q = hd (zs @ [t])" using seg_first [of m t zs t] t by (simp add: q_def is_list_def)
  then have qin: "q \<in> set (t # zs)" using hd_in [of zs t] by auto
  show ?thesis
  proof (cases "ys = []")
    case True
    then have ff: "lnext m f = f" "lprev m f = f" using f by (simp_all add: is_list_def)
    have "lprev m q = t" using seg_ends [of m t zs t] t q by (simp only: is_list_def)
    moreover have "t \<noteq> f" "q \<noteq> f" using d qin by auto
    ultimately have "lnext (list_prepend_list t f m) = (lnext m)(f := f)" "lprev (list_prepend_list t f m) = (lprev m)(f := f)"
      using ff by (auto simp: list_prepend_list_def list_del_def list_head_init_def Let_def q_def [symmetric] fun_eq_iff)
    moreover from this have "seg (list_prepend_list t f m) t zs t = seg m t zs t"
      using d by (intro seg_frame) auto
    ultimately show ?thesis using t True by (simp add: is_list_def)
  next
    case False
    have p: "lprev m f = last ys" "lnext m f = hd ys"
      using seg_last [of m f ys f] seg_first [of m f ys f] f False by (auto simp: is_list_def)
    have ne: "t \<noteq> f" "q \<noteq> f" "last ys \<noteq> f" "hd ys \<noteq> f" "t \<noteq> hd ys" "q \<noteq> last ys" "t \<noteq> last ys" "q \<noteq> hd ys"
      using d qin f False hd_in_set [OF False] last_in_set [OF False] by (auto simp: is_list_def)
    have "lnext (list_prepend_list t f m) = (lnext m)(t := hd ys, last ys := q, f := f)"
      "lprev (list_prepend_list t f m) = (lprev m)(q := last ys, hd ys := t, f := f)"
      using ne p by (auto simp: list_prepend_list_def list_del_def list_head_init_def Let_def q_def [symmetric] fun_eq_iff)
    from is_list_concat [of m t "[]" zs, OF _ f False _ _ q this] show ?thesis using t d by simp
  qed
qed

subsection \<open>Iteration and the consistency check\<close>

lemma walk_seg:
  "seg m a xs h \<Longrightarrow> h \<notin> set xs \<Longrightarrow> length xs < fuel \<Longrightarrow> walk fuel (lnext m) h (lnext m a) = Some xs"
proof (induction xs arbitrary: a fuel)
  case Nil
  then show ?case by (cases fuel) auto
next
  case (Cons x xs)
  then show ?case by (cases fuel) auto
qed

lemma walk_seg_rev:
  "seg m h xs b \<Longrightarrow> h \<notin> set xs \<Longrightarrow> length xs < fuel \<Longrightarrow> walk fuel (lprev m) h (lprev m b) = Some (rev xs)"
proof (induction xs arbitrary: b fuel rule: rev_induct)
  case Nil
  then show ?case by (cases fuel) auto
next
  case (snoc x xs)
  have "seg m h xs x" "lprev m b = x" using snoc.prems(1) by (auto simp: seg_append)
  then show ?case using snoc.IH [of x "fuel - 1"] snoc.prems by (cases fuel) auto
qed

text \<open>The links checked so far by \<open>list_check_node\<close>.\<close>

fun chain :: "lheap \<Rightarrow> addr \<Rightarrow> addr list \<Rightarrow> bool" where
  "chain m a [] \<longleftrightarrow> True"
| "chain m a (x # xs) \<longleftrightarrow> lnext m a = x \<and> lprev m x = a \<and> chain m x xs"

lemma seg_chain: "seg m a xs b \<longleftrightarrow> chain m a xs \<and> lnext m (last (a # xs)) = b \<and> lprev m b = last (a # xs)"
  by (induction xs arbitrary: a) auto

lemma chain_append: "chain m a (xs @ x # ys) \<longleftrightarrow> seg m a xs x \<and> chain m x ys"
  by (induction xs arbitrary: a) auto

lemma chain_segI: "chain m a xs \<Longrightarrow> lnext m (last (a # xs)) = b \<Longrightarrow> lprev m b = last (a # xs) \<Longrightarrow> seg m a xs b"
  by (simp only: seg_chain)

lemma chain_snoc:
  "chain m a xs \<Longrightarrow> lnext m (last (a # xs)) = b \<Longrightarrow> lprev m b = last (a # xs) \<Longrightarrow> chain m a (xs @ [b])"
  by (simp only: chain_append seg_chain chain.simps)

text \<open>Consistent backward links rule out that the forward links run into a cycle.\<close>

lemma chain_distinct: "chain m a xs \<Longrightarrow> a \<notin> set xs \<Longrightarrow> distinct (a # xs)"
proof (induction xs rule: rev_induct)
  case (snoc y ys)
  have s: "seg m a ys y" using snoc.prems(1) by (simp add: chain_append)
  then have d: "distinct (a # ys)" using snoc by (simp add: seg_chain)
  have "y \<notin> set ys"
  proof
    assume "y \<in> set ys"
    then obtain us vs where ys: "ys = us @ y # vs" by (auto dest: split_list)
    have "seg m a us y" "seg m y vs y" using s unfolding ys seg_append by auto
    then have "last (a # us) = last (y # vs)" using seg_last by metis
    moreover have "last (a # us) \<in> set (a # us)" "last (y # vs) \<in> set (y # vs)" by (metis last_in_set list.distinct(1))+
    moreover have "set (a # us) \<inter> set (y # vs) = {}" using d unfolding ys by auto
    ultimately show False by (metis disjoint_iff)
  qed
  then show ?case using d snoc.prems(2) by auto
qed simp

lemma check_loop_ok:
  assumes "chain m node zs" and "node \<notin> set zs" and "check_loop fuel m node ab (last (node # zs)) (lnext m (last (node # zs))) = Some r"
  shows "(r = Inr (Some node) \<and> (\<exists>xs. is_list m node xs)) \<or> (r = corrupt ab \<and> \<not> (\<exists>xs. is_list m node xs))"
  using assms
proof (induction fuel arbitrary: zs)
  case (Suc fuel)
  define p n where "p = last (node # zs)" and "n = lnext m p"
  have step: "check_loop (Suc fuel) m node ab p n = Some r" using Suc.prems(3) by (simp only: p_def n_def)
  have pre: "zs = take (length zs) xs \<and> n = hd (drop (length zs) xs @ [node]) \<and> lprev m n = p"
    if l: "is_list m node xs" for xs
  proof -
    have "length ws \<le> length us \<and> ws = take (length ws) us"
      if "chain m a ws" "seg m a us node" "node \<notin> set ws" "node \<notin> set us" for ws us a
      using that
    proof (induction ws arbitrary: us a)
      case (Cons w ws)
      then obtain us' where "us = w # us'" by (cases us) auto
      then show ?case using Cons.IH [of w us'] Cons.prems by auto
    qed simp
    then have "length zs \<le> length xs" and tk: "zs = take (length zs) xs" using Suc.prems(1,2) l by (auto simp: is_list_def)
    then have e: "seg m node (zs @ drop (length zs) xs) node" using l by (metis append_take_drop_id is_list_def)
    have h: "n = hd (drop (length zs) xs @ [node])" "lprev m n = p"
      using e seg_split [of m node zs "drop (length zs) xs" node] seg_first seg_ends unfolding p_def n_def by metis+
    then show ?thesis using tk by blast
  qed
  show ?case
  proof (cases "n = node")
    case True
    show ?thesis
    proof (cases "lprev m node = p")
      case ok: True
      have "seg m node zs node" by (rule chain_segI [OF Suc.prems(1)]) (use True ok in \<open>simp_all only: p_def n_def\<close>)
      then have "is_list m node zs" using chain_distinct [OF Suc.prems(1,2)] by (simp only: is_list_def)
      then show ?thesis using step True ok by auto
    next
      case False
      then have "r = corrupt ab" using step True by simp
      then show ?thesis using pre True False by metis
    qed
  next
    case ne: False
    show ?thesis
    proof (cases "lprev m n = p")
      case True
      have "chain m node (zs @ [n])" by (rule chain_snoc [OF Suc.prems(1)]) (use True in \<open>simp_all only: p_def n_def\<close>)
      then show ?thesis using Suc.IH [of "zs @ [n]"] step ne True Suc.prems(2) by simp
    next
      case False
      then have "r = corrupt ab" using step ne by simp
      then show ?thesis using pre False by metis
    qed
  qed
qed simp

lemma check_loop_ends:
  assumes "chain m node zs" and "node \<notin> set zs" and fin: "finite N" and cl: "\<And>x. x \<in> N \<Longrightarrow> lnext m x \<in> N"
    and "set (node # zs) \<subseteq> N" and "card N \<le> fuel + length zs"
  shows "\<exists>r. check_loop fuel m node ab (last (node # zs)) (lnext m (last (node # zs))) = Some r"
  using assms(1,2,5,6)
proof (induction fuel arbitrary: zs)
  case 0
  have "distinct (node # zs)" by (rule chain_distinct [OF 0(1,2)])
  then have "Suc (length zs) \<le> card N" using card_mono [OF fin 0(3)] distinct_card by fastforce
  then show ?case using 0(4) by simp
next
  case (Suc fuel)
  define p n where "p = last (node # zs)" and "n = lnext m p"
  have "p \<in> N" using Suc.prems(3) last_in_set [of "node # zs"] by (auto simp: p_def)
  then have nN: "n \<in> N" using cl by (simp add: n_def)
  have "\<exists>r. check_loop (Suc fuel) m node ab p n = Some r"
  proof (cases "n \<noteq> node \<and> lprev m n = p")
    case True
    have "chain m node (zs @ [n])" by (rule chain_snoc [OF Suc.prems(1)]) (use True in \<open>simp_all only: p_def n_def\<close>)
    then show ?thesis using Suc.IH [of "zs @ [n]"] Suc.prems True nN by simp
  qed auto
  then show ?case by (simp only: p_def n_def)
qed

subsection \<open>Singly linked lists\<close>

type_synonym sheap = "addr \<Rightarrow> addr"

definition slist_init_head :: "addr \<Rightarrow> sheap \<Rightarrow> sheap" where
  "slist_init_head h m = m(h := 0)"

definition slist_add_head :: "addr \<Rightarrow> addr \<Rightarrow> sheap \<Rightarrow> sheap" where
  "slist_add_head h n m = (let m = m(n := m h) in m(h := n))"

definition slist_del_head :: "addr \<Rightarrow> sheap \<Rightarrow> sheap" where
  "slist_del_head h m = m(h := m (m h))"

definition slist_del :: "addr \<Rightarrow> addr \<Rightarrow> sheap \<Rightarrow> sheap" where
  "slist_del prv n m = m(prv := m n)"

definition slist_empty :: "addr \<Rightarrow> sheap \<Rightarrow> bool" where
  "slist_empty h m \<longleftrightarrow> m h = 0"

definition slist_pop :: "nat \<Rightarrow> addr \<Rightarrow> sheap \<Rightarrow> addr option \<times> sheap" where
  "slist_pop off h m =
     (if slist_empty h m then (None, m) else let n = m h in (Some (n - off), slist_del h n m))"

definition slist_for_each :: "nat \<Rightarrow> addr \<Rightarrow> sheap \<Rightarrow> addr list option" where
  "slist_for_each fuel h m = walk fuel m 0 (m h)"

fun sseg :: "sheap \<Rightarrow> addr \<Rightarrow> addr list \<Rightarrow> bool" where
  "sseg m a [] \<longleftrightarrow> m a = 0"
| "sseg m a (x # xs) \<longleftrightarrow> m a = x \<and> sseg m x xs"

definition is_slist :: "sheap \<Rightarrow> addr \<Rightarrow> addr list \<Rightarrow> bool" where
  "is_slist m h xs \<longleftrightarrow> distinct (h # xs) \<and> 0 \<notin> set (h # xs) \<and> sseg m h xs"

lemma sseg_upd [simp]: "u \<notin> set (a # xs) \<Longrightarrow> sseg (m(u := v)) a xs = sseg m a xs"
  by (induction xs arbitrary: a) auto

lemma sseg_first: "sseg m a xs \<Longrightarrow> m a = (case xs of [] \<Rightarrow> 0 | x # _ \<Rightarrow> x)"
  by (cases xs) auto

lemma sseg_append: "sseg m a (xs @ x # ys) \<Longrightarrow> sseg m x ys"
  by (induction xs arbitrary: a) auto

lemma slist_add_head_is_slist:
  assumes "is_slist m h xs" and "n \<noteq> 0" and "n \<noteq> h" and "n \<notin> set xs"
  shows "is_slist (slist_add_head h n m) h (n # xs)"
proof -
  have "sseg (m(n := m h, h := n)) n xs"
  proof (cases xs)
    case (Cons x xs')
    then have "m h = x" "sseg m x xs'" using assms(1) by (auto simp: is_slist_def)
    then show ?thesis using assms Cons by (simp add: is_slist_def)
  qed (use assms in \<open>auto simp: is_slist_def\<close>)
  then show ?thesis using assms by (auto simp: is_slist_def slist_add_head_def Let_def)
qed

text \<open>Deleting the node after \<open>prv\<close>, which is the head or a node of the list.\<close>

lemma slist_del_seg:
  assumes "sseg m a (xs @ n # ys)" and "distinct (a # xs @ n # ys)"
  shows "sseg (slist_del (last (a # xs)) n m) a (xs @ ys)"
  using assms
proof (induction xs arbitrary: a)
  case Nil
  then have s: "sseg m n ys" by simp
  show ?case
  proof (cases ys)
    case (Cons y ys')
    then have y: "m n = y" "sseg m y ys'" "a \<notin> set (y # ys')" using s Nil.prems(2) by auto
    have "sseg (m(a := y)) y ys'" using sseg_upd [OF y(3)] y(2) by blast
    then show ?thesis
      by (simp only: Cons slist_del_def y(1) last.simps append_Nil sseg.simps fun_upd_same simp_thms if_True)
  qed (use s in \<open>simp add: slist_del_def\<close>)
next
  case (Cons x xs)
  have "sseg (slist_del (last (x # xs)) n m) x (xs @ ys)" using Cons by simp
  moreover have "last (x # xs) \<noteq> a" using Cons.prems(2) last_in_set [of "x # xs"] by auto
  moreover have "last (a # x # xs) = last (x # xs)" by simp
  ultimately show ?case using Cons.prems(1)
    by (simp only: slist_del_def append_Cons sseg.simps fun_upd_other not_sym simp_thms)
qed

lemma slist_del_is_slist:
  "is_slist m h (xs @ n # ys) \<Longrightarrow> is_slist (slist_del (last (h # xs)) n m) h (xs @ ys)"
  using slist_del_seg [of m h xs n ys] by (auto simp: is_slist_def)

lemma slist_pop_is_slist:
  "is_slist m h [] \<Longrightarrow> slist_pop off h m = (None, m)"
  "is_slist m h (x # xs) \<Longrightarrow> slist_pop off h m = (Some (x - off), slist_del h x m) \<and> is_slist (slist_del h x m) h xs \<and>
     slist_del_head h m = slist_del h x m"
  using slist_del_is_slist [of m h "[]" x xs]
  by (auto simp: slist_pop_def slist_empty_def Let_def is_slist_def slist_del_head_def slist_del_def)

lemma slist_walk: "sseg m a xs \<Longrightarrow> 0 \<notin> set xs \<Longrightarrow> length xs < fuel \<Longrightarrow> walk fuel m 0 (m a) = Some xs"
proof (induction xs arbitrary: a fuel)
  case Nil
  then show ?case by (cases fuel) auto
next
  case (Cons x xs)
  then show ?case by (cases fuel) auto
qed

subsection \<open>Lists with a single head pointer\<close>

text \<open>A pointer to a pointer is the place it points to: a head or a \<open>next\<close> field.\<close>

datatype hslot = Head_of addr | Next_of addr

record hheap =
  hhead :: "addr \<Rightarrow> addr"
  hnext :: "addr \<Rightarrow> addr"
  hpprev :: "addr \<Rightarrow> hslot"

fun read_slot :: "hslot \<Rightarrow> hheap \<Rightarrow> addr" where
  "read_slot (Head_of h) m = hhead m h"
| "read_slot (Next_of n) m = hnext m n"

fun write_slot :: "hslot \<Rightarrow> addr \<Rightarrow> hheap \<Rightarrow> hheap" where
  "write_slot (Head_of h) v m = m\<lparr>hhead := (hhead m)(h := v)\<rparr>"
| "write_slot (Next_of n) v m = m\<lparr>hnext := (hnext m)(n := v)\<rparr>"

definition hlist_init_head :: "addr \<Rightarrow> hheap \<Rightarrow> hheap" where
  "hlist_init_head h m = m\<lparr>hhead := (hhead m)(h := 0)\<rparr>"

definition hlist_add_head :: "addr \<Rightarrow> addr \<Rightarrow> hheap \<Rightarrow> hheap" where
  "hlist_add_head h n m =
     (let head = hhead m h;
          m = m\<lparr>hnext := (hnext m)(n := head)\<rparr>;
          m = m\<lparr>hpprev := (hpprev m)(n := Head_of h)\<rparr>;
          m = m\<lparr>hhead := (hhead m)(h := n)\<rparr>
      in if head \<noteq> 0 then m\<lparr>hpprev := (hpprev m)(head := Next_of n)\<rparr> else m)"

definition hlist_del :: "addr \<Rightarrow> hheap \<Rightarrow> hheap" where
  "hlist_del n m =
     (let m = write_slot (hpprev m n) (hnext m n) m
      in if hnext m n \<noteq> 0 then m\<lparr>hpprev := (hpprev m)(hnext m n := hpprev m n)\<rparr> else m)"

definition hlist_del_head :: "addr \<Rightarrow> hheap \<Rightarrow> hheap" where
  "hlist_del_head h m = (if hhead m h \<noteq> 0 then hlist_del (hhead m h) m else m)"

definition hlist_empty :: "addr \<Rightarrow> hheap \<Rightarrow> bool" where
  "hlist_empty h m \<longleftrightarrow> hhead m h = 0"

fun hseg :: "hheap \<Rightarrow> hslot \<Rightarrow> addr list \<Rightarrow> bool" where
  "hseg m sl [] \<longleftrightarrow> read_slot sl m = 0"
| "hseg m sl (x # xs) \<longleftrightarrow> read_slot sl m = x \<and> hpprev m x = sl \<and> hseg m (Next_of x) xs"

definition is_hlist :: "hheap \<Rightarrow> addr \<Rightarrow> addr list \<Rightarrow> bool" where
  "is_hlist m h xs \<longleftrightarrow> distinct xs \<and> 0 \<notin> set xs \<and> hseg m (Head_of h) xs"

lemma hseg_frame:
  assumes "read_slot sl m' = read_slot sl m" and "\<And>x. x \<in> set xs \<Longrightarrow> hnext m' x = hnext m x \<and> hpprev m' x = hpprev m x"
  shows "hseg m' sl xs = hseg m sl xs"
  using assms by (induction xs arbitrary: sl) auto

lemma read_write_slot: "read_slot sl (write_slot sl' v m) = (if sl = sl' then v else read_slot sl m)"
  by (cases sl; cases sl') auto

lemma write_slot_fields: "hpprev (write_slot sl v m) = hpprev m" "hnext (write_slot sl v m) n = (if sl = Next_of n then v else hnext m n)"
  by (cases sl; auto)+

lemma read_slot_pprev [simp]: "read_slot sl (m\<lparr>hpprev := p\<rparr>) = read_slot sl m"
  by (cases sl) auto

lemma hlist_add_head_is_hlist:
  assumes l: "is_hlist m h xs" and n: "n \<noteq> 0" "n \<notin> set xs"
  shows "is_hlist (hlist_add_head h n m) h (n # xs)"
proof (cases xs)
  case Nil
  then show ?thesis using assms by (auto simp: is_hlist_def hlist_add_head_def Let_def)
next
  case (Cons x xs')
  have "hseg (hlist_add_head h n m) (Next_of x) xs' = hseg m (Next_of x) xs'"
    using assms Cons by (intro hseg_frame) (auto simp: hlist_add_head_def Let_def is_hlist_def)
  then show ?thesis using assms Cons by (auto simp: is_hlist_def hlist_add_head_def Let_def)
qed

lemma hlist_del_seg:
  assumes "hseg m sl (xs @ n # ys)" and "distinct (xs @ n # ys)" and "0 \<notin> set (xs @ n # ys)"
    and "\<forall>x \<in> set (xs @ n # ys). sl \<noteq> Next_of x"
  shows "hseg (hlist_del n m) sl (xs @ ys) \<and> hpprev m n = (if xs = [] then sl else Next_of (last xs)) \<and>
    hnext m n = (case ys of [] \<Rightarrow> 0 | y # _ \<Rightarrow> y)"
  using assms
proof (induction xs arbitrary: sl)
  case Nil
  show ?case
  proof (cases ys)
    case Nil
    then show ?thesis using Nil.prems by (auto simp: hlist_del_def Let_def read_write_slot write_slot_fields)
  next
    case (Cons y ys')
    have "hseg (hlist_del n m) (Next_of y) ys' = hseg m (Next_of y) ys'"
      using Nil.prems Cons by (intro hseg_frame) (auto simp: hlist_del_def Let_def read_write_slot write_slot_fields)
    then show ?thesis using Nil.prems Cons by (auto simp: hlist_del_def Let_def read_write_slot write_slot_fields)
  qed
next
  case (Cons x xs)
  have ih: "hseg (hlist_del n m) (Next_of x) (xs @ ys) \<and> hpprev m n = (if xs = [] then Next_of x else Next_of (last xs)) \<and>
      hnext m n = (case ys of [] \<Rightarrow> 0 | y # _ \<Rightarrow> y)"
    using Cons.prems by (intro Cons.IH) auto
  have "hpprev m n = Next_of (last (x # xs))" using ih by simp
  moreover have "sl \<noteq> Next_of (last (x # xs))" using Cons.prems(4) last_in_set [of "x # xs"] by auto
  moreover have "hnext m n \<noteq> x" using ih Cons.prems(2,3) by (cases ys) auto
  moreover have "n \<noteq> last (x # xs)" using Cons.prems(2) last_in_set [of "x # xs"] by auto
  ultimately have "read_slot sl (hlist_del n m) = x" "hpprev (hlist_del n m) x = sl"
    using Cons.prems(1) by (simp_all add: hlist_del_def Let_def read_write_slot write_slot_fields del: write_slot.simps last.simps)
  then show ?case using ih by simp
qed

lemma hlist_del_is_hlist: "is_hlist m h (xs @ n # ys) \<Longrightarrow> is_hlist (hlist_del n m) h (xs @ ys)"
  using hlist_del_seg [of m "Head_of h" xs n ys] by (auto simp: is_hlist_def)

subsection \<open>The interfaces hold\<close>

interpretation cl: node_queue "\<lambda>m xs. is_list m h xs" "\<lambda>n. n \<noteq> h" "list_add h" "list_pop 0 h" "list_add_tail h" for h
proof unfold_locales
  show "is_list s h (x # xs) \<Longrightarrow> fst (list_pop 0 h s) = Some x \<and> is_list (snd (list_pop 0 h s)) h xs" for s x xs
    using list_pop_is_list(2) [of s h x xs 0] by simp
qed (simp_all add: list_add_is_list list_add_tail_is_list list_pop_is_list(1))

interpretation sl: node_stack "\<lambda>m xs. is_slist m h xs" "\<lambda>n. n \<noteq> 0 \<and> n \<noteq> h" "slist_add_head h" "slist_pop 0 h" for h
proof unfold_locales
  show "is_slist s h (x # xs) \<Longrightarrow> fst (slist_pop 0 h s) = Some x \<and> is_slist (snd (slist_pop 0 h s)) h xs" for s x xs
    using slist_pop_is_slist(2) [of s h x xs 0] by simp
qed (simp_all add: slist_add_head_is_slist slist_pop_is_slist(1))

definition hlist_pop :: "addr \<Rightarrow> hheap \<Rightarrow> addr option \<times> hheap" where
  "hlist_pop h m = (if hlist_empty h m then (None, m) else (Some (hhead m h), hlist_del_head h m))"

lemma hlist_pop_is_hlist:
  "is_hlist m h [] \<Longrightarrow> hlist_pop h m = (None, m)"
  "is_hlist m h (x # xs) \<Longrightarrow> fst (hlist_pop h m) = Some x \<and> is_hlist (snd (hlist_pop h m)) h xs"
  using hlist_del_is_hlist [of m h "[]" x xs]
  by (auto simp: hlist_pop_def hlist_empty_def hlist_del_head_def is_hlist_def)

interpretation hl: node_stack "\<lambda>m xs. is_hlist m h xs" "\<lambda>n. n \<noteq> 0" "hlist_add_head h" "hlist_pop h" for h
  by unfold_locales (simp_all add: hlist_add_head_is_hlist hlist_pop_is_hlist)

subsection \<open>Properties\<close>



text \<open>
  Moving a whole list to the end (start) of another one concatenates the two sequences and
  leaves the moved list empty; this holds also if either of them is empty.
\<close>

theorem list_concat_moves:
  assumes t: "is_list m t xs" and f: "is_list m f ys" and d: "set (t # xs) \<inter> set (f # ys) = {}"
  shows "is_list (list_append_list t f m) t (xs @ ys) \<and> is_list (list_append_list t f m) f [] \<and>
    is_list (list_prepend_list t f m) t (ys @ xs) \<and> is_list (list_prepend_list t f m) f []"
  using list_append_list_is_list [OF assms] list_prepend_list_is_list [OF assms] by blast

theorem list_concat_moves_witness:
  "\<exists>m. is_list m 1 [] \<and> is_list m 2 [3] \<and> is_list (list_append_list 1 2 m) 1 [3]"
proof -
  define m where "m = list_add_tail 2 3 (list_head_init 2 (list_head_init 1 \<lparr>lnext = id, lprev = id\<rparr>))"
  have "is_list m 1 []" "is_list m 2 [3]"
    by (simp_all add: m_def is_list_def list_add_tail_def list_head_init_def Let_def)
  then show ?thesis using list_concat_moves [of m 1 "[]" 2 "[3]"] by auto
qed



text \<open>
  The lists used in hash tables act on sequences of nodes as well: adding in front,
  deleting a given node of an \<open>hlist\<close> in place, deleting the node after a given one of an
  \<open>slist\<close>, and iterating an \<open>slist\<close>; both give back what was added in reverse order.
\<close>

theorem hash_lists_refine:
  assumes s: "is_slist m h xs" and p: "is_hlist k h xs" and n: "n \<noteq> 0" "n \<noteq> h" "n \<notin> set xs" and fuel: "length xs < fuel"
  shows "is_slist (slist_add_head h n m) h (n # xs) \<and> is_hlist (hlist_add_head h n k) h (n # xs) \<and>
    slist_for_each fuel h m = Some xs \<and> (slist_empty h m \<longleftrightarrow> xs = []) \<and> (hlist_empty h k \<longleftrightarrow> xs = []) \<and>
    (\<forall>us y vs. xs = us @ y # vs \<longrightarrow>
       is_slist (slist_del (last (h # us)) y m) h (us @ vs) \<and> is_hlist (hlist_del y k) h (us @ vs)) \<and>
    (\<forall>ns. distinct ns \<and> h \<notin> set ns \<and> 0 \<notin> set ns \<longrightarrow>
       fst (sl.pop_all h (length ns) (sl.push_all h ns (slist_init_head h m))) = map Some (rev ns) \<and>
       fst (hl.pop_all h (length ns) (hl.push_all h ns (hlist_init_head h k))) = map Some (rev ns))"
proof -
  have i: "is_slist (slist_init_head h m) h []" "is_hlist (hlist_init_head h k) h []"
    using s by (simp_all add: is_slist_def is_hlist_def slist_init_head_def hlist_init_head_def)
  have "fst (sl.pop_all h (length ns) (sl.push_all h ns (slist_init_head h m))) = map Some (rev ns) \<and>
       fst (hl.pop_all h (length ns) (hl.push_all h ns (hlist_init_head h k))) = map Some (rev ns)"
    if "distinct ns" "h \<notin> set ns" "0 \<notin> set ns" for ns
  proof -
    have "\<forall>n \<in> set ns. n \<noteq> 0 \<and> n \<noteq> h" "\<forall>n \<in> set ns. n \<noteq> 0" using that(2,3) by metis+
    then show ?thesis using sl.lifo [OF i(1) _ that(1)] hl.lifo [OF i(2) _ that(1)] by blast
  qed
  moreover have "slist_for_each fuel h m = Some xs" using slist_walk [of m h xs fuel] s fuel by (simp add: is_slist_def slist_for_each_def)
  moreover have "slist_empty h m \<longleftrightarrow> xs = []" "hlist_empty h k \<longleftrightarrow> xs = []"
    using s p by (cases xs; auto simp: is_slist_def is_hlist_def slist_empty_def hlist_empty_def)+
  moreover have "is_slist (slist_del (last (h # us)) y m) h (us @ vs) \<and> is_hlist (hlist_del y k) h (us @ vs)"
    if "xs = us @ y # vs" for us y vs
    using that s p slist_del_is_slist [of m h us y vs] hlist_del_is_hlist [of k h us y vs] by blast
  ultimately show ?thesis using n slist_add_head_is_slist [OF s] hlist_add_head_is_hlist [OF p] by blast
qed

theorem hash_lists_refine_witness:
  "is_slist (\<lambda>_. 0) 1 [] \<and> is_hlist \<lparr>hhead = \<lambda>_. 0, hnext = \<lambda>_. 0, hpprev = \<lambda>_. Head_of 0\<rparr> 1 [] \<and>
   is_slist (slist_add_head 1 5 (\<lambda>_. 0)) 1 [5]"
proof -
  have s: "is_slist (\<lambda>_. 0) 1 []" and h: "is_hlist \<lparr>hhead = \<lambda>_. 0, hnext = \<lambda>_. 0, hpprev = \<lambda>_. Head_of 0\<rparr> 1 []"
    by (simp_all add: is_slist_def is_hlist_def)
  then show ?thesis using hash_lists_refine [OF s h, of 5 1] by simp
qed

end
