(* ===== verification/Tcache.thy ===== *)
theory Tcache
  imports Prelude
begin

text \<open>
  The magazine caches of \<open>inc/base/tcache.h\<close> and \<open>base/tcache.c\<close>. An item is its address; the
  two link fields a free item holds (\<open>next_item\<close>, \<open>next_mag\<close>) are a store indexed by items,
  and 0 is the null pointer. The backend operations (\<open>tc->ops\<close>) are arguments: \<open>al\<close> returns
  the items of a successful allocation or \<open>None\<close>, \<open>fr\<close> takes items back. Reading a link of
  the null pointer and running past the array of 64 items are faults.

  Handles are numbered by the thread that owns them. A call is one step: a handle is only
  touched by its thread, and the shared pool is only touched under its lock.

  The locale \<open>item_backend\<close> is the contract of a backend. What the cache guarantees is proved
  in it once and used for each backend.
\<close>

subsection \<open>State\<close>

definition TCACHE_MAX_MAG_SIZE :: nat where
  "TCACHE_MAX_MAG_SIZE = 64"

record tcache_perthread =
  rounds :: nat
  capacity :: nat
  loaded :: addr
  previous :: addr

record 'b tcache =
  next_item :: "addr \<Rightarrow> addr"
  next_mag :: "addr \<Rightarrow> addr"
  mag_size :: nat
  shared_mags :: addr
  mags_allocated :: int
  backend :: 'b
  pts :: "nat \<Rightarrow> tcache_perthread"

type_synonym 'b alloc_op = "nat \<Rightarrow> 'b \<Rightarrow> (addr list option \<times> 'b) exec"
type_synonym 'b free_op = "addr list \<Rightarrow> 'b \<Rightarrow> 'b exec"

definition upd_pt :: "nat \<Rightarrow> (tcache_perthread \<Rightarrow> tcache_perthread) \<Rightarrow> 'b tcache \<Rightarrow> 'b tcache" where
  "upd_pt t f s = s\<lparr>pts := (pts s)(t := f (pts s t))\<rparr>"

definition deref :: "(addr \<Rightarrow> addr) \<Rightarrow> addr \<Rightarrow> addr exec" where
  "deref f p = (if p = 0 then Inl Null_deref else Inr (f p))"

subsection \<open>Magazines\<close>

text \<open>The loop of \<open>tcache_alloc_mag\<close> that links the items, and the one that collects them.\<close>

fun link_items :: "addr list \<Rightarrow> (addr \<Rightarrow> addr) \<Rightarrow> addr \<Rightarrow> addr" where
  "link_items [] m = m"
| "link_items [x] m = m(x := 0)"
| "link_items (x # y # ys) m = link_items (y # ys) (m(x := y))"

definition tcache_alloc_mag :: "'b alloc_op \<Rightarrow> 'b tcache \<Rightarrow> (addr \<times> 'b tcache) exec" where
  "tcache_alloc_mag al s =
     (case al (mag_size s) (backend s) of
        Inl e \<Rightarrow> Inl e
      | Inr (None, b) \<Rightarrow> Inr (0, s\<lparr>backend := b\<rparr>)
      | Inr (Some [], b) \<Rightarrow> Inl Out_of_bounds
      | Inr (Some (x # xs), b) \<Rightarrow>
          Inr (x, s\<lparr>backend := b, next_item := link_items (x # xs) (next_item s),
                    mags_allocated := mags_allocated s + 1\<rparr>))"

fun collect_items :: "nat \<Rightarrow> (addr \<Rightarrow> addr) \<Rightarrow> addr \<Rightarrow> addr list exec" where
  "collect_items 0 m hdr = Inl Out_of_bounds"
| "collect_items (Suc n) m hdr =
     bind_exec (deref m hdr) (\<lambda>nxt.
       if nxt = 0 then Inr [hdr]
       else bind_exec (collect_items n m nxt) (\<lambda>items. Inr (hdr # items)))"

definition tcache_free_mag :: "'b free_op \<Rightarrow> addr \<Rightarrow> 'b tcache \<Rightarrow> 'b tcache exec" where
  "tcache_free_mag fr hdr s =
     bind_exec (collect_items TCACHE_MAX_MAG_SIZE (next_item s) hdr) (\<lambda>items.
     bind_exec (fr items (backend s)) (\<lambda>b.
       Inr (s\<lparr>backend := b, mags_allocated := mags_allocated s - 1\<rparr>)))"

subsection \<open>Allocating and freeing\<close>

text \<open>The end of the slow path: reload the magazine and take its first item.\<close>

definition reload :: "nat \<Rightarrow> 'b tcache \<Rightarrow> (addr \<times> 'b tcache) exec" where
  "reload t s =
     (let item = loaded (pts s t)
      in bind_exec (deref (next_item s) item) (\<lambda>nxt.
           Inr (item, upd_pt t (\<lambda>p. p\<lparr>rounds := capacity p - 1, loaded := nxt\<rparr>) s)))"

definition tcache_alloc_slow :: "'b alloc_op \<Rightarrow> nat \<Rightarrow> 'b tcache \<Rightarrow> (addr \<times> 'b tcache) exec" where
  "tcache_alloc_slow al t s =
     (if previous (pts s t) \<noteq> 0
      then reload t (upd_pt t (\<lambda>p. p\<lparr>loaded := previous p, previous := 0\<rparr>) s)
      else
        let mag = shared_mags s;
            s = upd_pt t (\<lambda>p. p\<lparr>loaded := mag\<rparr>) s;
            s = (if mag \<noteq> 0 then s\<lparr>shared_mags := next_mag s mag\<rparr> else s)
        in if mag \<noteq> 0 then reload t s
           else bind_exec (tcache_alloc_mag al s) (\<lambda>(mag, s).
                  let s = upd_pt t (\<lambda>p. p\<lparr>loaded := mag\<rparr>) s
                  in if mag = 0 then Inr (0, s) else reload t s))"

definition tcache_alloc :: "'b alloc_op \<Rightarrow> nat \<Rightarrow> 'b tcache \<Rightarrow> (addr \<times> 'b tcache) exec" where
  "tcache_alloc al t s =
     (if rounds (pts s t) = 0 then tcache_alloc_slow al t s
      else let item = loaded (pts s t)
           in bind_exec (deref (next_item s) item) (\<lambda>nxt.
                Inr (item, upd_pt t (\<lambda>p. p\<lparr>rounds := rounds p - 1, loaded := nxt\<rparr>) s)))"

definition tcache_free_slow :: "nat \<Rightarrow> addr \<Rightarrow> 'b tcache \<Rightarrow> 'b tcache" where
  "tcache_free_slow t item s =
     (let prv = previous (pts s t);
          s = (if prv = 0 then upd_pt t (\<lambda>p. p\<lparr>previous := loaded p\<rparr>) s
               else let s = s\<lparr>next_mag := (next_mag s)(prv := shared_mags s)\<rparr>;
                        s = s\<lparr>shared_mags := prv\<rparr>
                    in upd_pt t (\<lambda>p. p\<lparr>previous := loaded p\<rparr>) s);
          s = upd_pt t (\<lambda>p. p\<lparr>rounds := 1, loaded := item\<rparr>) s
      in s\<lparr>next_item := (next_item s)(item := 0)\<rparr>)"

definition tcache_free :: "nat \<Rightarrow> addr \<Rightarrow> 'b tcache \<Rightarrow> 'b tcache" where
  "tcache_free t item s =
     (if rounds (pts s t) \<ge> capacity (pts s t) then tcache_free_slow t item s
      else let s = s\<lparr>next_item := (next_item s)(item := loaded (pts s t))\<rparr>
           in upd_pt t (\<lambda>p. p\<lparr>rounds := rounds p + 1, loaded := item\<rparr>) s)"

subsection \<open>Setting up and reclaiming\<close>

definition tcache_init_perthread :: "nat \<Rightarrow> 'b tcache \<Rightarrow> 'b tcache" where
  "tcache_init_perthread t s =
     upd_pt t (\<lambda>p. \<lparr>rounds = 0, capacity = mag_size s, loaded = 0, previous = 0\<rparr>) s"

text \<open>
  \<open>tcache_create\<close> sets the fields of a new cache over the memory, the handles and the backend
  that exist; \<open>ok\<close> is whether its \<open>malloc\<close> succeeds.
\<close>

definition tcache_create :: "bool \<Rightarrow> nat \<Rightarrow> 'b tcache \<Rightarrow> 'b tcache option" where
  "tcache_create ok msize s =
     (if \<not> ok then None
      else Some (s\<lparr>mags_allocated := 0, mag_size := msize, shared_mags := 0\<rparr>))"

text \<open>
  \<open>tcache_reclaim\<close> walks the magazines taken from the pool. \<open>None\<close> is running out of fuel; a
  pool of \<open>n\<close> magazines needs \<open>n + 1\<close> rounds.
\<close>

fun reclaim_loop :: "nat \<Rightarrow> 'b free_op \<Rightarrow> addr \<Rightarrow> 'b tcache \<Rightarrow> 'b tcache exec option" where
  "reclaim_loop 0 fr hdr s = None"
| "reclaim_loop (Suc n) fr hdr s =
     (if hdr = 0 then Some (Inr s)
      else let nxt = next_mag s hdr
           in case tcache_free_mag fr hdr s of
                Inl e \<Rightarrow> Some (Inl e)
              | Inr s \<Rightarrow> reclaim_loop n fr nxt s)"

definition tcache_reclaim :: "nat \<Rightarrow> 'b free_op \<Rightarrow> 'b tcache \<Rightarrow> 'b tcache exec option" where
  "tcache_reclaim fuel fr s =
     (let hdr = shared_mags s in reclaim_loop fuel fr hdr (s\<lparr>shared_mags := 0\<rparr>))"

text \<open>The bytes that \<open>tcache_print_usage\<close> reports for a cache.\<close>

definition tcache_usage :: "nat \<Rightarrow> 'b tcache \<Rightarrow> int" where
  "tcache_usage item_size s = int (mag_size s) * int item_size * mags_allocated s"

subsection \<open>Who holds an item\<close>

datatype place = In_backend | In_use | Loaded nat | Previous nat | Shared

fun mag :: "(addr \<Rightarrow> addr) \<Rightarrow> addr \<Rightarrow> addr list \<Rightarrow> bool" where
  "mag m p [] \<longleftrightarrow> p = 0"
| "mag m p (x # xs) \<longleftrightarrow> p = x \<and> x \<noteq> 0 \<and> mag m (m x) xs"

fun pool :: "(addr \<Rightarrow> addr) \<Rightarrow> (addr \<Rightarrow> addr) \<Rightarrow> addr \<Rightarrow> addr list list \<Rightarrow> bool" where
  "pool ni nm p [] \<longleftrightarrow> p = 0"
| "pool ni nm p (xs # xss) \<longleftrightarrow> xs \<noteq> [] \<and> mag ni p xs \<and> pool ni nm (nm p) xss"

text \<open>
  \<open>own\<close> says where each item is. The chains of a handle hold the items it owns, each
  once; full magazines have the size of the cache; the backend knows which items are out.
\<close>

definition handle_ok :: "'b tcache \<Rightarrow> (addr \<Rightarrow> place) \<Rightarrow> nat \<Rightarrow> bool" where
  "handle_ok s own t \<longleftrightarrow>
     (\<exists>ls ps. mag (next_item s) (loaded (pts s t)) ls \<and> mag (next_item s) (previous (pts s t)) ps \<and>
        distinct ls \<and> set ls = {x. own x = Loaded t} \<and> distinct ps \<and> set ps = {x. own x = Previous t} \<and>
        capacity (pts s t) = mag_size s \<and> rounds (pts s t) = length ls \<and> length ls \<le> mag_size s \<and>
        (ps = [] \<or> length ps = mag_size s))"

definition shared_ok :: "'b tcache \<Rightarrow> (addr \<Rightarrow> place) \<Rightarrow> bool" where
  "shared_ok s own \<longleftrightarrow>
     (\<exists>xss. pool (next_item s) (next_mag s) (shared_mags s) xss \<and> distinct (concat xss) \<and>
        set (concat xss) = {x. own x = Shared} \<and> (\<forall>xs \<in> set xss. length xs = mag_size s))"

definition taken :: "(addr \<Rightarrow> place) \<Rightarrow> addr set" where
  "taken own = {x. own x \<noteq> In_backend}"

definition counts_ok :: "'b tcache \<Rightarrow> (addr \<Rightarrow> place) \<Rightarrow> bool" where
  "counts_ok s own \<longleftrightarrow>
     0 < mag_size s \<and> mag_size s \<le> TCACHE_MAX_MAG_SIZE \<and> own 0 = In_backend \<and> finite (taken own) \<and>
     int (card (taken own)) = mags_allocated s * int (mag_size s)"

text \<open>
  A configuration is the cache, the threads that attached a handle and the items in use.
  Threads attach, allocate, free what is in use, and anyone may reclaim the shared pool.
\<close>

inductive tc_step ::
  "'b alloc_op \<Rightarrow> 'b free_op \<Rightarrow> 'b tcache \<times> nat set \<times> addr set \<Rightarrow> 'b tcache \<times> nat set \<times> addr set \<Rightarrow> bool"
  for al :: "'b alloc_op" and fr :: "'b free_op" where
  attach: "t \<notin> A \<Longrightarrow> tc_step al fr (s, A, U) (tcache_init_perthread t s, insert t A, U)"
| alloc: "t \<in> A \<Longrightarrow> tcache_alloc al t s = Inr (x, s') \<Longrightarrow>
    tc_step al fr (s, A, U) (s', A, if x = 0 then U else insert x U)"
| free: "t \<in> A \<Longrightarrow> x \<in> U \<Longrightarrow> tc_step al fr (s, A, U) (tcache_free t x s, A, U - {x})"
| reclaim: "tcache_reclaim fuel fr s = Some (Inr s') \<Longrightarrow> tc_step al fr (s, A, U) (s', A, U)"

subsection \<open>Chains of items\<close>

lemma mag_cong: "(\<And>x. x \<in> set xs \<Longrightarrow> m x = m' x) \<Longrightarrow> mag m p xs = mag m' p xs"
  by (induction xs arbitrary: p) auto

lemma mag_upd [simp]: "y \<notin> set xs \<Longrightarrow> mag (m(y := v)) p xs = mag m p xs"
  by (rule mag_cong) auto

lemma mag_0 [simp]: "mag m 0 xs \<longleftrightarrow> xs = []"
  by (cases xs) auto

lemma mag_nonzero: "mag m p xs \<Longrightarrow> p \<noteq> 0 \<longleftrightarrow> xs \<noteq> []"
  by (cases xs) auto

lemma pool_cong:
  "(\<forall>x \<in> set (concat xss). ni x = ni' x \<and> nm x = nm' x) \<Longrightarrow>
   pool ni nm p xss = pool ni' nm' p xss"
proof (induction xss arbitrary: p)
  case (Cons xs xss)
  have m: "mag ni p xs = mag ni' p xs"
    using Cons.prems by (intro mag_cong) simp
  have IH: "pool ni nm q xss = pool ni' nm' q xss" for q
    using Cons.prems by (intro Cons.IH) simp
  have "nm p = nm' p" if "xs \<noteq> []" "mag ni' p xs"
  proof -
    have "p \<in> set xs" using that by (cases xs) auto
    then show ?thesis using Cons.prems by simp
  qed
  then show ?case using m IH by (cases "xs = []"; cases "mag ni' p xs") simp_all
qed simp

lemma link_items_other: "y \<notin> set xs \<Longrightarrow> link_items xs m y = m y"
  by (induction xs m rule: link_items.induct) auto

lemma mag_link_items:
  "distinct (x # xs) \<Longrightarrow> 0 \<notin> set (x # xs) \<Longrightarrow> mag (link_items (x # xs) m) x (x # xs)"
proof (induction xs arbitrary: x m)
  case (Cons y ys)
  have "link_items (x # y # ys) m x = y"
    using Cons.prems by (simp add: link_items_other)
  moreover have "mag (link_items (y # ys) (m(x := y))) y (y # ys)"
    using Cons.prems by (intro Cons.IH) auto
  ultimately show ?case using Cons.prems by simp
qed simp

lemma collect_items_mag:
  "mag m p xs \<Longrightarrow> xs \<noteq> [] \<Longrightarrow> length xs \<le> n \<Longrightarrow> collect_items n m p = Inr xs"
proof (induction n arbitrary: p xs)
  case (Suc n)
  then obtain x ys where xs: "xs = x # ys" by (cases xs) auto
  show ?case
  proof (cases "ys = []")
    case True
    then show ?thesis using Suc.prems xs by (simp add: deref_def)
  next
    case False
    then have "collect_items n m (m x) = Inr ys"
      using Suc.prems xs by (intro Suc.IH) auto
    moreover have "m x \<noteq> 0"
      using False Suc.prems xs by (cases ys) auto
    ultimately show ?thesis using Suc.prems xs by (simp add: deref_def)
  qed
qed simp

subsection \<open>The invariant\<close>

text \<open>What \<open>handle_ok\<close> and \<open>shared_ok\<close> depend on.\<close>

lemma handle_ok_frame:
  assumes "handle_ok s own t" "pts s' t = pts s t" "mag_size s' = mag_size s"
    and "\<And>x. own x = Loaded t \<or> own x = Previous t \<Longrightarrow> next_item s' x = next_item s x"
    and "\<And>x. own' x = Loaded t \<longleftrightarrow> own x = Loaded t" "\<And>x. own' x = Previous t \<longleftrightarrow> own x = Previous t"
  shows "handle_ok s' own' t"
proof -
  obtain ls ps where h: "mag (next_item s) (loaded (pts s t)) ls" "mag (next_item s) (previous (pts s t)) ps"
    "distinct ls" "set ls = {x. own x = Loaded t}" "distinct ps" "set ps = {x. own x = Previous t}"
    "capacity (pts s t) = mag_size s" "rounds (pts s t) = length ls" "length ls \<le> mag_size s"
    "ps = [] \<or> length ps = mag_size s"
    using assms(1) unfolding handle_ok_def by blast
  have "mag (next_item s') (loaded (pts s t)) ls" "mag (next_item s') (previous (pts s t)) ps"
    using h(1,2,4,6) assms(4) mag_cong [of ls "next_item s'" "next_item s"]
      mag_cong [of ps "next_item s'" "next_item s"] by auto
  then show ?thesis
    unfolding handle_ok_def using h assms(2,3,5,6)
    by (intro exI [of _ ls] exI [of _ ps]) simp
qed

lemma shared_ok_frame:
  assumes "shared_ok s own" "shared_mags s' = shared_mags s" "mag_size s' = mag_size s"
    and "\<And>x. own x = Shared \<Longrightarrow> next_item s' x = next_item s x \<and> next_mag s' x = next_mag s x"
    and "\<And>x. own' x = Shared \<longleftrightarrow> own x = Shared"
  shows "shared_ok s' own'"
proof -
  obtain xss where h: "pool (next_item s) (next_mag s) (shared_mags s) xss" "distinct (concat xss)"
    "set (concat xss) = {x. own x = Shared}" "\<forall>xs \<in> set xss. length xs = mag_size s"
    using assms(1) unfolding shared_ok_def by blast
  have "next_item s' x = next_item s x \<and> next_mag s' x = next_mag s x" if "x \<in> set (concat xss)" for x
    using that h(3) assms(4) by blast
  then have "pool (next_item s') (next_mag s') (shared_mags s) xss"
    using h(1) pool_cong [of xss "next_item s'" "next_item s" "next_mag s'" "next_mag s"] by simp
  then show ?thesis
    unfolding shared_ok_def using h assms(2,3,5) by (intro exI [of _ xss]) simp
qed

text \<open>A handle whose lists are known.\<close>

lemma handle_okI:
  assumes "mag (next_item s) (loaded (pts s t)) ls" "mag (next_item s) (previous (pts s t)) ps"
    "distinct ls" "set ls = {x. own x = Loaded t}" "distinct ps" "set ps = {x. own x = Previous t}"
    "capacity (pts s t) = mag_size s" "rounds (pts s t) = length ls" "length ls \<le> mag_size s"
    "ps = [] \<or> length ps = mag_size s"
  shows "handle_ok s own t"
  using assms unfolding handle_ok_def by blast

lemma handle_okE:
  assumes "handle_ok s own t"
  obtains ls ps where "mag (next_item s) (loaded (pts s t)) ls" "mag (next_item s) (previous (pts s t)) ps"
    "distinct ls" "set ls = {x. own x = Loaded t}" "distinct ps" "set ps = {x. own x = Previous t}"
    "capacity (pts s t) = mag_size s" "rounds (pts s t) = length ls" "length ls \<le> mag_size s"
    "ps = [] \<or> length ps = mag_size s"
  using assms unfolding handle_ok_def by blast

lemma upd_pt_sel [simp]:
  "pts (upd_pt t f s) u = (if u = t then f (pts s t) else pts s u)"
  "next_item (upd_pt t f s) = next_item s" "next_mag (upd_pt t f s) = next_mag s"
  "mag_size (upd_pt t f s) = mag_size s" "shared_mags (upd_pt t f s) = shared_mags s"
  "mags_allocated (upd_pt t f s) = mags_allocated s" "backend (upd_pt t f s) = backend s"
  by (simp_all add: upd_pt_def)

lemma perthread_commute [simp]:
  "p\<lparr>previous := a, loaded := b\<rparr> = p\<lparr>loaded := b, previous := a\<rparr>" for p :: tcache_perthread
  by (cases p) simp

definition tc_own :: "('b \<Rightarrow> addr set \<Rightarrow> bool) \<Rightarrow> 'b tcache \<Rightarrow> nat set \<Rightarrow> (addr \<Rightarrow> place) \<Rightarrow> bool" where
  "tc_own binv s A own \<longleftrightarrow>
     (\<forall>t \<in> A. handle_ok s own t) \<and> (\<forall>t x. t \<notin> A \<longrightarrow> own x \<noteq> Loaded t \<and> own x \<noteq> Previous t) \<and>
     shared_ok s own \<and> counts_ok s own \<and> binv (backend s) (taken own)"

definition tc_inv :: "('b \<Rightarrow> addr set \<Rightarrow> bool) \<Rightarrow> 'b tcache \<Rightarrow> nat set \<Rightarrow> addr set \<Rightarrow> bool" where
  "tc_inv binv s A U \<longleftrightarrow> (\<exists>own. tc_own binv s A own \<and> U = {x. own x = In_use})"

text \<open>
  A step of one handle that leaves the counts and the backend alone: it changes who holds some
  of the items, none of them another handle's.
\<close>

lemma tc_own_local:
  assumes "tc_own binv s A own" "handle_ok s' own' t" "shared_ok s' own'" "t \<in> A"
    and "\<And>u. u \<noteq> t \<Longrightarrow> pts s' u = pts s u"
    and "mag_size s' = mag_size s" "mags_allocated s' = mags_allocated s" "backend s' = backend s"
    and "\<And>u x. u \<noteq> t \<Longrightarrow> own x = Loaded u \<or> own x = Previous u \<Longrightarrow> next_item s' x = next_item s x"
    and "\<And>u x. u \<noteq> t \<Longrightarrow> own' x = Loaded u \<longleftrightarrow> own x = Loaded u"
    and "\<And>u x. u \<noteq> t \<Longrightarrow> own' x = Previous u \<longleftrightarrow> own x = Previous u"
    and tk: "\<And>x. own' x = In_backend \<longleftrightarrow> own x = In_backend"
  shows "tc_own binv s' A own'"
proof -
  have "handle_ok s' own' u" if "u \<in> A" for u
  proof (cases "u = t")
    case False
    have "handle_ok s own u" using assms(1) that by (simp add: tc_own_def)
    then show ?thesis
      by (rule handle_ok_frame) (use False assms(5,6,9-11) in \<open>simp_all\<close>)
  qed (simp add: assms(2))
  moreover have "own' x \<noteq> Loaded u \<and> own' x \<noteq> Previous u" if "u \<notin> A" for u x
  proof -
    have "u \<noteq> t" using that assms(4) by blast
    moreover have "own x \<noteq> Loaded u \<and> own x \<noteq> Previous u"
      using that assms(1) unfolding tc_own_def by blast
    ultimately show ?thesis using assms(10,11) by simp
  qed
  moreover have "taken own' = taken own" using tk by (simp add: taken_def)
  moreover have "counts_ok s' own'"
    using assms(1,6,7) tk \<open>taken own' = taken own\<close> by (simp add: tc_own_def counts_ok_def)
  ultimately show ?thesis using assms(1,3,8) by (simp add: tc_own_def)
qed

text \<open>Items of a chain in use become the loaded magazine of a handle that had none.\<close>

lemma reload_own:
  assumes inv: "tc_own binv s A own" and t: "t \<in> A" and none: "\<And>y. own y \<noteq> Loaded t"
    and ch: "mag (next_item s) p (x # xs)" "distinct (x # xs)" "length (x # xs) = mag_size s"
    and use: "\<And>y. y \<in> set (x # xs) \<Longrightarrow> own y = In_use"
  shows "\<exists>s'. reload t (upd_pt t (\<lambda>q. q\<lparr>loaded := p\<rparr>) s) = Inr (x, s') \<and>
    tc_own binv s' A (\<lambda>y. if y \<in> set xs then Loaded t else own y)"
proof -
  define s' where "s' = upd_pt t (\<lambda>q. q\<lparr>rounds := capacity q - 1, loaded := next_item s x\<rparr>) s"
  define own' where "own' = (\<lambda>y. if y \<in> set xs then Loaded t else own y)"
  have "handle_ok s own t" using inv t by (simp add: tc_own_def)
  then obtain ls ps where h: "mag (next_item s) (previous (pts s t)) ps" "distinct ps"
    "set ps = {y. own y = Previous t}" "capacity (pts s t) = mag_size s" "ps = [] \<or> length ps = mag_size s"
    by (rule handle_okE) blast
  have "reload t (upd_pt t (\<lambda>q. q\<lparr>loaded := p\<rparr>) s) = Inr (x, s')"
    using ch(1) by (simp add: reload_def Let_def deref_def s'_def upd_pt_def)
  moreover have "tc_own binv s' A own'"
  proof (rule tc_own_local [OF inv _ _ t])
    show "handle_ok s' own' t"
      by (rule handle_okI [of _ _ xs ps])
        (use ch h none use in \<open>auto simp: s'_def own'_def\<close>)
    have "shared_ok s own" using inv by (simp add: tc_own_def)
    then show "shared_ok s' own'"
      by (rule shared_ok_frame) (use use in \<open>auto simp: s'_def own'_def\<close>)
  qed (use use in \<open>auto simp: s'_def own'_def\<close>)
  ultimately show ?thesis unfolding own'_def by blast
qed

text \<open>Taking the previous magazine of a handle, or the first one of the pool.\<close>

lemma previous_own:
  assumes inv: "tc_own binv s A own" and t: "t \<in> A" and prv: "previous (pts s t) \<noteq> 0"
  shows "\<exists>xs. mag (next_item s) (previous (pts s t)) xs \<and> distinct xs \<and> length xs = mag_size s \<and>
    set xs = {y. own y = Previous t} \<and>
    tc_own binv (upd_pt t (\<lambda>q. q\<lparr>previous := 0\<rparr>) s) A (\<lambda>y. if own y = Previous t then In_use else own y)"
proof -
  define s' where "s' = upd_pt t (\<lambda>q. q\<lparr>previous := 0\<rparr>) s"
  define own' where "own' = (\<lambda>y. if own y = Previous t then In_use else own y)"
  have "handle_ok s own t" using inv t by (simp add: tc_own_def)
  then obtain ls ps where h: "mag (next_item s) (loaded (pts s t)) ls" "mag (next_item s) (previous (pts s t)) ps"
    "distinct ls" "set ls = {x. own x = Loaded t}" "distinct ps" "set ps = {x. own x = Previous t}"
    "capacity (pts s t) = mag_size s" "rounds (pts s t) = length ls" "length ls \<le> mag_size s"
    "ps = [] \<or> length ps = mag_size s"
    by (rule handle_okE)
  have "length ps = mag_size s" using h(2,10) prv by auto
  moreover have "tc_own binv s' A own'"
  proof (rule tc_own_local [OF inv _ _ t])
    show "handle_ok s' own' t"
      by (rule handle_okI [of _ _ ls "[]"]) (use h in \<open>auto simp: s'_def own'_def\<close>)
    have "shared_ok s own" using inv by (simp add: tc_own_def)
    then show "shared_ok s' own'"
      by (rule shared_ok_frame) (auto simp: s'_def own'_def)
  qed (auto simp: s'_def own'_def)
  ultimately show ?thesis using h(2,5,6) unfolding s'_def own'_def by blast
qed

lemma shared_own:
  assumes inv: "tc_own binv s A own" and t: "t \<in> A" and sh: "shared_mags s \<noteq> 0"
  shows "\<exists>xs. mag (next_item s) (shared_mags s) xs \<and> distinct xs \<and> length xs = mag_size s \<and>
    (\<forall>y \<in> set xs. own y = Shared) \<and>
    tc_own binv (s\<lparr>shared_mags := next_mag s (shared_mags s)\<rparr>) A (\<lambda>y. if y \<in> set xs then In_use else own y)"
proof -
  obtain xss where x: "pool (next_item s) (next_mag s) (shared_mags s) xss" "distinct (concat xss)"
    "set (concat xss) = {x. own x = Shared}" "\<forall>xs \<in> set xss. length xs = mag_size s"
    using inv unfolding tc_own_def shared_ok_def by blast
  then obtain xs yss where e: "xss = xs # yss" using sh by (cases xss) auto
  define s' where "s' = s\<lparr>shared_mags := next_mag s (shared_mags s)\<rparr>"
  define own' where "own' = (\<lambda>y. if y \<in> set xs then In_use else own y)"
  have own: "own y = Shared" if "y \<in> set xs" for y using that x(3) e by auto
  have "set (concat yss) = {y. own' y = Shared}"
  proof -
    have "set xs \<inter> set (concat yss) = {}" using x(2) e by simp
    moreover have "set xs \<union> set (concat yss) = {y. own y = Shared}" using x(3) e by simp
    ultimately show ?thesis unfolding own'_def by auto
  qed
  then have "shared_ok s' own'"
    unfolding shared_ok_def using x e by (intro exI [of _ yss]) (simp add: s'_def)
  moreover have "handle_ok s' own' t"
  proof -
    have "handle_ok s own t" using inv t by (simp add: tc_own_def)
    then show ?thesis by (rule handle_ok_frame) (use own in \<open>auto simp: s'_def own'_def\<close>)
  qed
  ultimately have "tc_own binv s' A own'"
    by (intro tc_own_local [OF inv _ _ t]) (use own in \<open>auto simp: s'_def own'_def\<close>)
  then show ?thesis using x e own unfolding s'_def own'_def by (intro exI [of _ xs]) simp
qed

text \<open>An item in use goes to the loaded magazine; a full one moves to \<open>previous\<close>, a full
  previous one to the pool.\<close>

lemma free_fast_own:
  assumes inv: "tc_own binv s A own" and t: "t \<in> A" and x: "own x = In_use"
    and h: "mag (next_item s) (loaded (pts s t)) ls" "mag (next_item s) (previous (pts s t)) ps"
      "distinct ls" "set ls = {x. own x = Loaded t}" "distinct ps" "set ps = {x. own x = Previous t}"
      "capacity (pts s t) = mag_size s" "rounds (pts s t) = length ls" "length ls \<le> mag_size s"
      "ps = [] \<or> length ps = mag_size s"
    and fast: "length ls < mag_size s"
  shows "\<exists>own'. tc_own binv (tcache_free t x s) A own' \<and> {y. own' y = In_use} = {y. own y = In_use} - {x}"
proof -
  have pos: "0 < mag_size s" and "own 0 = In_backend"
    using inv by (auto simp: tc_own_def counts_ok_def)
  then have x0: "x \<noteq> 0" using x by (metis place.distinct(1))
  have sh: "shared_ok s own" using inv by (simp add: tc_own_def)
  have xn: "x \<notin> set ls" "x \<notin> set ps" using x h(4,6) by auto
  define own' where "own' = own(x := Loaded t)"
  have "tc_own binv (tcache_free t x s) A own'"
  proof (rule tc_own_local [OF inv _ _ t])
    show "handle_ok (tcache_free t x s) own' t"
      by (rule handle_okI [of _ _ "x # ls" ps])
        (use h fast x x0 xn in \<open>auto simp: tcache_free_def own'_def\<close>)
    show "shared_ok (tcache_free t x s) own'"
      by (rule shared_ok_frame [OF sh]) (use h fast x in \<open>auto simp: tcache_free_def own'_def\<close>)
  qed (use h fast x in \<open>auto simp: tcache_free_def own'_def\<close>)
  then show ?thesis by (intro exI [of _ own']) (auto simp: own'_def)
qed

lemma free_first_own:
  assumes inv: "tc_own binv s A own" and t: "t \<in> A" and x: "own x = In_use"
    and h: "mag (next_item s) (loaded (pts s t)) ls" "mag (next_item s) (previous (pts s t)) ps"
      "distinct ls" "set ls = {x. own x = Loaded t}" "distinct ps" "set ps = {x. own x = Previous t}"
      "capacity (pts s t) = mag_size s" "rounds (pts s t) = length ls" "length ls \<le> mag_size s"
      "ps = [] \<or> length ps = mag_size s"
    and first: "length ls = mag_size s" "ps = []"
  shows "\<exists>own'. tc_own binv (tcache_free t x s) A own' \<and> {y. own' y = In_use} = {y. own y = In_use} - {x}"
proof -
  have pos: "0 < mag_size s" and "own 0 = In_backend"
    using inv by (auto simp: tc_own_def counts_ok_def)
  then have x0: "x \<noteq> 0" using x by (metis place.distinct(1))
  have sh: "shared_ok s own" using inv by (simp add: tc_own_def)
  have xn: "x \<notin> set ls" "x \<notin> set ps" using x h(4,6) by auto
  have p0: "previous (pts s t) = 0" using first h(2) by simp
  define own' where "own' = (\<lambda>y. if y = x then Loaded t else if own y = Loaded t then Previous t else own y)"
  have "tc_own binv (tcache_free t x s) A own'"
  proof (rule tc_own_local [OF inv _ _ t])
    show "handle_ok (tcache_free t x s) own' t"
      by (rule handle_okI [of _ _ "[x]" ls])
        (use h first x x0 xn pos p0 in \<open>auto simp: tcache_free_def tcache_free_slow_def own'_def\<close>)
    show "shared_ok (tcache_free t x s) own'"
      by (rule shared_ok_frame [OF sh])
        (use h first x p0 in \<open>auto simp: tcache_free_def tcache_free_slow_def own'_def\<close>)
  qed (use h first x p0 in \<open>auto simp: tcache_free_def tcache_free_slow_def own'_def\<close>)
  then show ?thesis by (intro exI [of _ own']) (auto simp: own'_def)
qed

lemma free_full_own:
  assumes inv: "tc_own binv s A own" and t: "t \<in> A" and x: "own x = In_use"
    and h: "mag (next_item s) (loaded (pts s t)) ls" "mag (next_item s) (previous (pts s t)) ps"
      "distinct ls" "set ls = {x. own x = Loaded t}" "distinct ps" "set ps = {x. own x = Previous t}"
      "capacity (pts s t) = mag_size s" "rounds (pts s t) = length ls" "length ls \<le> mag_size s"
      "ps = [] \<or> length ps = mag_size s"
    and full: "length ls = mag_size s" "ps \<noteq> []"
  shows "\<exists>own'. tc_own binv (tcache_free t x s) A own' \<and> {y. own' y = In_use} = {y. own y = In_use} - {x}"
proof -
  have pos: "0 < mag_size s" and "own 0 = In_backend"
    using inv by (auto simp: tc_own_def counts_ok_def)
  then have x0: "x \<noteq> 0" using x by (metis place.distinct(1))
  have sh: "shared_ok s own" using inv by (simp add: tc_own_def)
  have xn: "x \<notin> set ls" "x \<notin> set ps" using x h(4,6) by auto
  define q where "q = previous (pts s t)"
  have q0: "q \<noteq> 0" using full mag_nonzero [OF h(2)] unfolding q_def by blast
  have q: "q \<in> set ps" using full h(2) q0 by (cases ps) (auto simp: q_def)
  define own' where "own' = (\<lambda>y. if y = x then Loaded t else if own y = Loaded t then Previous t
    else if own y = Previous t then Shared else own y)"
  obtain xss where p: "pool (next_item s) (next_mag s) (shared_mags s) xss" "distinct (concat xss)"
    "set (concat xss) = {x. own x = Shared}" "\<forall>xs \<in> set xss. length xs = mag_size s"
    using sh unfolding shared_ok_def by blast
  have nq: "q \<notin> set (concat xss)" "x \<notin> set (concat xss)"
    using q h(6) p(3) x by auto
  have s': "next_item (tcache_free t x s) = (next_item s)(x := 0)"
    "next_mag (tcache_free t x s) = (next_mag s)(q := shared_mags s)"
    "shared_mags (tcache_free t x s) = q" "mag_size (tcache_free t x s) = mag_size s"
    "mags_allocated (tcache_free t x s) = mags_allocated s" "backend (tcache_free t x s) = backend s"
    "pts (tcache_free t x s) u = (if u = t then (pts s t)\<lparr>previous := loaded (pts s t), rounds := 1, loaded := x\<rparr>
       else pts s u)" for u
    using h full q0 by (simp_all add: tcache_free_def tcache_free_slow_def q_def Let_def)
  have "tc_own binv (tcache_free t x s) A own'"
  proof (rule tc_own_local [OF inv _ _ t])
    show "handle_ok (tcache_free t x s) own' t"
      by (rule handle_okI [of _ _ "[x]" ls]) (use h full x x0 xn pos in \<open>auto simp: s' own'_def\<close>)
    have "pool ((next_item s)(x := 0)) ((next_mag s)(q := shared_mags s)) r xss =
        pool (next_item s) (next_mag s) r xss" for r
      by (rule pool_cong) (use nq in auto)
    then show "shared_ok (tcache_free t x s) own'"
      unfolding shared_ok_def
      by (intro exI [of _ "ps # xss"]) (use h full x xn p q_def nq in \<open>auto simp: s' own'_def\<close>)
  qed (use x in \<open>auto simp: s' own'_def\<close>)
  then show ?thesis by (intro exI [of _ own']) (auto simp: own'_def)
qed

lemma tcache_free_own:
  assumes inv: "tc_own binv s A own" and t: "t \<in> A" and x: "own x = In_use"
  shows "\<exists>own'. tc_own binv (tcache_free t x s) A own' \<and> {y. own' y = In_use} = {y. own y = In_use} - {x}"
proof -
  have "handle_ok s own t" using inv t by (simp add: tc_own_def)
  then obtain ls ps where h: "mag (next_item s) (loaded (pts s t)) ls" "mag (next_item s) (previous (pts s t)) ps"
    "distinct ls" "set ls = {x. own x = Loaded t}" "distinct ps" "set ps = {x. own x = Previous t}"
    "capacity (pts s t) = mag_size s" "rounds (pts s t) = length ls" "length ls \<le> mag_size s"
    "ps = [] \<or> length ps = mag_size s"
    by (rule handle_okE)
  have "length ls < mag_size s \<or> length ls = mag_size s" using h(9) by linarith
  then show ?thesis
    using free_fast_own [OF inv t x h] free_first_own [OF inv t x h] free_full_own [OF inv t x h]
    by blast
qed

text \<open>The fast path of \<open>tcache_alloc\<close> takes the first item of the loaded magazine.\<close>

lemma tcache_alloc_fast_own:
  assumes inv: "tc_own binv s A own" and t: "t \<in> A" and r: "rounds (pts s t) \<noteq> 0"
  shows "\<exists>x s'. tcache_alloc al t s = Inr (x, s') \<and> own x = Loaded t \<and> tc_own binv s' A (own(x := In_use))"
proof -
  have "handle_ok s own t" using inv t by (simp add: tc_own_def)
  then obtain ls ps where h: "mag (next_item s) (loaded (pts s t)) ls" "mag (next_item s) (previous (pts s t)) ps"
    "distinct ls" "set ls = {x. own x = Loaded t}" "distinct ps" "set ps = {x. own x = Previous t}"
    "capacity (pts s t) = mag_size s" "rounds (pts s t) = length ls" "length ls \<le> mag_size s"
    "ps = [] \<or> length ps = mag_size s"
    by (rule handle_okE)
  then obtain x xs where e: "ls = x # xs" using r by (cases ls) auto
  define s' where "s' = upd_pt t (\<lambda>p. p\<lparr>rounds := rounds p - 1, loaded := next_item s x\<rparr>) s"
  have x: "own x = Loaded t" using h(4) e by auto
  have "tcache_alloc al t s = Inr (x, s')"
    using h(1) r e by (simp add: tcache_alloc_def deref_def s'_def Let_def)
  moreover have "tc_own binv s' A (own(x := In_use))"
  proof (rule tc_own_local [OF inv _ _ t])
    show "handle_ok s' (own(x := In_use)) t"
      by (rule handle_okI [of _ _ xs ps]) (use h e x in \<open>auto simp: s'_def\<close>)
    have "shared_ok s own" using inv by (simp add: tc_own_def)
    then show "shared_ok s' (own(x := In_use))"
      by (rule shared_ok_frame) (use x in \<open>auto simp: s'_def\<close>)
  qed (use x in \<open>auto simp: s'_def\<close>)
  ultimately show ?thesis using x by blast
qed

lemma tcache_init_own:
  assumes inv: "tc_own binv s A own" and t: "t \<notin> A"
  shows "tc_own binv (tcache_init_perthread t s) (insert t A) own"
proof -
  have none: "own x \<noteq> Loaded t \<and> own x \<noteq> Previous t" for x using inv t by (simp add: tc_own_def)
  have "handle_ok (tcache_init_perthread t s) own u" if "u \<in> A" for u
  proof -
    have "handle_ok s own u" using inv that by (simp add: tc_own_def)
    then show ?thesis
      by (rule handle_ok_frame) (use that t in \<open>auto simp: tcache_init_perthread_def\<close>)
  qed
  moreover have "handle_ok (tcache_init_perthread t s) own t"
    by (rule handle_okI [of _ _ "[]" "[]"]) (use none in \<open>auto simp: tcache_init_perthread_def\<close>)
  ultimately show ?thesis
    using inv by (simp add: tc_own_def shared_ok_def counts_ok_def tcache_init_perthread_def)
qed

lemma reclaim_loop_fuel: "reclaim_loop n fr p s = Some r \<Longrightarrow> n \<le> m \<Longrightarrow> reclaim_loop m fr p s = Some r"
proof (induction n arbitrary: m p s)
  case (Suc n)
  then obtain k where "m = Suc k" "n \<le> k" by (cases m) auto
  then show ?case using Suc.prems(1) Suc.IH by (auto simp: Let_def split: if_splits sum.splits)
qed simp

subsection \<open>The contract of a backend\<close>

text \<open>
  \<open>binv b O\<close> says that the backend is in state \<open>b\<close> and the items of \<open>O\<close> are out. Allocation
  gives fresh items or none at all; items that are out can be given back.
\<close>

locale item_backend =
  fixes al :: "'b alloc_op" and fr :: "'b free_op" and binv :: "'b \<Rightarrow> addr set \<Rightarrow> bool"
  assumes alloc_returns: "binv b X \<Longrightarrow> 0 < n \<Longrightarrow> \<exists>r. al n b = Inr r"
    and alloc_fresh: "binv b X \<Longrightarrow> al n b = Inr (Some xs, b') \<Longrightarrow>
      length xs = n \<and> distinct xs \<and> 0 \<notin> set xs \<and> set xs \<inter> X = {} \<and> binv b' (X \<union> set xs)"
    and alloc_none: "binv b X \<Longrightarrow> al n b = Inr (None, b') \<Longrightarrow> binv b' X"
    and free_back: "binv b X \<Longrightarrow> distinct xs \<Longrightarrow> set xs \<subseteq> X \<Longrightarrow> \<exists>b'. fr xs b = Inr b' \<and> binv b' (X - set xs)"
begin

lemma alloc_mag_none:
  assumes inv: "tc_own binv s A own" and a: "al (mag_size s) (backend s) = Inr (None, b)"
  shows "tcache_alloc_mag al s = Inr (0, s\<lparr>backend := b\<rparr>) \<and> tc_own binv (s\<lparr>backend := b\<rparr>) A own"
proof -
  have "binv b (taken own)" using inv alloc_none [OF _ a] by (simp add: tc_own_def)
  moreover have "handle_ok (s\<lparr>backend := b\<rparr>) own t" if "t \<in> A" for t
    using inv that unfolding tc_own_def handle_ok_def by simp
  ultimately show ?thesis
    using inv a by (simp add: tcache_alloc_mag_def tc_own_def shared_ok_def counts_ok_def)
qed

lemma alloc_mag_some:
  assumes inv: "tc_own binv s A own" and a: "al (mag_size s) (backend s) = Inr (Some ys, b)"
  shows "\<exists>x xs s'. ys = x # xs \<and> tcache_alloc_mag al s = Inr (x, s') \<and> mag (next_item s') x (x # xs) \<and>
    distinct (x # xs) \<and> length (x # xs) = mag_size s' \<and> pts s' = pts s \<and>
    (\<forall>y \<in> set (x # xs). own y = In_backend) \<and>
    tc_own binv s' A (\<lambda>y. if y \<in> set (x # xs) then In_use else own y)"
proof -
  have b: "binv (backend s) (taken own)" and c: "counts_ok s own" using inv by (simp_all add: tc_own_def)
  have f: "length ys = mag_size s" "distinct ys" "0 \<notin> set ys" "set ys \<inter> taken own = {}"
    "binv b (taken own \<union> set ys)"
    using alloc_fresh [OF b a] by auto
  then obtain x xs where e: "ys = x # xs" using c by (cases ys) (auto simp: counts_ok_def)
  define s' where "s' = s\<lparr>backend := b, next_item := link_items ys (next_item s),
    mags_allocated := mags_allocated s + 1\<rparr>"
  define own' where "own' = (\<lambda>y. if y \<in> set ys then In_use else own y)"
  have bk: "own y = In_backend" if "y \<in> set ys" for y using f(4) that by (auto simp: taken_def)
  have other: "link_items ys m y = m y" if "own y \<noteq> In_backend" for m y
    using bk that link_items_other by metis
  have tk: "taken own' = taken own \<union> set ys" by (auto simp: taken_def own'_def)
  have "handle_ok s' own' t" if "t \<in> A" for t
  proof -
    have "handle_ok s own t" using inv that by (simp add: tc_own_def)
    then show ?thesis by (rule handle_ok_frame) (use other bk in \<open>auto simp: s'_def own'_def\<close>)
  qed
  moreover have "shared_ok s' own'"
  proof -
    have "shared_ok s own" using inv by (simp add: tc_own_def)
    then show ?thesis by (rule shared_ok_frame) (use other bk in \<open>auto simp: s'_def own'_def\<close>)
  qed
  moreover have "counts_ok s' own'"
  proof -
    have "card (taken own \<union> set ys) = card (taken own) + mag_size s"
      using f(1,2,4) c by (subst card_Un_disjoint) (auto simp: counts_ok_def distinct_card)
    then show ?thesis
      using c f(3) tk by (auto simp: counts_ok_def s'_def own'_def algebra_simps)
  qed
  moreover have "own' y \<noteq> Loaded t \<and> own' y \<noteq> Previous t" if "t \<notin> A" for t y
    using inv that by (simp add: tc_own_def own'_def)
  moreover have "binv (backend s') (taken own')" using f(5) tk by (simp add: s'_def)
  ultimately have "tc_own binv s' A own'" unfolding tc_own_def by blast
  moreover have "tcache_alloc_mag al s = Inr (x, s')"
    using a e by (simp add: tcache_alloc_mag_def s'_def)
  moreover have "mag (next_item s') x (x # xs)"
    using mag_link_items [of x xs] f(2,3) e by (simp add: s'_def)
  ultimately show ?thesis
    using e f(1,2) bk unfolding own'_def by (intro exI [of _ x] exI [of _ xs] exI [of _ s']) (simp add: s'_def)
qed

definition alloc_result ::
  "'b tcache \<Rightarrow> nat set \<Rightarrow> (addr \<Rightarrow> place) \<Rightarrow> (addr \<times> 'b tcache) exec \<Rightarrow> bool" where
  "alloc_result s A own r \<longleftrightarrow>
     (\<exists>x s' own'. r = Inr (x, s') \<and> tc_own binv s' A own' \<and>
       (if x = 0 then {y. own' y = In_use} = {y. own y = In_use} \<and> (\<exists>b. al (mag_size s) (backend s) = Inr (None, b))
        else own x \<noteq> In_use \<and> {y. own' y = In_use} = insert x {y. own y = In_use}))"

lemma alloc_resultI:
  assumes "r = Inr (x, s')" "tc_own binv s' A own'" "x \<noteq> 0" "own x \<noteq> In_use"
    "{y. own' y = In_use} = insert x {y. own y = In_use}"
  shows "alloc_result s A own r"
  using assms unfolding alloc_result_def by auto

lemma alloc_previous:
  assumes inv: "tc_own binv s A own" and t: "t \<in> A" and prev: "previous (pts s t) \<noteq> 0"
    and none: "\<And>y. own y \<noteq> Loaded t"
  shows "alloc_result s A own (tcache_alloc_slow al t s)"
proof -
  have pos: "0 < mag_size s" using inv by (simp add: tc_own_def counts_ok_def)
  obtain ys where y: "mag (next_item s) (previous (pts s t)) ys" "distinct ys" "length ys = mag_size s"
    "set ys = {y. own y = Previous t}"
    "tc_own binv (upd_pt t (\<lambda>q. q\<lparr>previous := 0\<rparr>) s) A (\<lambda>y. if own y = Previous t then In_use else own y)"
    using previous_own [OF inv t prev] by blast
  then obtain x xs where e: "ys = x # xs" using pos by (cases ys) auto
  have "\<exists>s'. reload t (upd_pt t (\<lambda>q. q\<lparr>loaded := previous (pts s t)\<rparr>) (upd_pt t (\<lambda>q. q\<lparr>previous := 0\<rparr>) s)) = Inr (x, s') \<and>
    tc_own binv s' A (\<lambda>y. if y \<in> set xs then Loaded t else if own y = Previous t then In_use else own y)"
    by (rule reload_own [OF y(5) t]) (use y e none in auto)
  moreover have "upd_pt t (\<lambda>q. q\<lparr>loaded := previous (pts s t)\<rparr>) (upd_pt t (\<lambda>q. q\<lparr>previous := 0\<rparr>) s) =
    upd_pt t (\<lambda>q. q\<lparr>loaded := previous q, previous := 0\<rparr>) s" by (simp add: upd_pt_def)
  ultimately obtain s' where r: "tcache_alloc_slow al t s = Inr (x, s')"
    "tc_own binv s' A (\<lambda>y. if y \<in> set xs then Loaded t else if own y = Previous t then In_use else own y)"
    using prev by (auto simp: tcache_alloc_slow_def)
  have x: "own x = Previous t" "x \<noteq> 0" "x \<notin> set xs" and xs: "set xs \<union> {x} = {y. own y = Previous t}"
    using y e by auto
  show ?thesis by (rule alloc_resultI [OF r]) (use x xs in auto)
qed

lemma alloc_shared:
  assumes inv: "tc_own binv s A own" and t: "t \<in> A" and shared: "previous (pts s t) = 0" "shared_mags s \<noteq> 0"
    and none: "\<And>y. own y \<noteq> Loaded t"
  shows "alloc_result s A own (tcache_alloc_slow al t s)"
proof -
  have pos: "0 < mag_size s" using inv by (simp add: tc_own_def counts_ok_def)
  obtain ys where y: "mag (next_item s) (shared_mags s) ys" "distinct ys" "length ys = mag_size s"
    "\<forall>y \<in> set ys. own y = Shared"
    "tc_own binv (s\<lparr>shared_mags := next_mag s (shared_mags s)\<rparr>) A (\<lambda>y. if y \<in> set ys then In_use else own y)"
    using shared_own [OF inv t shared(2)] by blast
  then obtain x xs where e: "ys = x # xs" using pos by (cases ys) auto
  have "\<exists>s'. reload t (upd_pt t (\<lambda>q. q\<lparr>loaded := shared_mags s\<rparr>) (s\<lparr>shared_mags := next_mag s (shared_mags s)\<rparr>)) = Inr (x, s') \<and>
    tc_own binv s' A (\<lambda>y. if y \<in> set xs then Loaded t else if y \<in> set ys then In_use else own y)"
    by (rule reload_own [OF y(5) t]) (use y e none in auto)
  moreover have "upd_pt t (\<lambda>q. q\<lparr>loaded := shared_mags s\<rparr>) (s\<lparr>shared_mags := next_mag s (shared_mags s)\<rparr>) =
    (upd_pt t (\<lambda>q. q\<lparr>loaded := shared_mags s\<rparr>) s)\<lparr>shared_mags := next_mag s (shared_mags s)\<rparr>"
    by (simp add: upd_pt_def)
  ultimately obtain s' where r: "tcache_alloc_slow al t s = Inr (x, s')"
    "tc_own binv s' A (\<lambda>y. if y \<in> set xs then Loaded t else if y \<in> set ys then In_use else own y)"
    using shared by (auto simp: tcache_alloc_slow_def Let_def)
  have x: "own x = Shared" "x \<noteq> 0" "x \<notin> set xs" and xs: "\<forall>y \<in> set xs. own y = Shared"
    using y e by auto
  show ?thesis by (rule alloc_resultI [OF r]) (use x xs e in auto)
qed

lemma alloc_new:
  assumes inv: "tc_own binv s A own" and t: "t \<in> A" and fresh: "previous (pts s t) = 0" "shared_mags s = 0"
    and l0: "loaded (pts s t) = 0" and none: "\<And>y. own y \<noteq> Loaded t"
  shows "alloc_result s A own (tcache_alloc_slow al t s)"
proof -
  have pos: "0 < mag_size s" and b: "binv (backend s) (taken own)"
    using inv by (simp_all add: tc_own_def counts_ok_def)
  have p0: "(pts s t)\<lparr>loaded := 0\<rparr> = pts s t" using l0 by simp
  then have s0: "upd_pt t (\<lambda>q. q\<lparr>loaded := 0\<rparr>) s = s" by (simp add: upd_pt_def)
  obtain v b' where v: "al (mag_size s) (backend s) = Inr (v, b')"
    using alloc_returns [OF b pos] by (metis surj_pair)
  show ?thesis
  proof (cases v)
    case None
    define s' where "s' = upd_pt t (\<lambda>q. q\<lparr>loaded := 0\<rparr>) (s\<lparr>backend := b'\<rparr>)"
    have "s' = s\<lparr>backend := b'\<rparr>" using p0 by (simp add: s'_def upd_pt_def)
    then show ?thesis
      using alloc_mag_none [OF inv, of b'] v None fresh s0 unfolding alloc_result_def
      by (intro exI [of _ 0] exI [of _ s'] exI [of _ own])
        (simp add: tcache_alloc_slow_def Let_def s'_def)
  next
    case (Some ys)
    obtain x xs s1 where m: "ys = x # xs" "tcache_alloc_mag al s = Inr (x, s1)" "mag (next_item s1) x (x # xs)"
      "distinct (x # xs)" "length (x # xs) = mag_size s1" "pts s1 = pts s"
      "\<forall>y \<in> set (x # xs). own y = In_backend"
      "tc_own binv s1 A (\<lambda>y. if y \<in> set (x # xs) then In_use else own y)"
      using alloc_mag_some [OF inv v [unfolded Some]] by blast
    have "\<exists>s'. reload t (upd_pt t (\<lambda>q. q\<lparr>loaded := x\<rparr>) s1) = Inr (x, s') \<and>
      tc_own binv s' A (\<lambda>y. if y \<in> set xs then Loaded t else if y \<in> set (x # xs) then In_use else own y)"
      by (rule reload_own [OF m(8) t]) (use m none in auto)
    then obtain s' where r: "tcache_alloc_slow al t s = Inr (x, s')"
      "tc_own binv s' A (\<lambda>y. if y \<in> set xs then Loaded t else if y \<in> set (x # xs) then In_use else own y)"
      using fresh s0 m(2,3) by (auto simp: tcache_alloc_slow_def Let_def)
    have x: "own x = In_backend" "x \<noteq> 0" "x \<notin> set xs" and xs: "\<forall>y \<in> set xs. own y = In_backend"
      using m by auto
    show ?thesis by (rule alloc_resultI [OF r]) (use x xs in auto)
  qed
qed

lemma tcache_alloc_own:
  assumes inv: "tc_own binv s A own" and t: "t \<in> A"
  shows "alloc_result s A own (tcache_alloc al t s)"
proof (cases "rounds (pts s t) = 0")
  case False
  then obtain x s' where a: "tcache_alloc al t s = Inr (x, s')" "tc_own binv s' A (own(x := In_use))" "own x = Loaded t"
    using tcache_alloc_fast_own [OF inv t] by blast
  have "own 0 = In_backend" using inv by (simp add: tc_own_def counts_ok_def)
  then have "x \<noteq> 0" using a(3) by (metis place.distinct(3))
  show ?thesis by (rule alloc_resultI [OF a(1,2)]) (use a(3) \<open>x \<noteq> 0\<close> in auto)
next
  case True
  have "handle_ok s own t" using inv t by (simp add: tc_own_def)
  then have l0: "loaded (pts s t) = 0" and none: "own y \<noteq> Loaded t" for y
    using True unfolding handle_ok_def by auto
  have "alloc_result s A own (tcache_alloc_slow al t s)"
    using alloc_previous [OF inv t _ none] alloc_shared [OF inv t _ _ none] alloc_new [OF inv t _ _ l0 none]
    by blast
  then show ?thesis using True by (simp add: tcache_alloc_def)
qed

text \<open>Reclaiming: the magazines taken from the pool go back to the backend.\<close>

lemma free_mag_own:
  assumes inv: "tc_own binv s A own" and m: "mag (next_item s) p xs" "distinct xs" "length xs = mag_size s"
    and use: "\<And>y. y \<in> set xs \<Longrightarrow> own y = In_use"
  shows "\<exists>s'. tcache_free_mag fr p s = Inr s' \<and> next_item s' = next_item s \<and> next_mag s' = next_mag s \<and>
    mag_size s' = mag_size s \<and> tc_own binv s' A (\<lambda>y. if y \<in> set xs then In_backend else own y)"
proof -
  define own' where "own' = (\<lambda>y. if y \<in> set xs then In_backend else own y)"
  have b: "binv (backend s) (taken own)" and c: "counts_ok s own" using inv by (simp_all add: tc_own_def)
  have sub: "set xs \<subseteq> taken own" using use by (auto simp: taken_def)
  obtain b' where f: "fr xs (backend s) = Inr b'" "binv b' (taken own - set xs)"
    using free_back [OF b m(2) sub] by blast
  have tk: "taken own' = taken own - set xs" by (auto simp: taken_def own'_def)
  define s' where "s' = s\<lparr>backend := b', mags_allocated := mags_allocated s - 1\<rparr>"
  have "collect_items TCACHE_MAX_MAG_SIZE (next_item s) p = Inr xs"
    using m c by (intro collect_items_mag) (auto simp: counts_ok_def)
  then have "tcache_free_mag fr p s = Inr s'" using f by (simp add: tcache_free_mag_def s'_def)
  moreover have "tc_own binv s' A own'"
  proof -
    have "handle_ok s' own' t" if "t \<in> A" for t
    proof -
      have "handle_ok s own t" using inv that by (simp add: tc_own_def)
      then show ?thesis by (rule handle_ok_frame) (use use in \<open>auto simp: s'_def own'_def\<close>)
    qed
    moreover have "shared_ok s own" using inv by (simp add: tc_own_def)
    then have "shared_ok s' own'"
      by (rule shared_ok_frame) (use use in \<open>auto simp: s'_def own'_def\<close>)
    moreover have "card (taken own - set xs) + mag_size s = card (taken own)"
      using sub c m(2,3) card_mono [OF _ sub]
      by (simp add: counts_ok_def card_Diff_subset distinct_card)
    then have "int (card (taken own)) = int (card (taken own - set xs)) + int (mag_size s)"
      by linarith
    then have "counts_ok s' own'"
      using c tk by (auto simp: counts_ok_def s'_def own'_def algebra_simps)
    moreover have "own' y \<noteq> Loaded t \<and> own' y \<noteq> Previous t" if "t \<notin> A" for t y
      using inv that by (simp add: tc_own_def own'_def)
    ultimately show ?thesis using f(2) tk unfolding tc_own_def by (simp add: s'_def)
  qed
  ultimately show ?thesis unfolding own'_def by (intro exI [of _ s']) (simp add: s'_def)
qed

lemma reclaim_loop_own:
  assumes "tc_own binv s A own" "pool (next_item s) (next_mag s) p xss" "distinct (concat xss)"
    and "\<forall>xs \<in> set xss. length xs = mag_size s" "\<forall>y \<in> set (concat xss). own y = In_use" "length xss < fuel"
  shows "\<exists>s'. reclaim_loop fuel fr p s = Some (Inr s') \<and>
    tc_own binv s' A (\<lambda>y. if y \<in> set (concat xss) then In_backend else own y)"
  using assms
proof (induction xss arbitrary: s p own fuel)
  case Nil
  then show ?case by (cases fuel) auto
next
  case (Cons xs xss)
  obtain n where n: "fuel = Suc n" using Cons.prems(6) by (cases fuel) auto
  have p0: "p \<noteq> 0" using Cons.prems(2) mag_nonzero by auto
  obtain s1 where s1: "tcache_free_mag fr p s = Inr s1" "next_item s1 = next_item s" "next_mag s1 = next_mag s"
    "mag_size s1 = mag_size s" "tc_own binv s1 A (\<lambda>y. if y \<in> set xs then In_backend else own y)"
    using free_mag_own [OF Cons.prems(1), of p xs] Cons.prems(2-5) by auto
  have "\<exists>s'. reclaim_loop n fr (next_mag s p) s1 = Some (Inr s') \<and>
    tc_own binv s' A (\<lambda>y. if y \<in> set (concat xss) then In_backend else if y \<in> set xs then In_backend else own y)"
    by (rule Cons.IH [OF s1(5)]) (use Cons.prems n s1 in auto)
  moreover have "(\<lambda>y. if y \<in> set (concat xss) then In_backend else if y \<in> set xs then In_backend else own y) =
    (\<lambda>y. if y \<in> set (concat (xs # xss)) then In_backend else own y)" by auto
  ultimately show ?case using n p0 s1(1) by (auto simp: Let_def)
qed

lemma tcache_reclaim_own:
  assumes inv: "tc_own binv s A own"
  shows "\<exists>n. \<forall>fuel > n. \<exists>s'. tcache_reclaim fuel fr s = Some (Inr s') \<and>
    tc_own binv s' A (\<lambda>y. if own y = Shared then In_backend else own y)"
proof -
  obtain xss where x: "pool (next_item s) (next_mag s) (shared_mags s) xss" "distinct (concat xss)"
    "set (concat xss) = {x. own x = Shared}" "\<forall>xs \<in> set xss. length xs = mag_size s"
    using inv unfolding tc_own_def shared_ok_def by blast
  define s0 where "s0 = s\<lparr>shared_mags := 0\<rparr>"
  define own0 where "own0 = (\<lambda>y. if own y = Shared then In_use else own y)"
  have h: "handle_ok s0 own0 t" if "t \<in> A" for t
  proof -
    have "handle_ok s own t" using inv that by (simp add: tc_own_def)
    then show ?thesis by (rule handle_ok_frame) (auto simp: s0_def own0_def)
  qed
  have "taken own0 = taken own" by (auto simp: taken_def own0_def)
  then have "counts_ok s0 own0" "binv (backend s0) (taken own0)"
    using inv by (auto simp: tc_own_def counts_ok_def s0_def own0_def)
  moreover have "shared_ok s0 own0"
    unfolding shared_ok_def by (intro exI [of _ "[]"]) (auto simp: s0_def own0_def)
  moreover have "own0 y \<noteq> Loaded t \<and> own0 y \<noteq> Previous t" if "t \<notin> A" for t y
    using inv that by (simp add: tc_own_def own0_def)
  ultimately have "tc_own binv s0 A own0" using h unfolding tc_own_def by blast
  then have "\<exists>s'. reclaim_loop fuel fr (shared_mags s) s0 = Some (Inr s') \<and>
    tc_own binv s' A (\<lambda>y. if y \<in> set (concat xss) then In_backend else own0 y)" if "length xss < fuel" for fuel
    by (rule reclaim_loop_own) (use x that in \<open>auto simp: s0_def own0_def\<close>)
  moreover have "(\<lambda>y. if y \<in> set (concat xss) then In_backend else own0 y) =
    (\<lambda>y. if own y = Shared then In_backend else own y)" using x(3) by (auto simp: own0_def)
  ultimately show ?thesis by (auto simp: tcache_reclaim_def Let_def s0_def)
qed

text \<open>Every step keeps the invariant.\<close>

lemma tc_inv_step:
  assumes "tc_step al fr c c'"
  shows "tc_inv binv (fst c) (fst (snd c)) (snd (snd c)) \<Longrightarrow> tc_inv binv (fst c') (fst (snd c')) (snd (snd c'))"
  using assms
proof cases
  case (attach t A s U)
  assume "tc_inv binv (fst c) (fst (snd c)) (snd (snd c))"
  then obtain own where o: "tc_own binv s A own" "U = {x. own x = In_use}"
    using attach by (auto simp: tc_inv_def)
  then show ?thesis using tcache_init_own [OF o(1) attach(3)] attach(2) by (auto simp: tc_inv_def)
next
  case (alloc t A s x s' U)
  assume "tc_inv binv (fst c) (fst (snd c)) (snd (snd c))"
  then obtain own where o: "tc_own binv s A own" "U = {x. own x = In_use}"
    using alloc by (auto simp: tc_inv_def)
  obtain own' where "tc_own binv s' A own'"
    "(if x = 0 then {y. own' y = In_use} = {y. own y = In_use}
      else {y. own' y = In_use} = insert x {y. own y = In_use})"
    using tcache_alloc_own [OF o(1) alloc(3)] alloc(4) unfolding alloc_result_def by (auto split: if_splits)
  then show ?thesis using alloc(2) o(2) by (auto simp: tc_inv_def split: if_splits)
next
  case (free t A x U s)
  assume "tc_inv binv (fst c) (fst (snd c)) (snd (snd c))"
  then obtain own where o: "tc_own binv s A own" "U = {x. own x = In_use}"
    using free by (auto simp: tc_inv_def)
  then show ?thesis
    using tcache_free_own [OF o(1) free(3), of x] free by (auto simp: tc_inv_def)
next
  case (reclaim fuel s s' A U)
  assume "tc_inv binv (fst c) (fst (snd c)) (snd (snd c))"
  then obtain own where o: "tc_own binv s A own" "U = {x. own x = In_use}"
    using reclaim by (auto simp: tc_inv_def)
  obtain n where n: "\<forall>fuel > n. \<exists>s'. tcache_reclaim fuel fr s = Some (Inr s') \<and>
    tc_own binv s' A (\<lambda>y. if own y = Shared then In_backend else own y)"
    using tcache_reclaim_own [OF o(1)] by blast
  have "n < Suc n + fuel" by simp
  with n obtain s2 where s2: "tcache_reclaim (Suc n + fuel) fr s = Some (Inr s2)"
    "tc_own binv s2 A (\<lambda>y. if own y = Shared then In_backend else own y)"
    by blast
  have "s2 = s'"
    using s2(1) reclaim(3) reclaim_loop_fuel [of fuel fr "shared_mags s" _ _ "Suc n + fuel"]
    by (auto simp: tcache_reclaim_def Let_def)
  then have "tc_own binv s' A (\<lambda>y. if own y = Shared then In_backend else own y)" using s2(2) by simp
  moreover have "{y. (if own y = Shared then In_backend else own y) = In_use} = U" using o(2) by auto
  ultimately show ?thesis using reclaim(2) unfolding tc_inv_def by auto
qed

lemma tc_inv_init:
  assumes "tcache_create True n s0 = Some s" "0 < n" "n \<le> TCACHE_MAX_MAG_SIZE" "binv (backend s0) {}"
  shows "tc_inv binv s {} {}"
proof -
  have "tc_own binv s {} (\<lambda>_. In_backend)"
    using assms by (auto simp: tcache_create_def tc_own_def shared_ok_def counts_ok_def taken_def intro: exI [of _ "[]"])
  then show ?thesis unfolding tc_inv_def by force
qed

lemma tc_inv_reach:
  assumes "tcache_create True n s0 = Some s" "0 < n" "n \<le> TCACHE_MAX_MAG_SIZE" "binv (backend s0) {}"
    and "(tc_step al fr)\<^sup>*\<^sup>* (s, {}, {}) c"
  shows "tc_inv binv (fst c) (fst (snd c)) (snd (snd c))"
  using assms(5)
  by (induction rule: rtranclp_induct) (use tc_inv_init [OF assms(1-4)] tc_inv_step in auto)

text \<open>What the invariant gives the users of the cache.\<close>

lemma tc_sound:
  assumes "tc_inv binv s A U"
  shows "\<exists>X. binv (backend s) X \<and> finite X \<and> U \<subseteq> X \<and> int (card X) = mags_allocated s * int (mag_size s)"
    and "t \<in> A \<Longrightarrow> rounds (pts s t) \<le> capacity (pts s t) \<and> (rounds (pts s t) = 0 \<longleftrightarrow> loaded (pts s t) = 0)"
    and "t \<in> A \<Longrightarrow> \<exists>x s'. tcache_alloc al t s = Inr (x, s') \<and> x \<notin> U \<and>
      (x = 0 \<longrightarrow> (\<exists>b. al (mag_size s) (backend s) = Inr (None, b)))"
    and "\<exists>n. \<forall>fuel > n. \<exists>s'. tcache_reclaim fuel fr s = Some (Inr s') \<and> tc_inv binv s' A U \<and> shared_mags s' = 0"
proof -
  obtain own where o: "tc_own binv s A own" "U = {x. own x = In_use}" using assms by (auto simp: tc_inv_def)
  show "\<exists>X. binv (backend s) X \<and> finite X \<and> U \<subseteq> X \<and> int (card X) = mags_allocated s * int (mag_size s)"
    using o by (intro exI [of _ "taken own"]) (auto simp: tc_own_def counts_ok_def taken_def)
  show "rounds (pts s t) \<le> capacity (pts s t) \<and> (rounds (pts s t) = 0 \<longleftrightarrow> loaded (pts s t) = 0)" if "t \<in> A"
  proof -
    have "handle_ok s own t" using o(1) that by (simp add: tc_own_def)
    then obtain ls ps where "mag (next_item s) (loaded (pts s t)) ls" "capacity (pts s t) = mag_size s"
      "rounds (pts s t) = length ls" "length ls \<le> mag_size s"
      by (rule handle_okE) blast
    then show ?thesis using mag_nonzero by force
  qed
  have "own 0 = In_backend" using o(1) by (simp add: tc_own_def counts_ok_def)
  then have "0 \<notin> U" using o(2) by simp
  then show "\<exists>x s'. tcache_alloc al t s = Inr (x, s') \<and> x \<notin> U \<and>
      (x = 0 \<longrightarrow> (\<exists>b. al (mag_size s) (backend s) = Inr (None, b)))" if "t \<in> A"
    using tcache_alloc_own [OF o(1) that] o(2) unfolding alloc_result_def by (auto split: if_splits)
  obtain n where n: "\<forall>fuel > n. \<exists>s'. tcache_reclaim fuel fr s = Some (Inr s') \<and>
    tc_own binv s' A (\<lambda>y. if own y = Shared then In_backend else own y)"
    using tcache_reclaim_own [OF o(1)] by blast
  have "tc_inv binv s' A U \<and> shared_mags s' = 0"
    if t: "tc_own binv s' A (\<lambda>y. if own y = Shared then In_backend else own y)" for s'
  proof
    show "tc_inv binv s' A U" unfolding tc_inv_def using t o(2)
      by (intro exI [of _ "\<lambda>y. if own y = Shared then In_backend else own y"]) auto
    define own' where "own' = (\<lambda>y. if own y = Shared then In_backend else own y)"
    have e: "{y. own' y = Shared} = {}" by (auto simp: own'_def)
    have "shared_ok s' own'" using t by (simp add: tc_own_def own'_def)
    then obtain xss where x: "pool (next_item s') (next_mag s') (shared_mags s') xss" "set (concat xss) = {}"
      unfolding shared_ok_def e by blast
    then show "shared_mags s' = 0" by (cases xss) auto
  qed
  then show "\<exists>n. \<forall>fuel > n. \<exists>s'. tcache_reclaim fuel fr s = Some (Inr s') \<and> tc_inv binv s' A U \<and> shared_mags s' = 0"
    using n by (intro exI [of _ n]) blast
qed

end

end
