(* ===== verification/Mempool.thy ===== *)
theory Mempool
  imports Stddef Tcache
begin

text \<open>
  The preallocated pools of \<open>inc/base/mempool.h\<close> and \<open>base/mempool.c\<close>, and the thread caches on
  top of them. The array of free items is a list; the slots below \<open>allocated\<close> are stale.
  The build without \<open>DEBUG\<close> is modelled; \<open>mempool_common_check\<close> is what the debug build checks.
\<close>

record mempool =
  free_items :: "addr list"
  allocated :: nat
  mcapacity :: nat
  buf :: u64
  len :: u64
  pgsize :: u64
  item_len :: u64

definition mempool_alloc :: "mempool \<Rightarrow> (addr \<times> mempool) exec" where
  "mempool_alloc m =
     (if allocated m \<ge> mcapacity m then Inr (0, m)
      else if allocated m < length (free_items m)
      then Inr (free_items m ! allocated m, m\<lparr>allocated := allocated m + 1\<rparr>)
      else Inl Out_of_bounds)"

definition mempool_free :: "addr \<Rightarrow> mempool \<Rightarrow> mempool exec" where
  "mempool_free item m =
     (if allocated m = 0 \<or> length (free_items m) < allocated m then Inl Out_of_bounds
      else Inr (m\<lparr>allocated := allocated m - 1,
                  free_items := (free_items m)[allocated m - 1 := item]\<rparr>))"

definition mempool_common_check :: "mempool \<Rightarrow> addr \<Rightarrow> bool" where
  "mempool_common_check m item \<longleftrightarrow>
     item \<ge> unat (buf m) \<and> item < unat (buf m + len m) \<and> (buf m AND (pgsize m - 1)) mod item_len m = 0"

subsection \<open>Creating a pool\<close>

definition pool_addr :: "u64 \<Rightarrow> u64 \<Rightarrow> u64 \<Rightarrow> nat \<Rightarrow> nat \<Rightarrow> addr" where
  "pool_addr b pgs il i j = unat (b + pgs * of_nat i + il * of_nat j)"

definition pool_addrs :: "u64 \<Rightarrow> u64 \<Rightarrow> u64 \<Rightarrow> u64 \<Rightarrow> addr list" where
  "pool_addrs b l pgs il =
     concat (map (\<lambda>i. map (pool_addr b pgs il i) [0..<unat (pgs div il)]) [0..<unat (l div pgs)])"

fun populate_loop :: "addr list \<Rightarrow> mempool \<Rightarrow> mempool exec" where
  "populate_loop [] m = Inr m"
| "populate_loop (a # as) m =
     (if mcapacity m < length (free_items m)
      then populate_loop as (m\<lparr>free_items := (free_items m)[mcapacity m := a], mcapacity := mcapacity m + 1\<rparr>)
      else Inl Out_of_bounds)"

datatype errno = EINVAL | ENOMEM

definition mempool_populate :: "bool \<Rightarrow> mempool \<Rightarrow> (errno + mempool) exec" where
  "mempool_populate calloc_ok m =
     (let items_per_page = pgsize m div item_len m; nr_pages = len m div pgsize m
      in if \<not> calloc_ok then Inr (Inl ENOMEM)
         else bind_exec
           (populate_loop (pool_addrs (buf m) (len m) (pgsize m) (item_len m))
             (m\<lparr>free_items := replicate (unat (nr_pages * items_per_page)) 0\<rparr>))
           (\<lambda>m. Inr (Inr m)))"

text \<open>\<open>m\<close> is the structure as the caller passes it: only some of its fields are set here.\<close>

definition mempool_create ::
  "bool \<Rightarrow> mempool \<Rightarrow> u64 \<Rightarrow> u64 \<Rightarrow> u64 \<Rightarrow> u64 \<Rightarrow> (errno + mempool) exec" where
  "mempool_create calloc_ok m b l pgs il =
     (if il = 0 \<or> \<not> is_power_of_two pgs \<or> l mod pgs \<noteq> 0 then Inr (Inl EINVAL)
      else mempool_populate calloc_ok
             (m\<lparr>allocated := 0, buf := b, len := l, pgsize := pgs, item_len := il\<rparr>))"

subsection \<open>The backend of a thread cache\<close>

fun mempool_tcache_free :: "addr list \<Rightarrow> mempool \<Rightarrow> mempool exec" where
  "mempool_tcache_free [] m = Inr m"
| "mempool_tcache_free (x # xs) m = bind_exec (mempool_free x m) (mempool_tcache_free xs)"

text \<open>The loop of \<open>mempool_tcache_alloc\<close>, with the items it has so far.\<close>

fun mempool_alloc_loop :: "nat \<Rightarrow> addr list \<Rightarrow> mempool \<Rightarrow> (addr list option \<times> mempool) exec" where
  "mempool_alloc_loop 0 items m = Inr (Some items, m)"
| "mempool_alloc_loop (Suc n) items m =
     bind_exec (mempool_alloc m) (\<lambda>(item, m).
       if item = 0 then bind_exec (mempool_tcache_free items m) (\<lambda>m. Inr (None, m))
       else mempool_alloc_loop n (items @ [item]) m)"

definition mempool_tcache_alloc :: "nat \<Rightarrow> mempool \<Rightarrow> (addr list option \<times> mempool) exec" where
  "mempool_tcache_alloc nr m = mempool_alloc_loop nr [] m"

text \<open>\<open>s\<close> holds the memory and the handles; the two flags are whether the allocations succeed.\<close>

definition mempool_create_tcache ::
  "bool \<Rightarrow> bool \<Rightarrow> mempool \<Rightarrow> nat \<Rightarrow> mempool tcache \<Rightarrow> mempool tcache option" where
  "mempool_create_tcache mptc_ok tc_ok m msize s =
     (if \<not> mptc_ok then None else tcache_create tc_ok msize (s\<lparr>backend := m\<rparr>))"

subsection \<open>Pools are backends\<close>

text \<open>\<open>P\<close> are the items of the pool, \<open>X\<close> those that are out.\<close>

definition mempool_inv :: "addr set \<Rightarrow> mempool \<Rightarrow> addr set \<Rightarrow> bool" where
  "mempool_inv P m X \<longleftrightarrow>
     length (free_items m) = mcapacity m \<and> allocated m \<le> mcapacity m \<and>
     distinct (drop (allocated m) (free_items m)) \<and> 0 \<notin> P \<and>
     finite X \<and> card X = allocated m \<and> X \<inter> set (drop (allocated m) (free_items m)) = {} \<and>
     X \<union> set (drop (allocated m) (free_items m)) = P"

lemma mempool_free_inv:
  assumes "mempool_inv P m X" "x \<in> X"
  shows "\<exists>m'. mempool_free x m = Inr m' \<and> mempool_inv P m' (X - {x})"
proof -
  define n where "n = allocated m - 1"
  have pos: "0 < allocated m" using assms by (auto simp: mempool_inv_def card_gt_0_iff)
  then have n: "allocated m = Suc n" "n < length (free_items m)"
    using assms(1) by (auto simp: n_def mempool_inv_def)
  have d: "drop n ((free_items m)[n := x]) = x # drop (Suc n) (free_items m)"
    using n(2) by (simp add: Cons_nth_drop_Suc [symmetric])
  have "X - {x} \<union> set (x # drop (Suc n) (free_items m)) = P"
    using assms n(1) by (auto simp: mempool_inv_def)
  moreover have "x \<notin> set (drop (Suc n) (free_items m))" using assms n(1) by (auto simp: mempool_inv_def)
  moreover have "card (X - {x}) = n" using assms n(1) by (simp add: mempool_inv_def)
  ultimately show ?thesis
    using assms(1) pos n d unfolding mempool_free_def mempool_inv_def by auto
qed

lemma mempool_alloc_inv:
  assumes "mempool_inv P m X"
  shows "\<exists>x m'. mempool_alloc m = Inr (x, m') \<and>
    (if x = 0 then m' = m \<and> allocated m = mcapacity m
     else x \<in> P - X \<and> mempool_inv P m' (insert x X) \<and> mcapacity m' = mcapacity m \<and>
       allocated m' = Suc (allocated m))"
proof (cases "allocated m < mcapacity m")
  case True
  define x where "x = free_items m ! allocated m"
  have d: "drop (allocated m) (free_items m) = x # drop (Suc (allocated m)) (free_items m)"
    using assms True by (simp add: x_def mempool_inv_def Cons_nth_drop_Suc)
  have x: "x \<in> P" "x \<notin> X" using assms d by (auto simp: mempool_inv_def)
  then have "x \<noteq> 0" using assms by (auto simp: mempool_inv_def)
  moreover have "mempool_inv P (m\<lparr>allocated := allocated m + 1\<rparr>) (insert x X)"
    using assms True d x by (auto simp: mempool_inv_def)
  ultimately show ?thesis
    using assms True x by (simp add: mempool_alloc_def x_def mempool_inv_def)
qed (use assms in \<open>auto simp: mempool_alloc_def mempool_inv_def\<close>)

lemma mempool_tcache_free_inv:
  "mempool_inv P m X \<Longrightarrow> distinct xs \<Longrightarrow> set xs \<subseteq> X \<Longrightarrow>
   \<exists>m'. mempool_tcache_free xs m = Inr m' \<and> mempool_inv P m' (X - set xs)"
proof (induction xs arbitrary: m X)
  case (Cons x xs)
  obtain m1 where m1: "mempool_free x m = Inr m1" "mempool_inv P m1 (X - {x})"
    using mempool_free_inv Cons.prems by fastforce
  then obtain m' where "mempool_tcache_free xs m1 = Inr m'" "mempool_inv P m' (X - {x} - set xs)"
    using Cons.IH [of m1 "X - {x}"] Cons.prems by auto
  moreover have "X - {x} - set xs = X - set (x # xs)" by auto
  ultimately show ?case using m1(1) by simp
qed simp

lemma mempool_alloc_loop_inv:
  assumes "mempool_inv P m (X \<union> set items)" "distinct items" "set items \<inter> X = {}" "0 \<notin> set items"
  shows "\<exists>r m'. mempool_alloc_loop n items m = Inr (r, m') \<and>
    (case r of None \<Rightarrow> mempool_inv P m' X \<and> mcapacity m < allocated m + n
     | Some xs \<Rightarrow> length xs = length items + n \<and> distinct xs \<and> 0 \<notin> set xs \<and> set xs \<inter> X = {} \<and>
         mempool_inv P m' (X \<union> set xs) \<and> allocated m + n \<le> mcapacity m)"
  using assms
proof (induction n arbitrary: items m)
  case 0
  then show ?case by (simp add: mempool_inv_def)
next
  case (Suc n)
  obtain x m1 where a: "mempool_alloc m = Inr (x, m1)"
    "if x = 0 then m1 = m \<and> allocated m = mcapacity m
     else x \<in> P - (X \<union> set items) \<and> mempool_inv P m1 (insert x (X \<union> set items)) \<and>
       mcapacity m1 = mcapacity m \<and> allocated m1 = Suc (allocated m)"
    using mempool_alloc_inv [OF Suc.prems(1)] by blast
  show ?case
  proof (cases "x = 0")
    case True
    obtain m' where "mempool_tcache_free items m = Inr m'" "mempool_inv P m' (X \<union> set items - set items)"
      using mempool_tcache_free_inv [OF Suc.prems(1,2)] by auto
    moreover have "X \<union> set items - set items = X" using Suc.prems(3) by auto
    ultimately show ?thesis using True a by simp
  next
    case False
    then have "x \<notin> X" "x \<notin> set items" "mempool_inv P m1 (X \<union> set (items @ [x]))" using a by simp_all
    then obtain r m' where "mempool_alloc_loop n (items @ [x]) m1 = Inr (r, m')"
      "case r of None \<Rightarrow> mempool_inv P m' X \<and> mcapacity m1 < allocated m1 + n
       | Some xs \<Rightarrow> length xs = length (items @ [x]) + n \<and> distinct xs \<and> 0 \<notin> set xs \<and> set xs \<inter> X = {} \<and>
           mempool_inv P m' (X \<union> set xs) \<and> allocated m1 + n \<le> mcapacity m1"
      using Suc.IH [of m1 "items @ [x]"] Suc.prems False by auto
    then show ?thesis using False a by (auto split: option.splits)
  qed
qed

lemma mempool_tcache_alloc_inv:
  assumes "mempool_inv P m X"
  shows "\<exists>r m'. mempool_tcache_alloc n m = Inr (r, m') \<and>
    (case r of None \<Rightarrow> mempool_inv P m' X \<and> mcapacity m < allocated m + n
     | Some xs \<Rightarrow> length xs = n \<and> distinct xs \<and> 0 \<notin> set xs \<and> set xs \<inter> X = {} \<and>
         mempool_inv P m' (X \<union> set xs) \<and> allocated m + n \<le> mcapacity m)"
  using mempool_alloc_loop_inv [of P m X "[]" n] assms
  by (simp add: mempool_tcache_alloc_def cong: option.case_cong)

interpretation mp: item_backend mempool_tcache_alloc mempool_tcache_free "mempool_inv P" for P
proof unfold_locales
  show "\<exists>r. mempool_tcache_alloc n m = Inr r" if "mempool_inv P m X" for n m X
    using mempool_tcache_alloc_inv [OF that] by blast
  show "length xs = n \<and> distinct xs \<and> 0 \<notin> set xs \<and> set xs \<inter> X = {} \<and> mempool_inv P m' (X \<union> set xs)"
    if "mempool_inv P m X" "mempool_tcache_alloc n m = Inr (Some xs, m')" for n m m' X xs
    using mempool_tcache_alloc_inv [OF that(1), of n] that(2) by auto
  show "mempool_inv P m' X" if "mempool_inv P m X" "mempool_tcache_alloc n m = Inr (None, m')" for n m m' X
    using mempool_tcache_alloc_inv [OF that(1), of n] that(2) by auto
qed (rule mempool_tcache_free_inv)

subsection \<open>The items of a new pool\<close>

lemma pool_addr_eq:
  assumes "unat b + unat pgs * i + unat il * j < 2 ^ 64"
  shows "pool_addr b pgs il i j = unat b + unat pgs * i + unat il * j"
proof -
  have "b + pgs * of_nat i + il * of_nat j = (of_nat (unat b + unat pgs * i + unat il * j) :: u64)" by simp
  then show ?thesis unfolding pool_addr_def using assms by (simp only: unat_of_nat) simp
qed

text \<open>The facts about a page size and an item length that \<open>mempool_create\<close> accepts.\<close>

lemma grid_bounds:
  assumes "i < unat (l div pgs)" "j < unat (pgs div il)" "l mod pgs = 0"
  shows "unat il * j + unat il \<le> unat pgs" "unat pgs * i + unat pgs \<le> unat l"
proof -
  have "unat il * Suc j \<le> unat il * (unat pgs div unat il)"
    using assms(2) by (intro mult_le_mono) (auto simp: unat_div)
  then show "unat il * j + unat il \<le> unat pgs"
    by (metis add.commute mult_Suc_right order_trans times_div_less_eq_dividend)
  have "unat pgs * Suc i \<le> unat pgs * (unat l div unat pgs)"
    using assms(1) by (intro mult_le_mono) (auto simp: unat_div)
  then show "unat pgs * i + unat pgs \<le> unat l"
    by (metis add.commute mult_Suc_right order_trans times_div_less_eq_dividend)
qed

lemma pool_addr_grid:
  assumes "unat b + unat l < 2 ^ 64" "l mod pgs = 0" "i < unat (l div pgs)" "j < unat (pgs div il)"
  shows "pool_addr b pgs il i j = unat b + unat pgs * i + unat il * j"
  using pool_addr_eq [of b pgs i il j] grid_bounds [OF assms(3,4,2)] assms(1) by linarith

lemma set_pool_addrs:
  "set (pool_addrs b l pgs il) =
   {pool_addr b pgs il i j | i j. i < unat (l div pgs) \<and> j < unat (pgs div il)}"
  by (auto simp: pool_addrs_def) blast

lemma distinct_pool_addrs:
  assumes "unat b + unat l < 2 ^ 64" "l mod pgs = 0" "il \<noteq> 0"
  shows "distinct (pool_addrs b l pgs il)"
proof -
  define I J where "I = [0..<unat (l div pgs)]" and "J = [0..<unat (pgs div il)]"
  have q: "0 < unat il" using assms(3) by (simp add: unat_gt_0)
  have e: "pool_addrs b l pgs il = map (\<lambda>(i, j). pool_addr b pgs il i j) (List.product I J)"
    by (simp add: pool_addrs_def product_concat_map map_concat comp_def I_def J_def)
  have "inj_on (\<lambda>(i, j). pool_addr b pgs il i j) (set (List.product I J))"
  proof (rule inj_onI, clarsimp simp: I_def J_def)
    fix i j i' j'
    assume h: "i < unat (l div pgs)" "j < unat (pgs div il)" "i' < unat (l div pgs)" "j' < unat (pgs div il)"
      "pool_addr b pgs il i j = pool_addr b pgs il i' j'"
    have a: "unat pgs * i + unat il * j = unat pgs * i' + unat il * j'"
      using h pool_addr_grid [OF assms(1,2)] by simp
    have l: "unat il * j < unat pgs" "unat il * j' < unat pgs"
      using grid_bounds(1) [OF h(1,2) assms(2)] grid_bounds(1) [OF h(3,4) assms(2)] q by linarith+
    have "i = (unat pgs * i + unat il * j) div unat pgs" using l(1) by simp
    also have "\<dots> = i'" using l(2) a by simp
    finally show "i = i' \<and> j = j'" using a q by simp
  qed
  then show ?thesis by (simp add: e distinct_map distinct_product I_def J_def)
qed

lemma populate_loop_fills:
  "mcapacity m + length as \<le> length (free_items m) \<Longrightarrow>
   populate_loop as m = Inr (m\<lparr>free_items := take (mcapacity m) (free_items m) @ as @
       drop (mcapacity m + length as) (free_items m), mcapacity := mcapacity m + length as\<rparr>)"
proof (induction as arbitrary: m)
  case (Cons a as)
  define m1 where "m1 = m\<lparr>free_items := (free_items m)[mcapacity m := a], mcapacity := mcapacity m + 1\<rparr>"
  have "populate_loop (a # as) m = populate_loop as m1" using Cons.prems by (simp add: m1_def)
  also have "\<dots> = Inr (m1\<lparr>free_items := take (mcapacity m1) (free_items m1) @ as @
      drop (mcapacity m1 + length as) (free_items m1), mcapacity := mcapacity m1 + length as\<rparr>)"
    by (rule Cons.IH) (use Cons.prems in \<open>simp add: m1_def\<close>)
  also have "take (mcapacity m1) (free_items m1) = take (mcapacity m) (free_items m) @ [a]"
    using Cons.prems by (simp add: m1_def take_Suc_conv_app_nth)
  also have "drop (mcapacity m1 + length as) (free_items m1) = drop (mcapacity m + length (a # as)) (free_items m)"
    by (simp add: m1_def)
  finally show ?case by (simp add: m1_def)
qed simp

lemma length_pool_addrs: "length (pool_addrs b l pgs il) = unat (l div pgs) * unat (pgs div il)"
  by (simp add: pool_addrs_def length_concat comp_def sum_list_triv)

lemma nr_items:
  fixes l pgs il :: u64
  assumes "l mod pgs = 0"
  shows "unat ((l div pgs) * (pgs div il)) = unat (l div pgs) * unat (pgs div il)"
proof -
  have "unat (pgs div il) \<le> unat pgs" by (simp add: unat_div div_le_dividend)
  then have "unat (l div pgs) * unat (pgs div il) \<le> unat (l div pgs) * unat pgs" by (rule mult_le_mono2)
  also have "\<dots> \<le> unat l" by (simp only: unat_div) (metis times_div_less_eq_dividend mult.commute)
  also have "unat l < 2 ^ LENGTH(64)" using unsigned_less [of l, where ?'a = nat] by simp
  finally have "unat (l div pgs) * unat (pgs div il) < 2 ^ LENGTH(64)" .
  then show ?thesis by (simp add: unat_word_ariths)
qed

lemma mempool_create_inv:
  assumes "il \<noteq> 0" "is_power_of_two pgs" "l mod pgs = 0" "unat b + unat l < 2 ^ 64" "0 < b" "mcapacity m = 0"
  shows "\<exists>m'. mempool_create True m b l pgs il = Inr (Inr m') \<and> mempool_inv (set (pool_addrs b l pgs il)) m' {} \<and>
    allocated m' = 0 \<and> buf m' = b \<and> len m' = l \<and> pgsize m' = pgs \<and> item_len m' = il \<and>
    free_items m' = pool_addrs b l pgs il"
proof -
  have "0 \<notin> set (pool_addrs b l pgs il)"
    using assms pool_addr_grid [OF assms(4,3)] by (auto simp: set_pool_addrs word_less_nat_alt)
  then show ?thesis
    using assms distinct_pool_addrs [OF assms(4,3,1)]
    by (simp add: mempool_create_def mempool_populate_def nr_items populate_loop_fills length_pool_addrs
        mempool_inv_def)
qed

lemma pool_items_apart:
  assumes "unat b + unat l < 2 ^ 64" "l mod pgs = 0"
    and x: "x \<in> set (pool_addrs b l pgs il)" "y \<in> set (pool_addrs b l pgs il)" "x < y"
  shows "x + unat il \<le> y"
proof -
  obtain i j i' j' where h: "i < unat (l div pgs)" "j < unat (pgs div il)" "x = pool_addr b pgs il i j"
    "i' < unat (l div pgs)" "j' < unat (pgs div il)" "y = pool_addr b pgs il i' j'"
    using x(1,2) unfolding set_pool_addrs by blast
  have e: "x = unat b + unat pgs * i + unat il * j" "y = unat b + unat pgs * i' + unat il * j'"
    using h pool_addr_grid [OF assms(1,2)] by simp_all
  have bnd: "unat il * j + unat il \<le> unat pgs" "unat il * j' + unat il \<le> unat pgs"
    using grid_bounds(1) [OF h(1,2) assms(2)] grid_bounds(1) [OF h(4,5) assms(2)] by auto
  consider "i = i'" | "i < i'" | "i' < i" by linarith
  then show ?thesis
  proof cases
    case 1
    then have "Suc j \<le> j'" using e x(3) by simp
    then have "unat il * Suc j \<le> unat il * j'" by (rule mult_le_mono2)
    then show ?thesis using e 1 by simp
  next
    case 2
    then have "unat pgs * Suc i \<le> unat pgs * i'" by (intro mult_le_mono2) simp
    then show ?thesis using e bnd by simp
  next
    case 3
    then have "unat pgs * Suc i' \<le> unat pgs * i" by (intro mult_le_mono2) simp
    then show ?thesis using e bnd x(3) by simp
  qed
qed

lemma pool_items_inside:
  assumes "unat b + unat l < 2 ^ 64" "l mod pgs = 0" "il \<noteq> 0" and x: "x \<in> set (pool_addrs b l pgs il)"
  shows "unat b \<le> x" "x + unat il \<le> unat b + unat l" "(x - unat b) mod unat pgs + unat il \<le> unat pgs"
proof -
  obtain i j where h: "i < unat (l div pgs)" "j < unat (pgs div il)" "x = pool_addr b pgs il i j"
    using x unfolding set_pool_addrs by blast
  have e: "x = unat b + unat pgs * i + unat il * j" using h pool_addr_grid [OF assms(1,2)] by simp
  have bnd: "unat il * j + unat il \<le> unat pgs" "unat pgs * i + unat pgs \<le> unat l"
    using grid_bounds [OF h(1,2) assms(2)] by auto
  show "unat b \<le> x" "x + unat il \<le> unat b + unat l" using e bnd by simp_all
  have "0 < unat il" using assms(3) by (simp add: unat_gt_0)
  then have "(x - unat b) mod unat pgs = unat il * j" using e bnd(1) by simp
  then show "(x - unat b) mod unat pgs + unat il \<le> unat pgs" using bnd by simp
qed

subsection \<open>Properties\<close>




definition example_pool :: mempool where
  "example_pool = \<lparr>free_items = [], allocated = 7, mcapacity = 0, buf = 0, len = 0, pgsize = 0, item_len = 0\<rparr>"


text \<open>Two threads share a pool of four items through magazines of two.\<close>

definition example_created :: mempool where
  "example_created = example_pool\<lparr>allocated := 0, buf := 4096, len := 128, pgsize := 64, item_len := 24,
     free_items := [4096, 4120, 4160, 4184], mcapacity := 4\<rparr>"

definition example_tc0 :: "mempool tcache" where
  "example_tc0 = \<lparr>next_item = \<lambda>_. 9, next_mag = \<lambda>_. 9, mag_size = 0, shared_mags = 9, mags_allocated = 9,
     backend = example_pool, pts = \<lambda>_. \<lparr>rounds = 9, capacity = 9, loaded = 9, previous = 9\<rparr>\<rparr>"

definition example_tc1 :: "mempool tcache" where
  "example_tc1 = tcache_init_perthread 1 (example_tc0\<lparr>backend := example_created, mags_allocated := 0,
     mag_size := 2, shared_mags := 0\<rparr>)"

definition example_tc2 :: "mempool tcache" where
  "example_tc2 = (case tcache_alloc mempool_tcache_alloc 1 example_tc1 of Inr (x, s) \<Rightarrow> s | Inl _ \<Rightarrow> example_tc1)"

lemma example_created_eq: "mempool_create True example_pool 4096 128 64 24 = Inr (Inr example_created)"
proof -
  have "pool_addrs 4096 128 64 24 = [4096, 4120, 4160, 4184]"
    by (simp add: pool_addrs_def pool_addr_def upt_rec)
  moreover have "replicate 4 (0::nat) = [0, 0, 0, 0]" by (simp add: numeral_eq_Suc)
  ultimately show ?thesis
    by (simp add: mempool_create_def mempool_populate_def is_power_of_two_def example_pool_def example_created_def)
qed

lemma example_alloc: "tcache_alloc mempool_tcache_alloc 1 example_tc1 = Inr (4096, example_tc2)"
  by (simp add: example_tc2_def example_tc1_def example_tc0_def example_created_def example_pool_def
      tcache_init_perthread_def upd_pt_def tcache_alloc_def tcache_alloc_slow_def tcache_alloc_mag_def
      mempool_tcache_alloc_def mempool_alloc_def numeral_2_eq_2 reload_def deref_def Let_def)


end
