(* ===== verification/Stack.thy ===== *)
theory Stack
  imports Stddef Tcache
begin

text \<open>
  Thread stacks (\<open>runtime/stack.c\<close> and the stack functions of \<open>runtime/defs.h\<close>): the pool of
  stacks behind the thread cache, and the layout of a new stack.

  The pool keeps the results of the coming \<open>mmap\<close> and \<open>mprotect\<close> calls: the address, or
  \<open>None\<close> for \<open>MAP_FAILED\<close>, and whether \<open>mprotect\<close> succeeds. A stack is named by the address
  of its usable part, as in the cache. \<open>madvise\<close> only drops contents and is not modelled.
\<close>

definition RUNTIME_MAX_THREADS :: nat where
  "RUNTIME_MAX_THREADS = 100000"

definition RUNTIME_STACK_SIZE :: nat where
  "RUNTIME_STACK_SIZE = 256 * 1024"

definition RUNTIME_GUARD_SIZE :: nat where
  "RUNTIME_GUARD_SIZE = 256 * 1024"

definition TCACHE_DEFAULT_MAG_SIZE :: nat where
  "TCACHE_DEFAULT_MAG_SIZE = 32"

text \<open>\<open>struct stack\<close> is the guard followed by the usable part.\<close>

definition usable :: "addr \<Rightarrow> addr" where
  "usable s = s + RUNTIME_GUARD_SIZE"

definition stack_size :: nat where
  "stack_size = RUNTIME_GUARD_SIZE + RUNTIME_STACK_SIZE"

record stack_pool =
  free_stack_count :: nat
  free_stacks :: "nat \<Rightarrow> addr"
  maps :: "(addr option \<times> bool) list"

subsection \<open>The pool of stacks\<close>

definition stack_create :: "stack_pool \<Rightarrow> addr option \<times> stack_pool" where
  "stack_create p =
     (case maps p of
        [] \<Rightarrow> (None, p)
      | (None, _) # ms \<Rightarrow> (None, p\<lparr>maps := ms\<rparr>)
      | (Some s, False) # ms \<Rightarrow> (None, p\<lparr>maps := ms\<rparr>)
      | (Some s, True) # ms \<Rightarrow> (Some s, p\<lparr>maps := ms\<rparr>))"

fun free_loop :: "addr list \<Rightarrow> stack_pool \<Rightarrow> stack_pool exec" where
  "free_loop [] p = Inr p"
| "free_loop (x # xs) p =
     (if free_stack_count p < RUNTIME_MAX_THREADS
      then free_loop xs (p\<lparr>free_stacks := (free_stacks p)(free_stack_count p := x),
                           free_stack_count := free_stack_count p + 1\<rparr>)
      else Inl Out_of_bounds)"

definition stack_tcache_free :: "addr list \<Rightarrow> stack_pool \<Rightarrow> stack_pool exec" where
  "stack_tcache_free items p =
     bind_exec (free_loop items p) (\<lambda>p.
       if free_stack_count p \<ge> RUNTIME_MAX_THREADS + TCACHE_DEFAULT_MAG_SIZE then Inl Bug_on else Inr p)"

text \<open>The two loops of \<open>stack_tcache_alloc\<close>: reuse free stacks, then create new ones.\<close>

fun reuse_loop :: "nat \<Rightarrow> addr list \<Rightarrow> stack_pool \<Rightarrow> addr list \<times> nat \<times> stack_pool" where
  "reuse_loop 0 items p = (items, 0, p)"
| "reuse_loop (Suc n) items p =
     (if free_stack_count p = 0 then (items, Suc n, p)
      else let c = free_stack_count p - 1
           in reuse_loop n (items @ [free_stacks p c]) (p\<lparr>free_stack_count := c\<rparr>))"

fun create_loop :: "nat \<Rightarrow> addr list \<Rightarrow> stack_pool \<Rightarrow> (addr list option \<times> stack_pool) exec" where
  "create_loop 0 items p = Inr (Some items, p)"
| "create_loop (Suc n) items p =
     (case stack_create p of
        (None, p) \<Rightarrow> bind_exec (stack_tcache_free items p) (\<lambda>p. Inr (None, p))
      | (Some s, p) \<Rightarrow> create_loop n (items @ [usable s]) p)"

definition stack_tcache_alloc :: "nat \<Rightarrow> stack_pool \<Rightarrow> (addr list option \<times> stack_pool) exec" where
  "stack_tcache_alloc nr p = (case reuse_loop nr [] p of (items, n, p) \<Rightarrow> create_loop n items p)"

definition stack_init :: "bool \<Rightarrow> stack_pool tcache \<Rightarrow> stack_pool tcache option" where
  "stack_init ok s = tcache_create ok TCACHE_DEFAULT_MAG_SIZE s"

definition stack_init_thread :: "nat \<Rightarrow> stack_pool tcache \<Rightarrow> stack_pool tcache" where
  "stack_init_thread t s = tcache_init_perthread t s"

text \<open>\<open>stack_alloc\<close> and \<open>stack_free\<close> convert between a stack and its usable part.\<close>

definition stack_alloc :: "nat \<Rightarrow> stack_pool tcache \<Rightarrow> (addr option \<times> stack_pool tcache) exec" where
  "stack_alloc t s =
     bind_exec (tcache_alloc stack_tcache_alloc t s) (\<lambda>(x, s).
       Inr (if x = 0 then None else Some (x - RUNTIME_GUARD_SIZE), s))"

definition stack_free :: "nat \<Rightarrow> addr \<Rightarrow> stack_pool tcache \<Rightarrow> stack_pool tcache" where
  "stack_free t s tc = tcache_free t (usable s) tc"

subsection \<open>The layout of a new stack\<close>

definition STACK_PTR_SIZE :: u64 where
  "STACK_PTR_SIZE = of_nat (RUNTIME_STACK_SIZE div 8)"

definition RSP_ALIGNMENT :: u64 where
  "RSP_ALIGNMENT = 16"

text \<open>The address of \<open>usable[pos]\<close>.\<close>

definition slot_addr :: "u64 \<Rightarrow> u64 \<Rightarrow> u64" where
  "slot_addr s pos = s + of_nat RUNTIME_GUARD_SIZE + 8 * pos"

text \<open>The result is the stack pointer; the exit handler is stored in the slot it points to.\<close>

definition stack_init_to_rsp :: "u64 \<Rightarrow> u64" where
  "stack_init_to_rsp s = slot_addr s (STACK_PTR_SIZE - 1)"

text \<open>The buffer and the stack pointer.\<close>

definition stack_init_to_rsp_with_buf :: "u64 \<Rightarrow> u64 \<Rightarrow> u64 \<times> u64" where
  "stack_init_to_rsp_with_buf s buf_len =
     (let pos = STACK_PTR_SIZE - div_up buf_len 8;
          pos = align_down pos (RSP_ALIGNMENT div 8);
          b = slot_addr s pos;
          pos = pos - 1
      in (b, slot_addr s pos))"

definition assert_rsp_aligned :: "u64 \<Rightarrow> bool" where
  "assert_rsp_aligned rsp \<longleftrightarrow> rsp mod RSP_ALIGNMENT = 8"

subsection \<open>The pool is a backend\<close>

text \<open>The stacks that the coming calls will give.\<close>

fun coming :: "(addr option \<times> bool) list \<Rightarrow> addr list" where
  "coming [] = []"
| "coming ((Some s, True) # ms) = usable s # coming ms"
| "coming (_ # ms) = coming ms"

definition free_list :: "stack_pool \<Rightarrow> addr list" where
  "free_list p = map (free_stacks p) [0..<free_stack_count p]"

definition stack_inv :: "addr set \<Rightarrow> stack_pool \<Rightarrow> addr set \<Rightarrow> bool" where
  "stack_inv P p X \<longleftrightarrow>
     distinct (free_list p @ coming (maps p)) \<and> X \<inter> set (free_list p @ coming (maps p)) = {} \<and>
     X \<union> set (free_list p @ coming (maps p)) \<subseteq> P \<and> 0 \<notin> P \<and> finite X \<and>
     card X + free_stack_count p + length (coming (maps p)) \<le> RUNTIME_MAX_THREADS"

lemma length_free_list [simp]: "length (free_list p) = free_stack_count p"
  by (simp add: free_list_def)

lemma stack_create_cases:
  assumes "stack_create p = (r, p')"
  shows "free_list p' = free_list p" "free_stack_count p' = free_stack_count p"
    "coming (maps p) = (case r of None \<Rightarrow> [] | Some s \<Rightarrow> [usable s]) @ coming (maps p')"
  using assms unfolding stack_create_def free_list_def
  by (auto split: list.splits option.splits bool.splits)

text \<open>Freeing pushes the items on the array of free stacks.\<close>

lemma free_loop_pushes:
  "free_stack_count p + length xs \<le> RUNTIME_MAX_THREADS \<Longrightarrow>
   \<exists>p'. free_loop xs p = Inr p' \<and> free_list p' = free_list p @ xs \<and> maps p' = maps p"
proof (induction xs arbitrary: p)
  case (Cons x xs)
  define p1 where "p1 = p\<lparr>free_stacks := (free_stacks p)(free_stack_count p := x),
    free_stack_count := free_stack_count p + 1\<rparr>"
  have "free_list p1 = free_list p @ [x]" by (simp add: free_list_def p1_def)
  moreover have "free_stack_count p1 + length xs \<le> RUNTIME_MAX_THREADS" "maps p1 = maps p"
    using Cons.prems by (simp_all add: p1_def)
  moreover have "free_loop (x # xs) p = free_loop xs p1" using Cons.prems by (simp add: p1_def)
  ultimately show ?case using Cons.IH [of p1] by auto
qed simp

lemma stack_tcache_free_inv:
  assumes inv: "stack_inv P p X" and xs: "distinct xs" "set xs \<subseteq> X"
  shows "\<exists>p'. stack_tcache_free xs p = Inr p' \<and> stack_inv P p' (X - set xs)"
proof -
  have c: "card (X - set xs) + length xs = card X"
    using inv xs card_mono [OF _ xs(2)]
    by (simp add: stack_inv_def card_Diff_subset distinct_card)
  then have "free_stack_count p + length xs \<le> RUNTIME_MAX_THREADS" using inv by (simp add: stack_inv_def)
  then obtain p' where p: "free_loop xs p = Inr p'" "free_list p' = free_list p @ xs" "maps p' = maps p"
    using free_loop_pushes by blast
  have n: "free_stack_count p' = free_stack_count p + length xs"
    using p(2) length_free_list [of p'] by simp
  have "free_stack_count p' \<le> RUNTIME_MAX_THREADS" using n c inv by (simp add: stack_inv_def)
  then have "stack_tcache_free xs p = Inr p'"
    using p(1) by (simp add: stack_tcache_free_def TCACHE_DEFAULT_MAG_SIZE_def)
  moreover have "stack_inv P p' (X - set xs)"
    using inv xs c n p(2,3) by (auto simp: stack_inv_def)
  ultimately show ?thesis by blast
qed

text \<open>The first loop takes items from the end of the array.\<close>

lemma reuse_loop_inv:
  assumes "stack_inv P p (X \<union> set items)" "distinct items" "set items \<inter> X = {}"
  shows "\<exists>items' k p'. reuse_loop n items p = (items', k, p') \<and> stack_inv P p' (X \<union> set items') \<and>
    distinct items' \<and> set items' \<inter> X = {} \<and> length items' + k = length items + n"
  using assms
proof (induction n arbitrary: items p)
  case (Suc n)
  show ?case
  proof (cases "free_stack_count p = 0")
    case False
    define c where "c = free_stack_count p - 1"
    define x p1 where "x = free_stacks p c" and "p1 = p\<lparr>free_stack_count := c\<rparr>"
    have n: "free_stack_count p = Suc c" using False by (simp add: c_def)
    then have f: "free_list p = free_list p1 @ [x]" by (simp add: free_list_def p1_def x_def)
    have x: "x \<notin> X" "x \<notin> set items" using Suc.prems(1) f by (auto simp: stack_inv_def)
    have "stack_inv P p1 (X \<union> set (items @ [x]))"
      using Suc.prems(1) f n x by (auto simp: stack_inv_def p1_def)
    then have "\<exists>items' k p'. reuse_loop n (items @ [x]) p1 = (items', k, p') \<and> stack_inv P p' (X \<union> set items') \<and>
        distinct items' \<and> set items' \<inter> X = {} \<and> length items' + k = length (items @ [x]) + n"
      by (rule Suc.IH) (use Suc.prems x in auto)
    moreover have "reuse_loop (Suc n) items p = reuse_loop n (items @ [x]) p1"
      using False by (simp add: c_def x_def p1_def Let_def)
    ultimately show ?thesis by simp
  qed (use Suc.prems in simp)
qed simp

lemma create_loop_inv:
  assumes "stack_inv P p (X \<union> set items)" "distinct items" "set items \<inter> X = {}"
  shows "\<exists>r p'. create_loop n items p = Inr (r, p') \<and>
    (case r of None \<Rightarrow> stack_inv P p' X
     | Some xs \<Rightarrow> length xs = length items + n \<and> distinct xs \<and> set xs \<inter> X = {} \<and> stack_inv P p' (X \<union> set xs))"
  using assms
proof (induction n arbitrary: items p)
  case (Suc n)
  obtain r p1 where r: "stack_create p = (r, p1)" by fastforce
  note c = stack_create_cases [OF r]
  show ?case
  proof (cases r)
    case None
    have "stack_inv P p1 (X \<union> set items)" using Suc.prems(1) c None by (simp add: stack_inv_def)
    then obtain p' where "stack_tcache_free items p1 = Inr p'" "stack_inv P p' (X \<union> set items - set items)"
      using stack_tcache_free_inv Suc.prems(2) by blast
    moreover have "X \<union> set items - set items = X" using Suc.prems(3) by auto
    ultimately show ?thesis using r None by simp
  next
    case (Some s)
    have x: "usable s \<notin> X" "usable s \<notin> set items" using Suc.prems(1) c Some by (auto simp: stack_inv_def)
    have "stack_inv P p1 (X \<union> set (items @ [usable s]))"
      using Suc.prems(1) c Some x by (auto simp: stack_inv_def)
    then have "\<exists>r p'. create_loop n (items @ [usable s]) p1 = Inr (r, p') \<and>
      (case r of None \<Rightarrow> stack_inv P p' X
       | Some xs \<Rightarrow> length xs = length (items @ [usable s]) + n \<and> distinct xs \<and> set xs \<inter> X = {} \<and>
           stack_inv P p' (X \<union> set xs))"
      by (rule Suc.IH) (use Suc.prems x in auto)
    then show ?thesis using r Some by (simp cong: option.case_cong)
  qed
qed simp

lemma stack_tcache_alloc_inv:
  assumes inv: "stack_inv P p X"
  shows "\<exists>r p'. stack_tcache_alloc n p = Inr (r, p') \<and>
    (case r of None \<Rightarrow> stack_inv P p' X
     | Some xs \<Rightarrow> length xs = n \<and> distinct xs \<and> set xs \<inter> X = {} \<and> stack_inv P p' (X \<union> set xs))"
proof -
  obtain items k p1 where r: "reuse_loop n [] p = (items, k, p1)" "stack_inv P p1 (X \<union> set items)"
    "distinct items" "set items \<inter> X = {}" "length items + k = n"
    using reuse_loop_inv [of P p X "[]" n] inv by auto
  show ?thesis
    using create_loop_inv [OF r(2-4), of k] r(1,5)
    by (simp add: stack_tcache_alloc_def cong: option.case_cong)
qed

interpretation sk: item_backend stack_tcache_alloc stack_tcache_free "stack_inv P" for P
proof unfold_locales
  show "\<exists>r. stack_tcache_alloc n p = Inr r" if "stack_inv P p X" for n p X
    using stack_tcache_alloc_inv [OF that] by blast
  show "length xs = n \<and> distinct xs \<and> 0 \<notin> set xs \<and> set xs \<inter> X = {} \<and> stack_inv P p' (X \<union> set xs)"
    if "stack_inv P p X" "stack_tcache_alloc n p = Inr (Some xs, p')" for n p p' X xs
    using stack_tcache_alloc_inv [OF that(1), of n] that(2) by (auto simp: stack_inv_def)
  show "stack_inv P p' X" if "stack_inv P p X" "stack_tcache_alloc n p = Inr (None, p')" for n p p' X
    using stack_tcache_alloc_inv [OF that(1), of n] that(2) by auto
qed (rule stack_tcache_free_inv)

lemma coming_ge: "x \<in> set (coming ms) \<Longrightarrow> RUNTIME_GUARD_SIZE \<le> x"
  by (induction ms rule: coming.induct) (auto simp: usable_def)

lemma apart_distinct:
  "0 < n \<Longrightarrow> sorted_wrt (\<lambda>x y. x + n \<le> y \<or> y + n \<le> x) xs \<Longrightarrow> distinct xs" for xs :: "addr list"
  by (induction xs) auto

subsection \<open>Properties\<close>


lemma unat_slot_addr:
  assumes "unat s + stack_size < 2 ^ 64" "unat pos \<le> 32768"
  shows "unat (slot_addr s pos) = unat s + RUNTIME_GUARD_SIZE + 8 * unat pos"
proof -
  have "slot_addr s pos = of_nat (unat s + RUNTIME_GUARD_SIZE + 8 * unat pos)" by (simp add: slot_addr_def)
  then show ?thesis
    using assms by (simp only: unat_of_nat) (simp add: stack_size_def RUNTIME_GUARD_SIZE_def RUNTIME_STACK_SIZE_def)
qed

text \<open>
  C32. A new stack: with a stack on a 16-byte boundary both initialisers return a stack pointer
  that is 8 below one, as the calling convention asks and as they assert; the reserved buffer
  lies inside the usable part and above the slot of the exit handler.
\<close>

theorem stack_rsp_layout:
  assumes s: "unat s mod 16 = 0" "unat s + stack_size < 2 ^ 64" and l: "unat buf_len + 16 \<le> RUNTIME_STACK_SIZE"
  shows "assert_rsp_aligned (stack_init_to_rsp s) \<and> unat (stack_init_to_rsp s) + 8 = unat s + stack_size \<and>
    (case stack_init_to_rsp_with_buf s buf_len of (b, rsp) \<Rightarrow>
       assert_rsp_aligned rsp \<and> unat rsp + 8 = unat b \<and> unat b mod 16 = 0 \<and>
       unat b + unat buf_len \<le> unat s + stack_size \<and> unat s + RUNTIME_GUARD_SIZE \<le> unat rsp)"
proof -
  have c: "RUNTIME_STACK_SIZE = 262144" "RUNTIME_GUARD_SIZE = 262144" "stack_size = 524288" "STACK_PTR_SIZE = 32768"
    "RSP_ALIGNMENT div 8 = 2"
    by (simp_all add: RUNTIME_STACK_SIZE_def RUNTIME_GUARD_SIZE_def stack_size_def STACK_PTR_SIZE_def RSP_ALIGNMENT_def)
  have al: "assert_rsp_aligned r \<longleftrightarrow> unat r mod 16 = 8" for r
  proof -
    have "r mod 16 = 8 \<longleftrightarrow> unat (r mod 16) = unat (8 :: u64)" by (simp only: word_unat_eq_iff)
    then show ?thesis by (simp add: assert_rsp_aligned_def RSP_ALIGNMENT_def unat_mod)
  qed
  have "unat (buf_len + 7) = unat buf_len + 7" using l c by (simp add: unat_word_ariths)
  moreover have "buf_len + 8 - 1 = buf_len + 7" by simp
  moreover have "unat (8 :: u64) = 8" by simp
  ultimately have q: "unat (div_up buf_len 8) = (unat buf_len + 7) div 8"
    by (simp only: div_up_def unat_div)
  define pos where "pos = STACK_PTR_SIZE - div_up buf_len 8"
  have p0: "unat pos = 32768 - (unat buf_len + 7) div 8"
  proof -
    have "div_up buf_len 8 \<le> (32768 :: u64)" unfolding word_le_nat_alt q using l [unfolded c(1)] by simp
    then show ?thesis unfolding pos_def c(4) using q by (simp add: unat_sub)
  qed
  have p1: "unat (align_down pos 2) = unat pos - unat pos mod 2"
    using unat_align_down [of pos 1] by simp
  then have p2: "2 \<le> unat (align_down pos 2)" "unat (align_down pos 2) mod 2 = 0"
    "8 * unat (align_down pos 2) + unat buf_len \<le> 262144"
    using p0 l c by (auto simp: minus_mod_eq_mult_div) 
  have p3: "unat (align_down pos 2 - 1) = unat (align_down pos 2) - 1"
    using p2(1) by (simp add: unat_sub word_le_nat_alt)
  obtain a k where a: "unat s = 16 * a" "unat (align_down pos 2) = 2 * k" using s(1) p2(2) by (auto elim!: dvdE)
  have b: "unat (slot_addr s (align_down pos 2)) = unat s + 262144 + 8 * unat (align_down pos 2)"
    "unat (slot_addr s (align_down pos 2 - 1)) + 8 = unat s + 262144 + 8 * unat (align_down pos 2)"
    "unat (slot_addr s (STACK_PTR_SIZE - 1)) = unat s + 524280"
    using unat_slot_addr [OF s(2)] p2 p3 by (simp_all add: c)
  show ?thesis
    unfolding stack_init_to_rsp_def stack_init_to_rsp_with_buf_def Let_def c(5) pos_def [symmetric] al
    using b p2 a by (simp add: c) presburger
qed


theorem stack_rsp_layout_witness:
  "assert_rsp_aligned (stack_init_to_rsp 1048576) \<and>
   (case stack_init_to_rsp_with_buf 1048576 100 of (b, rsp) \<Rightarrow> assert_rsp_aligned rsp \<and> unat rsp + 8 = unat b)"
  using stack_rsp_layout [of 1048576 100]
  by (simp add: stack_size_def RUNTIME_STACK_SIZE_def RUNTIME_GUARD_SIZE_def split: prod.splits)

text \<open>Two mappings succeed and one fails; a thread has attached and finds a stack.\<close>

definition example_stacks :: stack_pool where
  "example_stacks = \<lparr>free_stack_count = 0, free_stacks = \<lambda>_. 0,
     maps = [(Some 1048576, True), (None, True), (Some 4194304, False), (Some 2097152, True)]\<rparr>"

definition example_stack_cache :: "stack_pool tcache" where
  "example_stack_cache = \<lparr>next_item = \<lambda>_. 0, next_mag = \<lambda>_. 0, mag_size = 32, shared_mags = 0, mags_allocated = 0,
     backend = example_stacks, pts = \<lambda>_. \<lparr>rounds = 0, capacity = 0, loaded = 0, previous = 0\<rparr>\<rparr>"


end
