(* ===== verification/Mbuf.thy ===== *)
theory Mbuf
  imports Stddef
begin

text \<open>
  Packet buffers (\<open>inc/net/mbuf.h\<close>). A buffer is the memory from \<open>head\<close> on, the offset of the
  data in it (\<open>data - head\<close>), the length of the data, and the length \<open>head_len\<close> it was initialised
  with, which need not be that of the memory: buffers for transmission are initialised with
  the MTU. \<open>BUG_ON\<close>, failed assertions of the debug build and writes outside the memory are faults. The fields after the offsets are those
  that TCP keeps in a buffer.
\<close>

record mbuf =
  bytes :: "u8 list"
  doff :: nat
  head_len :: nat
  mlen :: nat
  network_off :: nat
  transport_off :: nat
  timestamp :: u64
  seg_seq :: u32
  seg_end :: u32
  mflags :: u8
  mref :: u32
  txflags :: u32

definition mbuf_data :: "mbuf \<Rightarrow> u8 list" where
  "mbuf_data m = take (mlen m) (drop (doff m) (bytes m))"

definition mbuf_length :: "mbuf \<Rightarrow> nat" where
  "mbuf_length m = mlen m"

definition mbuf_headroom :: "mbuf \<Rightarrow> nat" where
  "mbuf_headroom m = doff m"

definition mbuf_tailroom :: "mbuf \<Rightarrow> int" where
  "mbuf_tailroom m = (int (head_len m) - int (doff m) - int (mlen m)) mod 2 ^ 32"

definition mbuf_init :: "u8 list \<Rightarrow> nat \<Rightarrow> nat \<Rightarrow> mbuf \<Rightarrow> mbuf exec" where
  "mbuf_init head hlen reserve_len m =
     (if reserve_len < hlen then Inr (m\<lparr>bytes := head, head_len := hlen, doff := reserve_len, mlen := 0\<rparr>)
      else Inl Bug_on)"

text \<open>The first result is the stripped bytes, which the returned pointer points to.\<close>

definition mbuf_pull_raw :: "mbuf \<Rightarrow> nat \<Rightarrow> u8 list \<times> mbuf" where
  "mbuf_pull_raw m n = (take n (drop (doff m) (bytes m)), m\<lparr>mlen := mlen m - n, doff := doff m + n\<rparr>)"

definition mbuf_pull :: "mbuf \<Rightarrow> nat \<Rightarrow> (u8 list \<times> mbuf) exec" where
  "mbuf_pull m n = (if n > mlen m then Inl Bug_on else Inr (mbuf_pull_raw m n))"

definition mbuf_pull_or_null :: "mbuf \<Rightarrow> nat \<Rightarrow> (u8 list \<times> mbuf) option" where
  "mbuf_pull_or_null m n = (if mlen m \<ge> n then Some (mbuf_pull_raw m n) else None)"

text \<open>\<open>write_at\<close> is a copy into the buffer.\<close>

definition write_at :: "mbuf \<Rightarrow> nat \<Rightarrow> u8 list \<Rightarrow> mbuf exec" where
  "write_at m pos bs =
     (if pos + length bs > length (bytes m) then Inl Out_of_bounds
      else Inr (m\<lparr>bytes := take pos (bytes m) @ bs @ drop (pos + length bs) (bytes m)\<rparr>))"

definition mbuf_push :: "mbuf \<Rightarrow> nat \<Rightarrow> mbuf exec" where
  "mbuf_push m n =
     (if doff m < n then Inl Bug_on
      else Inr (m\<lparr>doff := doff m - n, mlen := (mlen m + n) mod 2 ^ 32\<rparr>))"

definition mbuf_put :: "mbuf \<Rightarrow> nat \<Rightarrow> (nat \<times> mbuf) exec" where
  "mbuf_put m n =
     (let l = (mlen m + n) mod 2 ^ 32
      in if l > head_len m then Inl Bug_on else Inr (doff m + mlen m, m\<lparr>mlen := l\<rparr>))"

definition mbuf_trim :: "mbuf \<Rightarrow> nat \<Rightarrow> mbuf exec" where
  "mbuf_trim m n = (if n > mlen m then Inl Bug_on else Inr (m\<lparr>mlen := mlen m - n\<rparr>))"

definition mbuf_reset :: "mbuf \<Rightarrow> nat \<Rightarrow> mbuf exec" where
  "mbuf_reset m off =
     (let total_len = doff m + mlen m
      in if off > total_len then Inl Bug_on else Inr (m\<lparr>doff := off, mlen := total_len - off\<rparr>))"

definition mbuf_mark_network_offset :: "mbuf \<Rightarrow> mbuf" where
  "mbuf_mark_network_offset m = m\<lparr>network_off := doff m mod 2 ^ 16\<rparr>"

definition mbuf_mark_transport_offset :: "mbuf \<Rightarrow> mbuf" where
  "mbuf_mark_transport_offset m = m\<lparr>transport_off := doff m mod 2 ^ 16\<rparr>"

text \<open>Prepending and appending data: make room and copy.\<close>

definition push_bytes :: "mbuf \<Rightarrow> u8 list \<Rightarrow> mbuf exec" where
  "push_bytes m bs = bind_exec (mbuf_push m (length bs)) (\<lambda>m. write_at m (doff m) bs)"

definition put_bytes :: "mbuf \<Rightarrow> u8 list \<Rightarrow> mbuf exec" where
  "put_bytes m bs = bind_exec (mbuf_put m (length bs)) (\<lambda>(pos, m). write_at m pos bs)"

subsection \<open>Well-formed buffers\<close>

definition mbuf_ok :: "mbuf \<Rightarrow> bool" where
  "mbuf_ok m \<longleftrightarrow> doff m + mlen m \<le> length (bytes m) \<and> length (bytes m) < 2 ^ 32"

lemma length_mbuf_data: "mbuf_ok m \<Longrightarrow> length (mbuf_data m) = mlen m"
  by (auto simp: mbuf_ok_def mbuf_data_def min_def)

lemma mbuf_pull_data:
  assumes "mbuf_ok m" "n \<le> mlen m"
  shows "\<exists>m'. mbuf_pull m n = Inr (take n (mbuf_data m), m') \<and> mbuf_ok m' \<and> mbuf_data m' = drop n (mbuf_data m) \<and>
    mlen m' = mlen m - n \<and> doff m' = doff m + n \<and> bytes m' = bytes m"
  using assms by (auto simp: mbuf_pull_def mbuf_pull_raw_def mbuf_ok_def mbuf_data_def drop_take min_def add.commute)

lemma mbuf_trim_data:
  assumes "mbuf_ok m" "n \<le> mlen m"
  shows "\<exists>m'. mbuf_trim m n = Inr m' \<and> mbuf_ok m' \<and> mbuf_data m' = take (mlen m - n) (mbuf_data m) \<and>
    mlen m' = mlen m - n"
  using assms by (auto simp: mbuf_trim_def mbuf_ok_def mbuf_data_def)

lemma push_bytes_data:
  assumes "mbuf_ok m" "length bs \<le> doff m"
  shows "\<exists>m'. push_bytes m bs = Inr m' \<and> mbuf_ok m' \<and> mbuf_data m' = bs @ mbuf_data m \<and>
    doff m' = doff m - length bs \<and> length (bytes m') = length (bytes m)"
proof -
  have l: "(mlen m + length bs) mod 2 ^ 32 = mlen m + length bs" using assms by (simp add: mbuf_ok_def)
  have d: "doff m - length bs + length bs = doff m" using assms by simp
  define m' where "m' = m\<lparr>doff := doff m - length bs, mlen := mlen m + length bs,
    bytes := take (doff m - length bs) (bytes m) @ bs @ drop (doff m) (bytes m)\<rparr>"
  have "push_bytes m bs = Inr m'"
    using assms l d by (simp add: push_bytes_def mbuf_push_def write_at_def mbuf_ok_def m'_def)
  moreover have mn: "min (length (bytes m)) (doff m - length bs) = doff m - length bs"
    using assms by (auto simp: mbuf_ok_def)
  then have "mbuf_data m' = bs @ mbuf_data m"
    using assms by (simp add: mbuf_data_def m'_def mbuf_ok_def)
  moreover have "mbuf_ok m'" "length (bytes m') = length (bytes m)" "doff m' = doff m - length bs"
    using assms by (simp_all add: mbuf_ok_def m'_def mn)
  ultimately show ?thesis by blast
qed

lemma put_bytes_data:
  assumes "mbuf_ok m" "doff m + mlen m + length bs \<le> length (bytes m)" "mlen m + length bs \<le> head_len m"
  shows "\<exists>m'. put_bytes m bs = Inr m' \<and> mbuf_ok m' \<and> mbuf_data m' = mbuf_data m @ bs \<and>
    doff m' = doff m \<and> length (bytes m') = length (bytes m)"
proof -
  have b: "doff m + mlen m + length bs \<le> length (bytes m)" "length (bytes m) < 2 ^ 32"
    using assms by (auto simp: mbuf_ok_def)
  then have l: "(mlen m + length bs) mod 2 ^ 32 = mlen m + length bs" by simp
  define m' where "m' = m\<lparr>mlen := mlen m + length bs,
    bytes := take (doff m + mlen m) (bytes m) @ bs @ drop (doff m + mlen m + length bs) (bytes m)\<rparr>"
  have "put_bytes m bs = Inr m'"
    using b l assms(3) by (simp add: put_bytes_def mbuf_put_def write_at_def m'_def Let_def)
  moreover have "mbuf_data m' = mbuf_data m @ bs"
    using b by (simp add: mbuf_data_def m'_def drop_take)
  moreover have "mbuf_ok m'" "length (bytes m') = length (bytes m)" "doff m' = doff m"
    using b by (simp_all add: mbuf_ok_def m'_def)
  ultimately show ?thesis by blast
qed

subsection \<open>Properties\<close>

text \<open>
  C33. On a well-formed buffer, prepending within the headroom and appending within the length and
  the memory of the buffer succeed and keep the buffer well formed; stripping takes the
  prepended and appended bytes off again. Prepending more than the headroom, appending more
  than the length of the buffer and stripping more than there is stop the program, or give
  null in the variant that checks.
\<close>

theorem mbuf_push_pull:
  assumes "mbuf_ok m"
  shows "(length bs \<le> mbuf_headroom m \<longrightarrow>
      (\<exists>m1 m2. push_bytes m bs = Inr m1 \<and> mbuf_ok m1 \<and> mbuf_data m1 = bs @ mbuf_data m \<and>
         mbuf_pull m1 (length bs) = Inr (bs, m2) \<and> mbuf_ok m2 \<and> mbuf_data m2 = mbuf_data m \<and> doff m2 = doff m)) \<and>
    (doff m + mlen m + length bs \<le> length (bytes m) \<and> mbuf_length m + length bs \<le> head_len m \<longrightarrow>
      (\<exists>m1 m2. put_bytes m bs = Inr m1 \<and> mbuf_ok m1 \<and> mbuf_data m1 = mbuf_data m @ bs \<and>
         mbuf_trim m1 (length bs) = Inr m2 \<and> mbuf_ok m2 \<and> mbuf_data m2 = mbuf_data m)) \<and>
    (mbuf_headroom m < length bs \<longrightarrow> push_bytes m bs = Inl Bug_on) \<and>
    (head_len m < mbuf_length m + length bs \<and> mbuf_length m + length bs < 2 ^ 32 \<longrightarrow>
      put_bytes m bs = Inl Bug_on) \<and>
    (mbuf_length m < n \<longrightarrow> mbuf_pull m n = Inl Bug_on \<and> mbuf_trim m n = Inl Bug_on \<and> mbuf_pull_or_null m n = None)"
proof -
  have 1: "\<exists>m1 m2. push_bytes m bs = Inr m1 \<and> mbuf_ok m1 \<and> mbuf_data m1 = bs @ mbuf_data m \<and>
      mbuf_pull m1 (length bs) = Inr (bs, m2) \<and> mbuf_ok m2 \<and> mbuf_data m2 = mbuf_data m \<and> doff m2 = doff m"
    if h: "length bs \<le> mbuf_headroom m"
  proof -
    obtain m1 where m1: "push_bytes m bs = Inr m1" "mbuf_ok m1" "mbuf_data m1 = bs @ mbuf_data m"
      "doff m1 = doff m - length bs"
      using push_bytes_data [OF assms] h by (auto simp: mbuf_headroom_def)
    have "length bs \<le> mlen m1" using length_mbuf_data [OF m1(2)] m1(3) by simp
    then show ?thesis using mbuf_pull_data [OF m1(2), of "length bs"] m1 h by (auto simp: mbuf_headroom_def)
  qed
  have 2: "\<exists>m1 m2. put_bytes m bs = Inr m1 \<and> mbuf_ok m1 \<and> mbuf_data m1 = mbuf_data m @ bs \<and>
      mbuf_trim m1 (length bs) = Inr m2 \<and> mbuf_ok m2 \<and> mbuf_data m2 = mbuf_data m"
    if h: "doff m + mlen m + length bs \<le> length (bytes m)" "mlen m + length bs \<le> head_len m"
  proof -
    obtain m1 where m1: "put_bytes m bs = Inr m1" "mbuf_ok m1" "mbuf_data m1 = mbuf_data m @ bs"
      using put_bytes_data [OF assms h] by blast
    have "mlen m1 = length (mbuf_data m) + length bs" using length_mbuf_data [OF m1(2)] m1(3) by simp
    then show ?thesis using mbuf_trim_data [OF m1(2), of "length bs"] m1 by auto
  qed
  show ?thesis
    using 1 2
    by (auto simp: push_bytes_def mbuf_push_def put_bytes_def mbuf_put_def write_at_def mbuf_pull_def mbuf_trim_def
        mbuf_pull_or_null_def mbuf_headroom_def mbuf_length_def Let_def)
qed

definition example_mbuf :: mbuf where
  "example_mbuf = \<lparr>bytes = [0, 0, 7, 8, 0], doff = 2, head_len = 5, mlen = 2, network_off = 0, transport_off = 0,
     timestamp = 0, seg_seq = 0, seg_end = 0, mflags = 0, mref = 0, txflags = 0\<rparr>"

theorem mbuf_push_pull_witness:
  "\<exists>m1 m2. push_bytes example_mbuf [1, 2] = Inr m1 \<and> mbuf_pull m1 (length [1::u8, 2]) = Inr ([1, 2], m2) \<and>
     mbuf_data m2 = mbuf_data example_mbuf"
proof -
  have "mbuf_ok example_mbuf" "length [1::u8, 2] \<le> mbuf_headroom example_mbuf"
    by (simp_all add: mbuf_ok_def example_mbuf_def mbuf_headroom_def)
  then show ?thesis using mbuf_push_pull [of example_mbuf "[1, 2]" 9] by blast
qed



end
