(* ===== verification/Chksum.thy ===== *)
theory Chksum
  imports Stddef
begin

text \<open>
  Network byte order and the Internet checksum (\<open>inc/base/byteorder.h\<close>, \<open>inc/net/chksum.h\<close>).
  Memory is a list of bytes. Values in network byte order are the bytes they have in memory; the
  words that the checksum adds are loaded in the order of the host, which is little-endian.
\<close>

subsection \<open>Byte order\<close>

definition hton16 :: "u16 \<Rightarrow> u8 list" where
  "hton16 w = [ucast (drop_bit 8 w), ucast w]"

definition hton32 :: "u32 \<Rightarrow> u8 list" where
  "hton32 w = [ucast (drop_bit 24 w), ucast (drop_bit 16 w), ucast (drop_bit 8 w), ucast w]"

definition ntoh16 :: "u8 list \<Rightarrow> u16" where
  "ntoh16 bs = push_bit 8 (ucast (bs ! 0)) + ucast (bs ! 1)"

definition ntoh32 :: "u8 list \<Rightarrow> u32" where
  "ntoh32 bs = push_bit 24 (ucast (bs ! 0)) + push_bit 16 (ucast (bs ! 1)) + push_bit 8 (ucast (bs ! 2)) + ucast (bs ! 3)"

definition load16 :: "u8 \<Rightarrow> u8 \<Rightarrow> u16" where
  "load16 a b = ucast a + push_bit 8 (ucast b)"

definition store16 :: "u16 \<Rightarrow> u8 list" where
  "store16 w = [ucast w, ucast (drop_bit 8 w)]"

subsection \<open>Checksums\<close>

text \<open>The loop over four words at a time, then the one over single words and the odd byte.\<close>

fun raw_cksum_words :: "u8 list \<Rightarrow> u32 \<Rightarrow> u32" where
  "raw_cksum_words (a # b # bs) acc = raw_cksum_words bs (acc + ucast (load16 a b))"
| "raw_cksum_words [a] acc = acc + ucast a"
| "raw_cksum_words [] acc = acc"

fun raw_cksum_sum :: "u8 list \<Rightarrow> u32 \<Rightarrow> u32" where
  "raw_cksum_sum (a0 # b0 # a1 # b1 # a2 # b2 # a3 # b3 # bs) acc =
     raw_cksum_sum bs (acc + ucast (load16 a0 b0) + ucast (load16 a1 b1) + ucast (load16 a2 b2) + ucast (load16 a3 b3))"
| "raw_cksum_sum bs acc = raw_cksum_words bs acc"

definition fold16 :: "u32 \<Rightarrow> u32" where
  "fold16 acc = drop_bit 16 (acc AND 0xffff0000) + (acc AND 0xffff)"

definition raw_cksum_reduce :: "u32 \<Rightarrow> u16" where
  "raw_cksum_reduce acc = ucast (fold16 (fold16 acc))"

definition raw_cksum :: "u8 list \<Rightarrow> u16" where
  "raw_cksum buf = raw_cksum_reduce (raw_cksum_sum buf 0)"

definition psd_header :: "u8 \<Rightarrow> u32 \<Rightarrow> u32 \<Rightarrow> u16 \<Rightarrow> u8 list" where
  "psd_header proto saddr daddr l4len = hton32 saddr @ hton32 daddr @ [0, proto] @ hton16 l4len"

definition ipv4_phdr_cksum :: "u8 \<Rightarrow> u32 \<Rightarrow> u32 \<Rightarrow> u16 \<Rightarrow> u16" where
  "ipv4_phdr_cksum proto saddr daddr l4len = raw_cksum (psd_header proto saddr daddr l4len)"

definition ipv4_udptcp_cksum :: "u8 \<Rightarrow> u32 \<Rightarrow> u32 \<Rightarrow> u16 \<Rightarrow> u8 list \<Rightarrow> u16" where
  "ipv4_udptcp_cksum proto saddr daddr l4len l4hdr =
     (let cksum = ucast (raw_cksum (take (unat l4len) l4hdr));
          cksum = cksum + ucast (ipv4_phdr_cksum proto saddr daddr l4len);
          cksum = fold16 cksum;
          cksum = NOT cksum AND 0xffff
      in ucast (if cksum = 0 then 0xffff else cksum))"

subsection \<open>Sums\<close>

text \<open>The sum of the words of a buffer as a number.\<close>

fun word_sum :: "u8 list \<Rightarrow> nat" where
  "word_sum (a # b # bs) = unat a + 256 * unat b + word_sum bs"
| "word_sum [a] = unat a"
| "word_sum [] = 0"

lemma byte_lt: "unat (a :: u8) < 256"
  using unsigned_less [of a, where ?'a = nat] by simp

lemma half_lt: "unat (a :: u16) < 65536"
  using unsigned_less [of a, where ?'a = nat] by simp

lemma unat_byte16 [simp]: "unat (ucast (a :: u8) :: u16) = unat a"
  using byte_lt [of a] by (simp add: unsigned_ucast_eq take_bit_eq_mod)

lemma unat_byte32 [simp]: "unat (ucast (a :: u8) :: u32) = unat a"
  using byte_lt [of a] by (simp add: unsigned_ucast_eq take_bit_eq_mod)

lemma unat_half32 [simp]: "unat (ucast (a :: u16) :: u32) = unat a"
  using half_lt [of a] by (simp add: unsigned_ucast_eq take_bit_eq_mod)

lemma unat_load16 [simp]: "unat (load16 a b) = unat a + 256 * unat b"
proof -
  have b: "unat (push_bit 8 (ucast b) :: u16) = 256 * unat b"
    using byte_lt [of b] by (simp add: push_bit_eq_mult unat_word_ariths)
  have "unat a + 256 * unat b < 65536" using byte_lt [of a] byte_lt [of b] by linarith
  then show ?thesis by (simp only: load16_def unat_word_ariths unat_byte16 b) simp
qed

lemma raw_cksum_words_sum:
  "unat s + word_sum bs < 2 ^ 32 \<Longrightarrow> unat (raw_cksum_words bs s) = unat s + word_sum bs"
proof (induction bs s rule: raw_cksum_words.induct)
  case (1 a b bs s)
  have "unat (s + ucast (load16 a b)) = unat s + (unat a + 256 * unat b)"
    using 1(2) by (simp add: unat_word_ariths)
  with 1 show ?case by simp
next
  case (2 a s)
  then show ?case by (simp add: unat_word_ariths)
qed simp

lemma raw_cksum_sum_words: "raw_cksum_sum bs s = raw_cksum_words bs s"
  by (induction bs s rule: raw_cksum_sum.induct) simp_all

lemma word_sum_bound: "word_sum bs \<le> 65535 * ((length bs + 1) div 2)"
proof (induction bs rule: word_sum.induct)
  case (1 a b bs)
  have "unat a + 256 * unat b \<le> 65535" using byte_lt [of a] byte_lt [of b] by linarith
  with 1 show ?case by simp
next
  case (2 a)
  have "unat a \<le> 65535" using byte_lt [of a] by linarith
  then show ?case by simp
qed simp

lemma word_sum_append: "even (length xs) \<Longrightarrow> word_sum (xs @ ys) = word_sum xs + word_sum ys"
  by (induction xs rule: word_sum.induct) simp_all

lemma mask16: "x AND 0xffff = take_bit 16 x" for x :: u32
  by (simp add: take_bit_eq_mask mask_eq_exp_minus_1)

lemma unat_fold16: "unat (fold16 s) = unat s div 65536 + unat s mod 65536"
proof -
  have s: "unat s < 2 ^ 32" using unsigned_less [of s, where ?'a = nat] by simp
  have "drop_bit 16 (0xffff0000 :: u32) = 0xffff" by (simp add: drop_bit_eq_div)
  then have "drop_bit 16 (s AND 0xffff0000) = take_bit 16 (drop_bit 16 s)"
    by (simp only: drop_bit_and mask16)
  moreover have "unat (take_bit 16 (drop_bit 16 s)) = unat s div 65536"
    using s by (simp only: unsigned_take_bit_eq unsigned_drop_bit_eq)
      (simp add: take_bit_eq_mod drop_bit_eq_div less_mult_imp_div_less)
  ultimately have h: "unat (drop_bit 16 (s AND 0xffff0000)) = unat s div 65536" by simp
  have l: "unat (s AND 0xffff) = unat s mod 65536"
    by (simp only: mask16 unsigned_take_bit_eq) (simp add: take_bit_eq_mod)
  have "unat s div 65536 < 65536" "unat s mod 65536 < 65536"
    using s by (simp_all add: less_mult_imp_div_less)
  then have "unat s div 65536 + unat s mod 65536 < 4294967296" by linarith
  then show ?thesis by (simp only: fold16_def unat_word_ariths h l) simp
qed

lemma fold_mod: "(x div 65536 + x mod 65536) mod 65535 = x mod (65535 :: nat)"
proof -
  have "x div 65536 * 65535 + (x div 65536 + x mod 65536) = x" by simp
  from arg_cong [OF this, of "\<lambda>n. n mod 65535"] show ?thesis by (simp only: mod_mult_self3)
qed

lemma fold_eq_0: "x div 65536 + x mod 65536 = 0 \<longleftrightarrow> x = (0 :: nat)"
  by (auto simp: div_eq_0_iff)

lemma fold_once: "x < 4294967296 \<Longrightarrow> x div 65536 + x mod 65536 \<le> (131070 :: nat)"
proof -
  assume "x < 4294967296"
  then have "x div 65536 < 65536" by (simp add: less_mult_imp_div_less)
  moreover have "x mod 65536 < 65536" by simp
  ultimately show ?thesis by linarith
qed

lemma fold_twice:
  fixes x :: nat
  assumes "x \<le> 131070"
  shows "x div 65536 + x mod 65536 < 65536"
proof (cases "x < 65536")
  case False
  have "x div 65536 = 1" by (rule div_nat_eqI) (use assms False in simp_all)
  moreover have "x mod 65536 = x - 65536" using assms False by (simp add: le_mod_geq)
  ultimately show ?thesis using assms False by linarith
qed simp

lemma unat_raw_cksum_reduce:
  fixes s :: u32
  defines "x \<equiv> unat s div 65536 + unat s mod 65536"
  shows "unat (raw_cksum_reduce s) = x div 65536 + x mod 65536"
proof -
  have "unat s < 4294967296" using unsigned_less [of s, where ?'a = nat] by simp
  then have "x div 65536 + x mod 65536 < 65536" by (intro fold_twice) (simp only: x_def fold_once)
  moreover have "unat (fold16 (fold16 s)) = x div 65536 + x mod 65536" by (simp only: unat_fold16 x_def)
  ultimately show ?thesis
    by (simp only: raw_cksum_reduce_def unsigned_ucast_eq) (simp add: take_bit_eq_mod)
qed

lemma raw_cksum_reduce_mod: "unat (raw_cksum_reduce s) mod 65535 = unat s mod 65535"
  by (simp only: unat_raw_cksum_reduce fold_mod)

lemma raw_cksum_reduce_0: "unat (raw_cksum_reduce s) = 0 \<longleftrightarrow> unat s = 0"
  by (simp only: unat_raw_cksum_reduce fold_eq_0)

lemma unat_raw_cksum_sum:
  assumes "length bs < 131070"
  shows "unat (raw_cksum_sum bs 0) = word_sum bs"
proof -
  have "(length bs + 1) div 2 \<le> 65535" using assms by simp
  then have "65535 * ((length bs + 1) div 2) \<le> 65535 * 65535" by (rule mult_le_mono2)
  then have "word_sum bs < 4294967296" using word_sum_bound [of bs] by simp
  then show ?thesis by (simp add: raw_cksum_sum_words raw_cksum_words_sum)
qed

lemma raw_cksum_mod: "length bs < 131070 \<Longrightarrow> unat (raw_cksum bs) mod 65535 = word_sum bs mod 65535"
  by (simp only: raw_cksum_def raw_cksum_reduce_mod unat_raw_cksum_sum)

lemma raw_cksum_0: "length bs < 131070 \<Longrightarrow> unat (raw_cksum bs) = 0 \<longleftrightarrow> word_sum bs = 0"
  by (simp only: raw_cksum_def raw_cksum_reduce_0 unat_raw_cksum_sum)

lemma unat_not32: "unat (NOT (c :: u32)) = 4294967295 - unat c"
proof -
  have "NOT c = - 1 - c" by (simp add: not_eq_complement)
  moreover have "unat (- 1 - c) = unat (- 1 :: u32) - unat c" by (rule unat_sub) simp
  moreover have "unat (- 1 :: u32) = 4294967295"
    by (simp only: unsigned_minus_1_eq_mask) (simp add: mask_eq_exp_minus_1)
  ultimately show ?thesis by (simp only:)
qed

lemma unat_not16:
  assumes "unat (c :: u32) \<le> 65535"
  shows "unat (NOT c AND 0xffff) = 65535 - unat c"
proof -
  have "unat (take_bit 16 (NOT c)) = (4294967295 - unat c) mod 65536"
    by (simp only: unsigned_take_bit_eq unat_not32) (simp add: take_bit_eq_mod)
  also have "4294967295 - unat c = (65535 - unat c) + 65535 * 65536" using assms by simp
  also have "\<dots> mod 65536 = 65535 - unat c" by (simp only: mod_mult_self1) simp
  finally show ?thesis by (simp only: mask16)
qed

lemma unat_udptcp_cksum:
  fixes l4len :: u16 and l4 :: "u8 list" and proto :: u8 and saddr daddr :: u32
  assumes "length l4 = unat l4len"
  defines "psd \<equiv> psd_header proto saddr daddr l4len"
  defines "ck \<equiv> ipv4_udptcp_cksum proto saddr daddr l4len l4"
  shows "(word_sum psd + word_sum l4 + unat ck) mod 65535 = 0 \<and> 0 < unat ck"
proof -
  define c where "c = ucast (raw_cksum l4) + (ucast (raw_cksum psd) :: u32)"
  define f where "f = unat (fold16 c)"
  have b: "unat (raw_cksum l4) + unat (raw_cksum psd) \<le> 131070"
    using half_lt [of "raw_cksum l4"] half_lt [of "raw_cksum psd"] by linarith
  then have c: "unat c = unat (raw_cksum l4) + unat (raw_cksum psd)"
    by (simp add: c_def unat_word_ariths)
  have f: "f < 65536" using fold_twice [OF b] by (simp only: f_def unat_fold16 c)
  have len: "length l4 < 131070" "length psd < 131070"
    using half_lt [of l4len] assms(1) by (simp_all add: psd_def psd_header_def hton32_def hton16_def)
  have "f mod 65535 = (unat (raw_cksum l4) + unat (raw_cksum psd)) mod 65535"
    by (simp only: f_def unat_fold16 fold_mod c)
  also have "\<dots> = (word_sum l4 + word_sum psd) mod 65535"
    by (rule mod_add_cong) (simp_all only: raw_cksum_mod [OF len(1)] raw_cksum_mod [OF len(2)])
  finally have m: "(word_sum psd + word_sum l4) mod 65535 = f mod 65535" by (simp only: add.commute)
  define d where "d = NOT (fold16 c) AND 0xffff"
  have d: "unat d = 65535 - f"
    using f unfolding d_def f_def by (intro unat_not16) simp
  then have d0: "d = 0 \<longleftrightarrow> f = 65535" using f by (auto simp: word_unat_eq_iff)
  have "ck = ucast (if d = 0 then 0xffff else d)"
    by (simp add: ck_def ipv4_udptcp_cksum_def ipv4_phdr_cksum_def Let_def assms(1) [symmetric] c_def d_def psd_def)
  then have "unat ck = (if f = 65535 then 65535 else 65535 - f)"
    using d d0 by (simp add: unsigned_ucast_eq take_bit_eq_mod)
  then have k: "f + unat ck = 65535 \<or> f + unat ck = 2 * 65535" "0 < unat ck"
    using f by (auto split: if_splits)
  have "(word_sum psd + word_sum l4 + unat ck) mod 65535 = (f + unat ck) mod 65535"
    using m by (rule mod_add_cong) simp
  also have "\<dots> = 0" using k(1) by (elim disjE) simp_all
  finally show ?thesis using k(2) by simp
qed

lemma word_sum_store16 [simp]: "word_sum (store16 w @ bs) = unat w + word_sum bs"
proof -
  have "unat (ucast w :: u8) = unat w mod 256" "unat (ucast (drop_bit 8 w) :: u8) = unat w div 256"
    using half_lt [of w]
    by (simp_all only: unsigned_ucast_eq unsigned_drop_bit_eq)
       (simp_all add: take_bit_eq_mod drop_bit_eq_div less_mult_imp_div_less)
  then show ?thesis by (simp add: store16_def)
qed

subsection \<open>Properties\<close>

text \<open>
  C34. The checksum that is stored in a UDP or TCP header verifies: when it is computed with the checksum
  field (at any even offset) zero and then stored there, the checksum of the pseudo header and the
  segment, the way a receiver computes it, is 0xffff.
\<close>

theorem udptcp_cksum_verifies:
  fixes l4len :: u16 and l4 :: "u8 list" and proto :: u8 and saddr daddr :: u32
  assumes len: "length l4 = unat l4len" and p: "even p" "p + 2 \<le> length l4" "take 2 (drop p l4) = [0, 0]"
  defines "ck \<equiv> ipv4_udptcp_cksum proto saddr daddr l4len l4"
  shows "raw_cksum (psd_header proto saddr daddr l4len @ take p l4 @ store16 ck @ drop (p + 2) l4) = 0xffff"
proof -
  define psd where "psd = psd_header proto saddr daddr l4len"
  define buf where "buf = psd @ take p l4 @ store16 ck @ drop (p + 2) l4"
  have ps: "length psd = 12" by (simp add: psd_def psd_header_def hton32_def hton16_def)
  have l: "length buf < 131070"
    using p(2) half_lt [of l4len] len by (simp add: buf_def ps store16_def)
  have e: "even (length (take p l4))" using p(1,2) by simp
  have "l4 = take p l4 @ [0, 0] @ drop (p + 2) l4"
    by (metis append_take_drop_id p(3) drop_drop add.commute)
  then have "word_sum l4 = word_sum (take p l4) + word_sum (drop (p + 2) l4)"
    using word_sum_append [OF e, of "[0, 0] @ drop (p + 2) l4"] by simp
  then have w: "word_sum buf = word_sum psd + word_sum l4 + unat ck"
    using word_sum_append [of psd] word_sum_append [OF e] by (simp add: buf_def ps)
  have v: "(word_sum psd + word_sum l4 + unat ck) mod 65535 = 0" "0 < unat ck"
    using unat_udptcp_cksum [OF len, of proto saddr daddr] by (simp_all only: psd_def ck_def)
  have "unat (raw_cksum buf) mod 65535 = 0" "unat (raw_cksum buf) \<noteq> 0" "unat (raw_cksum buf) < 65536"
    using v half_lt [of "raw_cksum buf"] by (simp_all only: raw_cksum_mod [OF l] raw_cksum_0 [OF l] w)
  then have "unat (raw_cksum buf) = 65535" by (auto simp: mod_eq_0_iff_dvd elim!: dvdE)
  then have "raw_cksum buf = 0xffff" by (simp add: word_unat_eq_iff)
  then show ?thesis by (simp only: buf_def psd_def)
qed

theorem udptcp_cksum_verifies_witness:
  "raw_cksum (psd_header 17 0x0a000001 0x0a000002 9 @ take 6 [0, 7, 0, 9, 0, 9, 0, 0, 65] @
     store16 (ipv4_udptcp_cksum 17 0x0a000001 0x0a000002 9 [0, 7, 0, 9, 0, 9, 0, 0, 65]) @
     drop 8 [0, 7, 0, 9, 0, 9, 0, 0, 65]) = 0xffff"
  using udptcp_cksum_verifies [of "[0, 7, 0, 9, 0, 9, 0, 0, 65]" 9 6 17 "0x0a000001" "0x0a000002"] by simp

end
