(* ===== verification/Tcp.thy ===== *)
theory Tcp
  imports Mbuf Chksum
begin

text \<open>
  TCP connections: their state (\<open>runtime/net/tcp.h\<close>, \<open>inc/net/tcp.h\<close>) and the egress path
  (\<open>runtime/net/tcp_out.c\<close>).

  A connection carries the outside world of its calls: the buffers that the coming calls of
  \<open>net_tx_alloc_mbuf\<close> find (or do not find) in the transmit pool, the results of the coming calls
  of \<open>net_tx_ip\<close>, and a log of effects: packets accepted by the IP layer, threads made ready,
  buffers released. \<open>net_tx_ip\<close> prepends its headers to the buffer it is given; a buffer that TCP
  keeps is modelled without them, since TCP reads only the part from \<open>transport_off\<close> to the end.
  The current time is an argument. Assertions are checked, as in the debug build. A call runs
  with the connection's lock held where the code holds it, and what the code defers until
  after the lock is released is part of the same call.
\<close>

subsection \<open>Headers and options\<close>

record tcp_hdr =
  sport :: u16
  dport :: u16
  hseq :: u32
  hack :: u32
  hoff :: u8
  hflags :: u8
  hwin :: u16
  hsum :: u16

definition TCP_FIN :: u8 where "TCP_FIN = 0x01"
definition TCP_SYN :: u8 where "TCP_SYN = 0x02"
definition TCP_RST :: u8 where "TCP_RST = 0x04"
definition TCP_PUSH :: u8 where "TCP_PUSH = 0x08"
definition TCP_ACK :: u8 where "TCP_ACK = 0x10"
definition TCP_URG :: u8 where "TCP_URG = 0x20"

lemmas tcp_flag_defs = TCP_FIN_def TCP_SYN_def TCP_RST_def TCP_PUSH_def TCP_ACK_def TCP_URG_def

definition has :: "u8 \<Rightarrow> u8 \<Rightarrow> bool" where
  "has flags f \<longleftrightarrow> flags AND f \<noteq> 0"

text \<open>
  The 20 bytes of a header as they are written over \<open>old\<close>: the unused half of the byte of the data
  offset and the urgent pointer keep what was there. The checksum is stored as it is.
\<close>

definition tcp_hdr_bytes :: "tcp_hdr \<Rightarrow> u8 list \<Rightarrow> u8 list" where
  "tcp_hdr_bytes h old =
     hton16 (sport h) @ hton16 (dport h) @ hton32 (hseq h) @ hton32 (hack h) @
     [push_bit 4 (hoff h) OR take_bit 4 (old ! 12), hflags h] @ hton16 (hwin h) @ store16 (hsum h) @ drop 18 old"

definition tcp_hdr_of :: "u8 list \<Rightarrow> tcp_hdr" where
  "tcp_hdr_of bs =
     \<lparr>sport = ntoh16 bs, dport = ntoh16 (drop 2 bs), hseq = ntoh32 (drop 4 bs), hack = ntoh32 (drop 8 bs),
      hoff = drop_bit 4 (bs ! 12), hflags = bs ! 13, hwin = ntoh16 (drop 14 bs), hsum = load16 (bs ! 16) (bs ! 17)\<rparr>"

definition TCP_OPT_EOL :: u8 where "TCP_OPT_EOL = 0"
definition TCP_OPT_NOP :: u8 where "TCP_OPT_NOP = 1"
definition TCP_OPT_MSS :: u8 where "TCP_OPT_MSS = 2"
definition TCP_OPT_WSCALE :: u8 where "TCP_OPT_WSCALE = 3"
definition TCP_OLEN_MSS :: u8 where "TCP_OLEN_MSS = 4"
definition TCP_OLEN_WSCALE :: u8 where "TCP_OLEN_WSCALE = 3"

text \<open>The bits of \<open>opt_en\<close> are the first two fields.\<close>

record tcp_options =
  en_mss :: bool
  en_wscale :: bool
  omss :: u16
  owscale :: u8

subsection \<open>Connections\<close>

datatype tcp_state =
  SYN_SENT | SYN_RECEIVED | ESTABLISHED | FIN_WAIT1 | FIN_WAIT2 | CLOSE_WAIT | CLOSING | LAST_ACK | TIME_WAIT | CLOSED

primrec state_num :: "tcp_state \<Rightarrow> nat" where
  "state_num SYN_SENT = 0"
| "state_num SYN_RECEIVED = 1"
| "state_num ESTABLISHED = 2"
| "state_num FIN_WAIT1 = 3"
| "state_num FIN_WAIT2 = 4"
| "state_num CLOSE_WAIT = 5"
| "state_num CLOSING = 6"
| "state_num LAST_ACK = 7"
| "state_num TIME_WAIT = 8"
| "state_num CLOSED = 9"

text \<open>States are compared by their position in the enumeration.\<close>

instantiation tcp_state :: linorder
begin

definition less_eq_tcp_state :: "tcp_state \<Rightarrow> tcp_state \<Rightarrow> bool" where
  "s \<le> t \<longleftrightarrow> state_num s \<le> state_num t"

definition less_tcp_state :: "tcp_state \<Rightarrow> tcp_state \<Rightarrow> bool" where
  "s < t \<longleftrightarrow> state_num s < state_num t"

instance
proof
  fix s t :: tcp_state
  show "s \<le> t \<Longrightarrow> t \<le> s \<Longrightarrow> s = t" by (cases s; cases t) (simp_all add: less_eq_tcp_state_def)
qed (auto simp: less_eq_tcp_state_def less_tcp_state_def)

end

lemmas tcp_state_order = less_eq_tcp_state_def less_tcp_state_def

record tcp_pcb =
  state :: tcp_state
  snd_una :: u32
  snd_nxt :: u32
  snd_wnd :: u32
  snd_wl1 :: u32
  snd_wl2 :: u32
  iss :: u32
  snd_wscale :: u32
  snd_mss :: u32
  rcv_nxt :: u32
  rcv_wnd :: u32
  irs :: u32
  rcv_wscale :: u32
  rcv_mss :: u32

text \<open>
  An address is an IP address and a port. \<open>Release\<close> is a call of \<open>mbuf_free\<close>.
\<close>

type_synonym netaddr = "u32 \<times> u16"

datatype effect =
  Tx u32 mbuf
| Ready tid
| Release mbuf
| Destroy
| Spawn_retransmit

record world =
  mtu :: u32
  directpath :: bool
  bufs :: "mbuf option list"
  txrets :: "int list"
  log :: "effect list"

record tcpconn =
  pcb :: tcp_pcb
  laddr :: netaddr
  raddr :: netaddr
  nonblocking :: bool
  cref :: u32
  err :: int
  winmax :: u32
  rx_closed :: bool
  rx_exclusive :: bool
  rx_wq :: "tid list"
  rxq_ooo_len :: u32
  rxq_ooo :: "mbuf list"
  rxq :: "mbuf list"
  tx_closed :: bool
  tx_exclusive :: bool
  tx_wq :: "tid list"
  tx_last_ack :: u32
  tx_last_win :: u32
  tx_pending :: "mbuf option"
  txq :: "mbuf list"
  do_fast_retransmit :: bool
  fast_retransmit_last_ack :: u32
  next_timeout :: u64
  ack_ts :: u64
  zero_wnd_ts :: u64
  time_wait_ts :: u64
  zero_wnd :: bool
  ack_delayed :: bool
  rep_acks :: int
  acks_delayed_cnt :: int
  wd :: world

abbreviation upd_pcb :: "(tcp_pcb \<Rightarrow> tcp_pcb) \<Rightarrow> tcpconn \<Rightarrow> tcpconn" where
  "upd_pcb f c \<equiv> c\<lparr>pcb := f (pcb c)\<rparr>"

definition ENOMEM :: int where "ENOMEM = 12"
definition ENOBUFS :: int where "ENOBUFS = 105"
definition OLFLAG_TCP_CHKSUM :: u32 where "OLFLAG_TCP_CHKSUM = 2"
definition MBUF_DEFAULT_HEADROOM :: nat where "MBUF_DEFAULT_HEADROOM = 128"
definition TCP_HDR_LEN :: nat where "TCP_HDR_LEN = 20"

definition assert_that :: "bool \<Rightarrow> unit exec" where
  "assert_that P = (if P then Inr () else Inl Bug_on)"

definition emit :: "effect list \<Rightarrow> world \<Rightarrow> world" where
  "emit es w = w\<lparr>log := log w @ es\<rparr>"

abbreviation emit_c :: "effect list \<Rightarrow> tcpconn \<Rightarrow> tcpconn" where
  "emit_c es c \<equiv> c\<lparr>wd := emit es (wd c)\<rparr>"

text \<open>A transmit pool of which nothing is known any more is empty.\<close>

definition net_tx_alloc_mbuf :: "world \<Rightarrow> (mbuf option \<times> world) exec" where
  "net_tx_alloc_mbuf w =
     (case bufs w of
        [] \<Rightarrow> Inr (None, w)
      | None # bs \<Rightarrow> Inr (None, w\<lparr>bufs := bs\<rparr>)
      | Some m # bs \<Rightarrow>
          bind_exec (mbuf_init (bytes m) (unat (mtu w)) MBUF_DEFAULT_HEADROOM m) (\<lambda>m.
            Inr (Some (m\<lparr>txflags := 0\<rparr>), w\<lparr>bufs := bs\<rparr>)))"

definition net_tx_ip :: "u32 \<Rightarrow> mbuf \<Rightarrow> world \<Rightarrow> int \<times> world" where
  "net_tx_ip daddr m w =
     (case txrets w of
        [] \<Rightarrow> (0, emit [Tx daddr m] w)
      | r # rs \<Rightarrow> (r, let w = w\<lparr>txrets := rs\<rparr> in if r = 0 then emit [Tx daddr m] w else w))"

definition tcp_is_snd_full :: "tcpconn \<Rightarrow> bool" where
  "tcp_is_snd_full c \<longleftrightarrow> wraps_lte (snd_una (pcb c) + snd_wnd (pcb c)) (snd_nxt (pcb c))"

definition tcp_calculate_mss :: "u32 \<Rightarrow> u32" where
  "tcp_calculate_mss m = m - 20 - 20"

subsection \<open>Sending control packets\<close>

definition IPPROTO_TCP :: u8 where "IPPROTO_TCP = 6"

definition tcp_hdr_chksum :: "bool \<Rightarrow> u32 \<Rightarrow> u32 \<Rightarrow> u16 \<Rightarrow> u16" where
  "tcp_hdr_chksum direct local_ip remote_ip len =
     (if direct then 0 else ipv4_phdr_cksum IPPROTO_TCP local_ip remote_ip len)"

text \<open>Make room for \<open>n\<close> bytes at the front and write them, given what was there.\<close>

definition push_hdr :: "mbuf \<Rightarrow> nat \<Rightarrow> (u8 list \<Rightarrow> u8 list) \<Rightarrow> mbuf exec" where
  "push_hdr m n f =
     bind_exec (mbuf_push m n) (\<lambda>m.
       if doff m + n > length (bytes m) then Inl Out_of_bounds
       else write_at m (doff m) (f (take n (drop (doff m) (bytes m)))))"

definition tcp_push_tcphdr :: "mbuf \<Rightarrow> tcpconn \<Rightarrow> u8 \<Rightarrow> u8 \<Rightarrow> u16 \<Rightarrow> (mbuf \<times> tcpconn) exec" where
  "tcp_push_tcphdr m c flags off l4len =
     (let ack = rcv_nxt (pcb c); win = rcv_wnd (pcb c);
          c = c\<lparr>tx_last_ack := ack, tx_last_win := win\<rparr>;
          h = \<lparr>sport = snd (laddr c), dport = snd (raddr c), hseq = seg_seq m, hack = ack, hoff = off, hflags = flags,
               hwin = ucast (drop_bit (unat (rcv_wscale (pcb c))) win),
               hsum = tcp_hdr_chksum (directpath (wd c)) (fst (laddr c)) (fst (raddr c)) (ucast off * 4 + l4len)\<rparr>
      in bind_exec (push_hdr m TCP_HDR_LEN (tcp_hdr_bytes h)) (\<lambda>m. Inr (mbuf_mark_transport_offset m, c)))"

definition tx_raw :: "netaddr \<Rightarrow> netaddr \<Rightarrow> u32 \<Rightarrow> u32 \<Rightarrow> u8 \<Rightarrow> world \<Rightarrow> (int \<times> world) exec" where
  "tx_raw l r sq ak flags w =
     bind_exec (net_tx_alloc_mbuf w) (\<lambda>(mo, w).
       case mo of
         None \<Rightarrow> Inr (- ENOMEM, w)
       | Some m \<Rightarrow>
           let m = m\<lparr>txflags := OLFLAG_TCP_CHKSUM\<rparr>;
               h = \<lparr>sport = snd l, dport = snd r, hseq = sq, hack = ak, hoff = 5, hflags = flags, hwin = 0,
                    hsum = tcp_hdr_chksum (directpath w) (fst l) (fst r) 0\<rparr>
           in bind_exec (push_hdr m TCP_HDR_LEN (tcp_hdr_bytes h)) (\<lambda>m.
                let (ret, w) = net_tx_ip (fst r) m w
                in Inr (ret, if ret \<noteq> 0 then emit [Release m] w else w)))"

definition tcp_tx_raw_rst :: "netaddr \<Rightarrow> netaddr \<Rightarrow> u32 \<Rightarrow> world \<Rightarrow> (int \<times> world) exec" where
  "tcp_tx_raw_rst l r sq w = tx_raw l r sq 0 TCP_RST w"

definition tcp_tx_raw_rst_ack :: "netaddr \<Rightarrow> netaddr \<Rightarrow> u32 \<Rightarrow> u32 \<Rightarrow> world \<Rightarrow> (int \<times> world) exec" where
  "tcp_tx_raw_rst_ack l r sq ak w = tx_raw l r sq ak (TCP_RST OR TCP_ACK) w"

definition tx_empty :: "u32 \<Rightarrow> tcpconn \<Rightarrow> (int \<times> tcpconn) exec" where
  "tx_empty sq c =
     bind_exec (net_tx_alloc_mbuf (wd c)) (\<lambda>(mo, w).
       let c = c\<lparr>wd := w\<rparr>
       in case mo of
            None \<Rightarrow> Inr (- ENOMEM, c)
          | Some m \<Rightarrow>
              bind_exec (tcp_push_tcphdr (m\<lparr>txflags := OLFLAG_TCP_CHKSUM, seg_seq := sq\<rparr>) c TCP_ACK 5 0) (\<lambda>(m, c).
                let (ret, w) = net_tx_ip (fst (raddr c)) m (wd c)
                in Inr (ret, c\<lparr>wd := if ret \<noteq> 0 then emit [Release m] w else w\<rparr>)))"

definition tcp_tx_ack :: "tcpconn \<Rightarrow> (int \<times> tcpconn) exec" where
  "tcp_tx_ack c = tx_empty (snd_nxt (pcb c)) c"

definition tcp_tx_probe_window :: "tcpconn \<Rightarrow> (int \<times> tcpconn) exec" where
  "tcp_tx_probe_window c = tx_empty (snd_una (pcb c) - 1) c"

definition tcp_push_options :: "mbuf \<Rightarrow> tcp_options \<Rightarrow> (u8 \<times> mbuf) exec" where
  "tcp_push_options m opts =
     bind_exec (if en_wscale opts
                then bind_exec (push_bytes m [TCP_OPT_NOP, TCP_OPT_WSCALE, TCP_OLEN_WSCALE, owscale opts]) (\<lambda>m. Inr (1, m))
                else Inr (0, m)) (\<lambda>(len, m).
       if en_mss opts
       then bind_exec (push_bytes m ([TCP_OPT_MSS, TCP_OLEN_MSS] @ hton16 (omss opts))) (\<lambda>m. Inr (len + 1, m))
       else Inr (len, m))"

definition tcp_tx_ctl :: "u64 \<Rightarrow> tcpconn \<Rightarrow> u8 \<Rightarrow> tcp_options option \<Rightarrow> (int \<times> tcpconn) exec" where
  "tcp_tx_ctl now c flags opts =
     bind_exec (net_tx_alloc_mbuf (wd c)) (\<lambda>(mo, w).
       let c = c\<lparr>wd := w\<rparr>
       in case mo of
            None \<Rightarrow> Inr (- ENOMEM, c)
          | Some m \<Rightarrow>
              let m = m\<lparr>txflags := OLFLAG_TCP_CHKSUM, seg_seq := snd_nxt (pcb c), seg_end := snd_nxt (pcb c) + 1, mflags := flags\<rparr>
              in bind_exec (case opts of None \<Rightarrow> Inr (0, m) | Some os \<Rightarrow> tcp_push_options m os) (\<lambda>(n, m).
                 bind_exec (tcp_push_tcphdr m c flags (5 + n) 0) (\<lambda>(m, c).
                   let c = upd_pcb (\<lambda>p. p\<lparr>snd_nxt := snd_nxt p + 1\<rparr>) c;
                       m = m\<lparr>timestamp := now, mref := 2\<rparr>;
                       (ret, w) = net_tx_ip (fst (raddr c)) m (wd c);
                       m = (if ret \<noteq> 0 then m\<lparr>mref := 1\<rparr> else m)
                   in Inr (ret, c\<lparr>wd := w, txq := txq c @ [m]\<rparr>))))"

subsection \<open>Sending data\<close>

text \<open>
  One turn of the segmenter: no buffer, the data kept in a pending buffer, or a segment sent with
  the result of \<open>net_tx_ip\<close>. The number is that of the bytes of the data it took.
\<close>

datatype seg_result = No_buffer | Kept nat | Sent nat int

definition seg_begin :: "tcpconn \<Rightarrow> nat \<Rightarrow> ((nat \<times> mbuf) option \<times> tcpconn) exec" where
  "seg_begin c len =
     (let mss = snd_mss (pcb c)
      in case tx_pending c of
           Some m \<Rightarrow>
             let seglen = min len (unat (mss - of_nat (mbuf_length m)))
             in Inr (Some (seglen, m\<lparr>seg_end := seg_end m + of_nat seglen\<rparr>), c\<lparr>tx_pending := None\<rparr>)
         | None \<Rightarrow>
             bind_exec (net_tx_alloc_mbuf (wd c)) (\<lambda>(mo, w).
               let c = c\<lparr>wd := w\<rparr>; seglen = min len (unat mss)
               in Inr (map_option (\<lambda>m. (seglen, m\<lparr>seg_seq := snd_nxt (pcb c), seg_end := snd_nxt (pcb c) + of_nat seglen,
                        mflags := TCP_ACK, mref := 2\<rparr>)) mo, c)))"

definition seg_transmit :: "u64 \<Rightarrow> tcpconn \<Rightarrow> mbuf \<Rightarrow> (int \<times> tcpconn) exec" where
  "seg_transmit now c m =
     bind_exec (tcp_push_tcphdr m c (mflags m) 5 (ucast (seg_end m - seg_seq m))) (\<lambda>(m, c).
       let m = m\<lparr>timestamp := now, txflags := OLFLAG_TCP_CHKSUM\<rparr>;
           (ret, w) = net_tx_ip (fst (raddr c)) m (wd c);
           m = (if ret \<noteq> 0 then m\<lparr>mref := 1\<rparr> else m)
       in Inr (ret, c\<lparr>wd := w, txq := txq c @ [m]\<rparr>))"

definition tx_send_seg :: "u64 \<Rightarrow> tcpconn \<Rightarrow> u8 list \<Rightarrow> bool \<Rightarrow> (seg_result \<times> tcpconn) exec" where
  "tx_send_seg now c data push =
     bind_exec (seg_begin c (length data)) (\<lambda>(sm, c).
       case sm of
         None \<Rightarrow> Inr (No_buffer, c)
       | Some (seglen, m) \<Rightarrow>
           bind_exec (put_bytes m (take seglen data)) (\<lambda>m.
             let c = upd_pcb (\<lambda>p. p\<lparr>snd_nxt := snd_nxt p + of_nat seglen\<rparr>) c;
                 last = (seglen = length data)
             in if \<not> push \<and> last \<and> (of_nat (mbuf_length m) - 20 :: u64) < ucast (snd_mss (pcb c))
                then Inr (Kept seglen, c\<lparr>tx_pending := Some m\<rparr>)
                else let m = (if push \<and> last then m\<lparr>mflags := mflags m OR TCP_PUSH\<rparr> else m)
                     in bind_exec (seg_transmit now c m) (\<lambda>(ret, c). Inr (Sent seglen ret, c))))"

text \<open>Every turn uses up the pending buffer or one of the buffers to come.\<close>

definition bufs_left :: "tcpconn \<Rightarrow> nat" where
  "bufs_left c = length (bufs (wd c)) + (case tx_pending c of None \<Rightarrow> 0 | Some _ \<Rightarrow> 1)"

lemma bind_exec_InrE:
  assumes "bind_exec e f = Inr y"
  obtains x where "e = Inr x" "f x = Inr y"
  using assms by (cases e) (auto simp: bind_exec_eq_Inr)

lemma net_tx_ip_keeps [simp]:
  "bufs (snd (net_tx_ip d m w)) = bufs w" "mtu (snd (net_tx_ip d m w)) = mtu w"
  "directpath (snd (net_tx_ip d m w)) = directpath w"
  by (auto simp: net_tx_ip_def emit_def Let_def split: list.splits)

lemma tcp_push_tcphdr_keeps:
  "tcp_push_tcphdr m c fl off l = Inr (m', c') \<Longrightarrow>
   c' = c\<lparr>tx_last_ack := rcv_nxt (pcb c), tx_last_win := rcv_wnd (pcb c)\<rparr>"
  by (auto simp: tcp_push_tcphdr_def Let_def elim!: bind_exec_InrE)

lemma seg_transmit_keeps:
  assumes "seg_transmit now c m = Inr (ret, c')"
  shows "bufs (wd c') = bufs (wd c) \<and> tx_pending c' = tx_pending c \<and> pcb c' = pcb c"
  using assms
  by (auto simp: seg_transmit_def Let_def split: prod.splits dest!: tcp_push_tcphdr_keeps elim!: bind_exec_InrE)
     (metis net_tx_ip_keeps(1) snd_conv)+

lemma seg_begin_uses:
  assumes "seg_begin c n = Inr (Some (l, m), c')"
  shows "bufs_left c' < bufs_left c" "tx_pending c' = None"
  using assms
  by (auto simp: seg_begin_def bufs_left_def net_tx_alloc_mbuf_def Let_def
      split: option.splits list.splits elim!: bind_exec_InrE)

lemma tx_send_seg_uses:
  assumes "tx_send_seg now c data push = Inr (Sent n ret, c')"
  shows "bufs_left c' < bufs_left c"
proof -
  obtain sm c1 where b: "seg_begin c (length data) = Inr (sm, c1)"
    using assms by (auto simp: tx_send_seg_def elim!: bind_exec_InrE)
  with assms obtain l m where "sm = Some (l, m)"
    by (cases sm) (auto simp: tx_send_seg_def)
  with b have s: "bufs_left c1 < bufs_left c" "tx_pending c1 = None" using seg_begin_uses by blast+
  have "bufs_left c' = bufs_left c1"
    using assms b s(2) \<open>sm = _\<close>
    by (auto simp: tx_send_seg_def bufs_left_def Let_def dest!: seg_transmit_keeps elim!: bind_exec_InrE split: if_splits)
  with s show ?thesis by simp
qed

function tx_send_loop :: "u64 \<Rightarrow> tcpconn \<Rightarrow> u8 list \<Rightarrow> bool \<Rightarrow> nat \<Rightarrow> int \<Rightarrow> (int \<times> tcpconn) exec" where
  "tx_send_loop now c data push dn ret =
     (case tx_send_seg now c data push of
        Inl e \<Rightarrow> Inl e
      | Inr (No_buffer, c) \<Rightarrow> Inr (if dn > 0 then int dn else - ENOBUFS, c)
      | Inr (Kept n, c) \<Rightarrow> Inr (if dn + n > 0 then int (dn + n) else ret, c)
      | Inr (Sent n r, c) \<Rightarrow>
          (if n < length data then tx_send_loop now c (drop n data) push (dn + n) r
           else Inr (if dn + n > 0 then int (dn + n) else r, c)))"
  by pat_completeness auto
termination
  by (relation "measure (\<lambda>(_, c, _). bufs_left c)") (auto dest: tx_send_seg_uses)

definition tcp_tx_send :: "u64 \<Rightarrow> tcpconn \<Rightarrow> u8 list \<Rightarrow> bool \<Rightarrow> (int \<times> tcpconn) exec" where
  "tcp_tx_send now c data push =
     bind_exec (assert_that (state (pcb c) \<ge> ESTABLISHED)) (\<lambda>_. tx_send_loop now c data push 0 0)"

subsection \<open>Retransmission\<close>

definition TCP_RETRANSMIT_TIMEOUT :: u64 where "TCP_RETRANSMIT_TIMEOUT = 300 * 1000"
definition TCP_RETRANSMIT_BATCH :: nat where "TCP_RETRANSMIT_BATCH = 16"

text \<open>
  The packet to send: a copy if the device still has the buffer, otherwise the buffer itself
  (the flag is true). No result means that there is no buffer for the copy.
\<close>

definition retransmit_prepare :: "tcpconn \<Rightarrow> mbuf \<Rightarrow> u8 \<Rightarrow> u16 \<Rightarrow> ((bool \<times> mbuf) option \<times> tcpconn) exec" where
  "retransmit_prepare c m opts_len l4len =
     (if mref m \<noteq> 1
      then bind_exec (net_tx_alloc_mbuf (wd c)) (\<lambda>(mo, w).
             let c = c\<lparr>wd := w\<rparr>;
                 from = transport_off m + TCP_HDR_LEN;
                 n = 4 * unat opts_len + unat l4len
             in case mo of
                  None \<Rightarrow> Inr (None, c)
                | Some newm \<Rightarrow>
                    if from + n > length (bytes m) then Inl Out_of_bounds
                    else bind_exec (put_bytes newm (take n (drop from (bytes m)))) (\<lambda>newm.
                           Inr (Some (False, newm\<lparr>mflags := mflags m, seg_seq := seg_seq m, seg_end := seg_end m,
                                 txflags := OLFLAG_TCP_CHKSUM\<rparr>), c)))
      else bind_exec (mbuf_reset m (transport_off m + TCP_HDR_LEN)) (\<lambda>m. Inr (Some (True, m\<lparr>mref := 2\<rparr>), c)))"

definition tx_l4len :: "mbuf \<Rightarrow> u16" where
  "tx_l4len m = (let l = ucast (seg_end m - seg_seq m) in if has (mflags m) (TCP_SYN OR TCP_FIN) then l - 1 else l)"

definition tx_opts_len :: "mbuf \<Rightarrow> u8" where
  "tx_opts_len m = hoff (tcp_hdr_of (drop (transport_off m) (bytes m))) - 5"

definition retransmit_clip :: "u32 \<Rightarrow> mbuf \<Rightarrow> mbuf exec" where
  "retransmit_clip una p =
     (if wraps_lt (seg_seq p) una
      then bind_exec (mbuf_pull p (unat (una - seg_seq p))) (\<lambda>(_, p). Inr (p\<lparr>seg_seq := una\<rparr>))
      else Inr p)"

definition retransmit_send :: "tcpconn \<Rightarrow> mbuf \<Rightarrow> u8 \<Rightarrow> u16 \<Rightarrow> (int \<times> mbuf \<times> tcpconn) exec" where
  "retransmit_send c p opts_len l4len =
     bind_exec (tcp_push_tcphdr p c (mflags p) (5 + opts_len) l4len) (\<lambda>(p, c).
       let (ret, w) = net_tx_ip (fst (raddr c)) p (wd c)
       in Inr (ret, p, c\<lparr>wd := if ret \<noteq> 0 then emit [Release p] w else w\<rparr>))"

text \<open>
  The results are the error, the queued buffer afterwards and the connection. A buffer that is
  released gives back the reference it took.
\<close>

definition tcp_tx_retransmit_one :: "tcpconn \<Rightarrow> mbuf \<Rightarrow> (int \<times> mbuf \<times> tcpconn) exec" where
  "tcp_tx_retransmit_one c m =
     bind_exec (retransmit_prepare c m (tx_opts_len m) (tx_l4len m)) (\<lambda>(pm, c).
       case pm of
         None \<Rightarrow> Inr (- ENOMEM, m, c)
       | Some (own, p) \<Rightarrow>
           if wraps_lte (seg_end p) (snd_una (pcb c))
           then Inr (0, if own then p\<lparr>mref := mref p - 1\<rparr> else m, emit_c [Release p] c)
           else bind_exec (retransmit_clip (snd_una (pcb c)) p) (\<lambda>p.
                bind_exec (retransmit_send c p (tx_opts_len m) (tx_l4len m)) (\<lambda>(ret, p, c).
                  Inr (ret, if own then (if ret \<noteq> 0 then p\<lparr>mref := mref p - 1\<rparr> else p) else m, c))))"

definition tcp_tx_fast_retransmit_start :: "u64 \<Rightarrow> tcpconn \<Rightarrow> mbuf option \<times> tcpconn" where
  "tcp_tx_fast_retransmit_start now c =
     (if tx_exclusive c then (None, c)
      else case txq c of
             [] \<Rightarrow> (None, c)
           | m # q \<Rightarrow> let m = m\<lparr>timestamp := now, mref := mref m + 1\<rparr> in (Some m, c\<lparr>txq := m # q\<rparr>))"

text \<open>The buffer is still the first of the queue.\<close>

definition tcp_tx_fast_retransmit_finish :: "tcpconn \<Rightarrow> mbuf option \<Rightarrow> tcpconn exec" where
  "tcp_tx_fast_retransmit_finish c mo =
     (case mo of
        None \<Rightarrow> Inr c
      | Some m \<Rightarrow>
          bind_exec (tcp_tx_retransmit_one c m) (\<lambda>(_, m, c).
            Inr (emit_c [Release m] (c\<lparr>txq := (case txq c of [] \<Rightarrow> [] | _ # q \<Rightarrow> m\<lparr>mref := mref m - 1\<rparr> # q)\<rparr>))))"

text \<open>The buffers before those still to do are in \<open>dn\<close>.\<close>

fun retransmit_loop :: "u64 \<Rightarrow> tcpconn \<Rightarrow> mbuf list \<Rightarrow> mbuf list \<Rightarrow> nat \<Rightarrow> tcpconn exec" where
  "retransmit_loop now c dn [] cnt = Inr (c\<lparr>txq := dn\<rparr>)"
| "retransmit_loop now c dn (m # ms) cnt =
     (if now - timestamp m < TCP_RETRANSMIT_TIMEOUT then Inr (c\<lparr>txq := dn @ m # ms\<rparr>)
      else if wraps_gte (snd_una (pcb c)) (seg_end m) then retransmit_loop now c (dn @ [m]) ms cnt
      else case tcp_tx_retransmit_one c (m\<lparr>timestamp := now\<rparr>) of
             Inl e \<Rightarrow> Inl e
           | Inr (ret, m, c) \<Rightarrow>
               if ret \<noteq> 0 \<or> cnt + 1 \<ge> TCP_RETRANSMIT_BATCH then Inr (c\<lparr>txq := dn @ m # ms\<rparr>)
               else retransmit_loop now c (dn @ [m]) ms (cnt + 1))"

definition tcp_tx_retransmit :: "u64 \<Rightarrow> tcpconn \<Rightarrow> tcpconn exec" where
  "tcp_tx_retransmit now c = retransmit_loop now c [] (txq c) 0"

subsection \<open>Header bytes\<close>

lemma ntoh16_hton16 [simp]: "ntoh16 (hton16 w @ bs) = w"
  by (rule bit_word_eqI) (auto simp: ntoh16_def hton16_def bit_simps disjunctive_add)

lemma ntoh32_hton32 [simp]: "ntoh32 (hton32 w @ bs) = w"
proof -
  define v :: u32 where "v = push_bit 24 (ucast (ucast (drop_bit 24 w) :: u8)) OR push_bit 16 (ucast (ucast (drop_bit 16 w) :: u8)) OR
      push_bit 8 (ucast (ucast (drop_bit 8 w) :: u8)) OR ucast (ucast w :: u8)"
  have "ntoh32 (hton32 w @ bs) = v"
    unfolding ntoh32_def hton32_def v_def
    by (simp, subst disjunctive_add, force simp: bit_simps, subst disjunctive_add, force simp: bit_simps,
        subst disjunctive_add, force simp: bit_simps, simp add: or.assoc)
  also have "v = w"
  proof (rule bit_word_eqI)
    fix n :: nat
    assume n: "n < LENGTH(32)"
    consider "n < 8" | "8 \<le> n" "n < 16" | "16 \<le> n" "n < 24" | "24 \<le> n" by linarith
    then show "bit v n = bit w n" using n by cases (auto simp: v_def bit_simps)
  qed
  finally show ?thesis .
qed

lemma load16_store16 [simp]: "load16 (store16 w ! 0) (store16 w ! 1) = w"
  by (rule bit_word_eqI) (auto simp: load16_def store16_def bit_simps disjunctive_add)

lemma length_net_bytes [simp]:
  "length (hton16 v) = 2" "length (hton32 w) = 4" "length (store16 v) = 2"
  by (simp_all add: hton16_def hton32_def store16_def)

lemma length_tcp_hdr_bytes [simp]: "length old = TCP_HDR_LEN \<Longrightarrow> length (tcp_hdr_bytes h old) = TCP_HDR_LEN"
  by (simp add: tcp_hdr_bytes_def TCP_HDR_LEN_def)

lemma off_byte: "(off :: u8) < 16 \<Longrightarrow> drop_bit 4 (push_bit 4 off OR take_bit 4 x) = off"
proof -
  assume "off < 16"
  then have "unat (take_bit 4 off) = unat off"
    by (simp only: unsigned_take_bit_eq) (simp add: take_bit_eq_mod word_less_nat_alt)
  then have "take_bit 4 off = off" by (simp only: word_unat_eq_iff)
  then have "bit off i \<Longrightarrow> i < 4" for i by (metis bit_take_bit_iff)
  then show ?thesis by (intro bit_word_eqI) (auto simp: bit_simps)
qed

lemma tcp_hdr_of_bytes:
  assumes "hoff h < 16" "length old = TCP_HDR_LEN"
  shows "tcp_hdr_of (tcp_hdr_bytes h old @ rest) = h"
proof -
  define s2 where "s2 = store16 (hsum h)"
  have s2: "s2 = [s2 ! 0, s2 ! 1]" by (simp add: s2_def store16_def)
  define bs where "bs = tcp_hdr_bytes h old @ rest"
  have e: "bs = hton16 (sport h) @ hton16 (dport h) @ hton32 (hseq h) @ hton32 (hack h) @
      [push_bit 4 (hoff h) OR take_bit 4 (old ! 12), hflags h] @ hton16 (hwin h) @ s2 @ drop 18 old @ rest"
    by (simp add: bs_def tcp_hdr_bytes_def s2_def)
  have "ntoh16 bs = sport h" "ntoh16 (drop 2 bs) = dport h" "ntoh32 (drop 4 bs) = hseq h" "ntoh32 (drop 8 bs) = hack h"
    "ntoh16 (drop 14 bs) = hwin h"
    by (simp_all add: e)
  moreover have "bs ! 12 = push_bit 4 (hoff h) OR take_bit 4 (old ! 12)" "bs ! 13 = hflags h"
    by (simp_all add: e nth_append)
  from this(1) have "drop_bit 4 (bs ! 12) = hoff h" by (simp only: off_byte [OF assms(1)])
  moreover have "bs ! 16 = s2 ! 0" "bs ! 17 = s2 ! 1"
    by (subst e, subst s2, simp add: nth_append)+
  then have "load16 (bs ! 16) (bs ! 17) = hsum h" by (simp only: s2_def load16_store16)
  ultimately show ?thesis
    using \<open>bs ! 13 = hflags h\<close> by (simp add: tcp_hdr_of_def flip: bs_def)
qed

end
