(* ===== verification/Tcp_In.thy ===== *)
theory Tcp_In
  imports Tcp
begin

text \<open>
  The ingress path of TCP (\<open>runtime/net/tcp_in.c\<close>) and the functions of \<open>runtime/net/tcp.c\<close> that it
  calls: timers, acknowledged segments, changes of state, failure, reference counts. The
  conventions are those of theory \<open>Tcp\<close>.
\<close>

subsection \<open>Timers, acknowledged segments and states\<close>

definition TCP_MIN_MSS :: u16 where "TCP_MIN_MSS = 88"
definition TCP_WIN :: u32 where "TCP_WIN = 0x1FFFF"
definition TCP_ACK_TIMEOUT :: u64 where "TCP_ACK_TIMEOUT = 10 * 1000"
definition TCP_CONNECT_TIMEOUT :: u64 where "TCP_CONNECT_TIMEOUT = 5 * 1000000"
definition TCP_OOQ_ACK_TIMEOUT :: u64 where "TCP_OOQ_ACK_TIMEOUT = 300 * 1000"
definition TCP_TIME_WAIT_TIMEOUT :: u64 where "TCP_TIME_WAIT_TIMEOUT = 1 * 1000000"
definition TCP_ZERO_WND_TIMEOUT :: u64 where "TCP_ZERO_WND_TIMEOUT = 300 * 1000"
definition TCP_FAST_RETRANSMIT_THRESH :: int where "TCP_FAST_RETRANSMIT_THRESH = 3"
definition TCP_OOO_MAX_SIZE :: u32 where "TCP_OOO_MAX_SIZE = 2048"
definition ECONNRESET :: int where "ECONNRESET = 104"
definition ETH_DEFAULT_MTU :: u32 where "ETH_DEFAULT_MTU = 1500"

text \<open>The union of \<open>time_wait_ts\<close> and \<open>attach_ts\<close> is the field \<open>time_wait_ts\<close>.\<close>

definition tcp_timer_update :: "u64 \<Rightarrow> tcpconn \<Rightarrow> tcpconn" where
  "tcp_timer_update now c =
     (let t = - 1;
          t = (if state (pcb c) = TIME_WAIT then time_wait_ts c + TCP_TIME_WAIT_TIMEOUT else t);
          t = (if state (pcb c) < ESTABLISHED then time_wait_ts c + TCP_CONNECT_TIMEOUT else t);
          t = (if ack_delayed c then min t (ack_ts c + TCP_ACK_TIMEOUT) else t);
          t = (if zero_wnd c then min t (zero_wnd_ts c + TCP_ZERO_WND_TIMEOUT) else t);
          t = (if tx_exclusive c then t
               else case txq c of [] \<Rightarrow> t | m # _ \<Rightarrow> min t (timestamp m + TCP_RETRANSMIT_TIMEOUT));
          t = (if rxq_ooo c \<noteq> [] then min t (now + TCP_OOQ_ACK_TIMEOUT) else t)
      in c\<lparr>next_timeout := t\<rparr>)"

text \<open>The first result are the buffers moved to the queue of buffers to free.\<close>

definition tcp_conn_ack :: "tcpconn \<Rightarrow> mbuf list \<times> tcpconn" where
  "tcp_conn_ack c =
     (if tx_exclusive c then ([], c)
      else let acked = (\<lambda>m. \<not> wraps_gt (seg_end m) (snd_una (pcb c)))
           in (takeWhile acked (txq c), c\<lparr>txq := dropWhile acked (txq c)\<rparr>))"

definition waitq_release_tx :: "tcpconn \<Rightarrow> tcpconn" where
  "waitq_release_tx c = emit_c (map Ready (tx_wq c)) (c\<lparr>tx_wq := []\<rparr>)"

definition waitq_release_rx :: "tcpconn \<Rightarrow> tcpconn" where
  "waitq_release_rx c = emit_c (map Ready (rx_wq c)) (c\<lparr>rx_wq := []\<rparr>)"

definition waitq_signal :: "tid list \<Rightarrow> tid option \<times> tid list" where
  "waitq_signal q = (case q of [] \<Rightarrow> (None, []) | t # q \<Rightarrow> (Some t, q))"

definition waitq_signal_finish :: "tid option \<Rightarrow> world \<Rightarrow> world" where
  "waitq_signal_finish th w = (case th of None \<Rightarrow> w | Some t \<Rightarrow> emit [Ready t] w)"

definition tcp_conn_set_state :: "u64 \<Rightarrow> tcpconn \<Rightarrow> tcp_state \<Rightarrow> tcpconn exec" where
  "tcp_conn_set_state now c st =
     bind_exec (assert_that (state (pcb c) = CLOSED \<or> state (pcb c) < st)) (\<lambda>_.
       let c = (if state (pcb c) < ESTABLISHED \<and> st \<ge> ESTABLISHED then waitq_release_tx c else c)
       in Inr (tcp_timer_update now (upd_pcb (\<lambda>p. p\<lparr>state := st\<rparr>) c)))"

definition tcp_conn_get :: "tcpconn \<Rightarrow> tcpconn exec" where
  "tcp_conn_get c = bind_exec (assert_that (0 < sint (cref c))) (\<lambda>_. Inr (c\<lparr>cref := kref_get (cref c)\<rparr>))"

definition tcp_conn_release_ref :: "tcpconn \<Rightarrow> tcpconn exec" where
  "tcp_conn_release_ref c = (if state (pcb c) \<noteq> CLOSED then Inl Bug_on else Inr (emit_c [Destroy] c))"

definition tcp_conn_put :: "tcpconn \<Rightarrow> tcpconn exec" where
  "tcp_conn_put c =
     (let (r, z) = kref_put (cref c); c = c\<lparr>cref := r\<rparr>
      in if z then tcp_conn_release_ref c else Inr c)"

definition tcp_conn_shutdown_rx :: "tcpconn \<Rightarrow> tcpconn" where
  "tcp_conn_shutdown_rx c = (if rx_closed c then c else waitq_release_rx (c\<lparr>rx_closed := True\<rparr>))"

definition mbuf_list_free :: "mbuf list \<Rightarrow> world \<Rightarrow> world" where
  "mbuf_list_free q w = emit (map Release q) w"

definition fail_egress :: "tcpconn \<Rightarrow> tcpconn" where
  "fail_egress c =
     (if tx_exclusive c then c
      else c\<lparr>wd := mbuf_list_free (txq c @ (case tx_pending c of None \<Rightarrow> [] | Some m \<Rightarrow> [m])) (wd c),
             txq := [], tx_pending := None\<rparr>)"

definition fail_ingress :: "tcpconn \<Rightarrow> tcpconn" where
  "fail_ingress c =
     (let c = (if rx_exclusive c then c else c\<lparr>wd := mbuf_list_free (rxq c) (wd c), rxq := []\<rparr>)
      in c\<lparr>wd := mbuf_list_free (rxq_ooo c) (wd c), rxq_ooo := []\<rparr>)"

definition tcp_conn_fail :: "u64 \<Rightarrow> tcpconn \<Rightarrow> int \<Rightarrow> tcpconn exec" where
  "tcp_conn_fail now c e =
     bind_exec (tcp_conn_set_state now (c\<lparr>err := e\<rparr>) CLOSED) (\<lambda>c.
       let c = tcp_conn_shutdown_rx c;
           c = (if tx_closed c then c else waitq_release_tx (c\<lparr>tx_closed := True\<rparr>))
       in tcp_conn_put (fail_ingress (fail_egress c)))"

subsection \<open>Segment text\<close>

definition is_acceptable :: "tcpconn \<Rightarrow> u32 \<Rightarrow> u32 \<Rightarrow> bool" where
  "is_acceptable c len sq =
     (let nxt = rcv_nxt (pcb c); wnd = rcv_wnd (pcb c)
      in if len = 0 \<and> wnd = 0 then sq = nxt
         else if len = 0 \<and> wnd > 0 then wraps_lte nxt sq \<and> wraps_lt sq (nxt + wnd)
         else if len > 0 \<and> wnd = 0 then False
         else (wraps_lte nxt sq \<and> wraps_lt sq (nxt + wnd)) \<or>
              (wraps_lte nxt (sq + len - 1) \<and> wraps_lt (sq + len - 1) (nxt + wnd)))"

definition send_rst :: "tcpconn \<Rightarrow> bool \<Rightarrow> u32 \<Rightarrow> u32 \<Rightarrow> u32 \<Rightarrow> tcpconn exec" where
  "send_rst c acked sq ak len =
     bind_exec (if acked then tcp_tx_raw_rst (laddr c) (raddr c) ak (wd c)
                else tcp_tx_raw_rst_ack (laddr c) (raddr c) 0 (sq + len) (wd c)) (\<lambda>(_, w). Inr (c\<lparr>wd := w\<rparr>))"

definition clip_head :: "u32 \<Rightarrow> mbuf \<Rightarrow> mbuf exec" where
  "clip_head nxt m =
     (if wraps_lt (seg_seq m) nxt
      then let len = nxt - seg_seq m
           in bind_exec (mbuf_pull m (unat len)) (\<lambda>(_, m). Inr (m\<lparr>seg_seq := seg_seq m + len\<rparr>))
      else Inr m)"

definition clip_tail :: "u32 \<Rightarrow> mbuf \<Rightarrow> mbuf exec" where
  "clip_tail edge m =
     (if wraps_lt edge (seg_end m)
      then let len = seg_end m - edge in bind_exec (mbuf_trim m (unat len)) (\<lambda>m. Inr (m\<lparr>seg_end := edge\<rparr>))
      else Inr m)"

definition tcp_rx_append_text :: "tcpconn \<Rightarrow> mbuf \<Rightarrow> tcpconn exec" where
  "tcp_rx_append_text c m =
     (let nxt = rcv_nxt (pcb c); wnd = rcv_wnd (pcb c)
      in bind_exec (assert_that (wraps_lte (seg_seq m) nxt)) (\<lambda>_.
         bind_exec (assert_that (wraps_gt (seg_end m) nxt)) (\<lambda>_.
         bind_exec (clip_head nxt m) (\<lambda>m.
         bind_exec (clip_tail (nxt + wnd) m) (\<lambda>m.
         bind_exec (assert_that (wnd \<ge> seg_end m - seg_seq m)) (\<lambda>_.
           Inr (upd_pcb (\<lambda>p. p\<lparr>rcv_nxt := seg_end m, rcv_wnd := wnd - (seg_end m - seg_seq m)\<rparr>)
                  (c\<lparr>rxq := rxq c @ [m]\<rparr>))))))))"

text \<open>
  The place of an out-of-order segment, searched from the end of the queue: \<open>rest\<close> are the
  segments not yet passed, last one first, \<open>passed\<close> those after them. No result means that the
  segment is dropped.
\<close>

fun ooo_insert :: "mbuf \<Rightarrow> mbuf list \<Rightarrow> mbuf list \<Rightarrow> mbuf list option" where
  "ooo_insert m [] passed = Some (m # passed)"
| "ooo_insert m (pos # rest) passed =
     (if wraps_gt (seg_end m) (seg_end pos) then Some (rev rest @ pos # m # passed)
      else if wraps_gte (seg_seq m) (seg_seq pos) then None
      else ooo_insert m rest (pos # passed))"

fun ooo_drain :: "tcpconn \<Rightarrow> mbuf list \<Rightarrow> bool \<Rightarrow> bool \<Rightarrow> (bool \<times> bool \<times> tcpconn) exec" where
  "ooo_drain c [] wake fin = Inr (wake, fin, c\<lparr>rxq_ooo := []\<rparr>)"
| "ooo_drain c (pos # q) wake fin =
     (if wraps_lte (seg_end pos) (rcv_nxt (pcb c))
      then ooo_drain (emit_c [Release pos] (c\<lparr>rxq_ooo_len := rxq_ooo_len c - 1\<rparr>)) q wake fin
      else if wraps_gt (seg_seq pos) (rcv_nxt (pcb c)) then Inr (wake, fin, c\<lparr>rxq_ooo := pos # q\<rparr>)
      else case tcp_rx_append_text (c\<lparr>rxq_ooo_len := rxq_ooo_len c - 1\<rparr>) pos of
             Inl e \<Rightarrow> Inl e
           | Inr c \<Rightarrow> ooo_drain c q True (fin \<or> has (mflags pos) TCP_FIN))"

text \<open>The results: whether the segment is used, whether to wake a reader, whether a FIN was received.\<close>

definition tcp_rx_text :: "tcpconn \<Rightarrow> mbuf \<Rightarrow> (bool \<times> bool \<times> bool \<times> tcpconn) exec" where
  "tcp_rx_text c m =
     (let drain = (\<lambda>c wake fin.
            bind_exec (ooo_drain c (rxq_ooo c) wake fin) (\<lambda>(wake, fin, c).
              Inr (True, wake \<or> rcv_wnd (pcb c) = 0, fin, c)))
      in if rcv_wnd (pcb c) = 0 then Inr (False, False, False, c)
         else if wraps_lte (seg_seq m) (rcv_nxt (pcb c))
         then let wake = (has (mflags m) (TCP_PUSH OR TCP_FIN) \<or> rxq c \<noteq> []);
                  fin = (wake \<and> has (mflags m) TCP_FIN)
              in bind_exec (tcp_rx_append_text c m) (\<lambda>c. drain c wake fin)
         else if rxq_ooo_len c \<ge> TCP_OOO_MAX_SIZE then Inr (False, False, False, c)
         else case ooo_insert m (rev (rxq_ooo c)) [] of
                None \<Rightarrow> Inr (False, False, False, c)
              | Some q \<Rightarrow> drain (c\<lparr>rxq_ooo := q, rxq_ooo_len := rxq_ooo_len c + 1\<rparr>) False False)"

subsection \<open>Options\<close>

text \<open>
  The loop over the options: \<open>ptr\<close> is the memory from the current position on, which goes on behind
  the options. An option of length zero makes no progress; the loop then does not end.
\<close>

partial_function (option) parse_loop :: "u8 list \<Rightarrow> int \<Rightarrow> tcp_options \<Rightarrow> tcp_options exec option" where
  "parse_loop ptr len os =
     (if len \<le> 0 then Some (Inr os)
      else case ptr of
             [] \<Rightarrow> Some (Inl Out_of_bounds)
           | opcode # ptr1 \<Rightarrow>
               if opcode = TCP_OPT_EOL then Some (Inr os)
               else if opcode = TCP_OPT_NOP then parse_loop ptr1 (len - 1) os
               else case ptr1 of
                      [] \<Rightarrow> Some (Inl Out_of_bounds)
                    | opsize # ptr2 \<Rightarrow>
                        if opcode = TCP_OPT_MSS \<and> opsize = TCP_OLEN_MSS
                        then if length ptr2 < 2 then Some (Inl Out_of_bounds)
                             else parse_loop (drop (unat opsize) ptr) (len - int (unat opsize))
                                    (os\<lparr>omss := ntoh16 ptr2, en_mss := True\<rparr>)
                        else if opcode = TCP_OPT_WSCALE \<and> opsize = TCP_OLEN_WSCALE
                        then (case ptr2 of
                                [] \<Rightarrow> Some (Inl Out_of_bounds)
                              | ws # _ \<Rightarrow> parse_loop (drop (unat opsize) ptr) (len - int (unat opsize))
                                           (os\<lparr>owscale := if ws > 14 then 14 else ws, en_wscale := True\<rparr>))
                        else parse_loop (drop (unat opsize) ptr) (len - int (unat opsize)) os)"

definition no_options :: tcp_options where
  "no_options = \<lparr>en_mss = False, en_wscale = False, omss = 0, owscale = 0\<rparr>"

definition apply_options :: "tcp_options \<Rightarrow> tcpconn \<Rightarrow> tcpconn" where
  "apply_options os c =
     (let c = upd_pcb (\<lambda>p. p\<lparr>snd_mss := min (ucast (max (omss os) TCP_MIN_MSS)) (rcv_mss p), snd_wscale := ucast (owscale os)\<rparr>) c;
          c = (if en_wscale os then c
               else let wm = min (winmax c) 0xFFFF
                    in upd_pcb (\<lambda>p. p\<lparr>rcv_wnd := wm, rcv_wscale := 0\<rparr>) (c\<lparr>winmax := wm\<rparr>))
      in if en_mss os then c else upd_pcb (\<lambda>p. p\<lparr>snd_mss := tcp_calculate_mss ETH_DEFAULT_MTU\<rparr>) c)"

definition tcp_parse_options :: "tcpconn \<Rightarrow> u8 list \<Rightarrow> int \<Rightarrow> (tcp_options \<times> tcpconn) exec option" where
  "tcp_parse_options c ptr len =
     map_option (\<lambda>r. bind_exec r (\<lambda>os. Inr (os, apply_options os c))) (parse_loop ptr len no_options)"

subsection \<open>Slow path\<close>

text \<open>What a call leaves for after the lock is released.\<close>

record rx_work =
  w_free :: "mbuf list"
  w_waiters :: "tid list"
  w_rx_th :: "tid option"
  w_retransmit :: "mbuf option"
  w_do_ack :: bool
  w_do_drop :: bool

definition rx_work0 :: rx_work where
  "rx_work0 = \<lparr>w_free = [], w_waiters = [], w_rx_th = None, w_retransmit = None, w_do_ack = False, w_do_drop = True\<rparr>"

definition rx_done :: "u64 \<Rightarrow> mbuf \<Rightarrow> rx_work \<Rightarrow> tcpconn \<Rightarrow> tcpconn exec" where
  "rx_done now m w c =
     (let c = tcp_timer_update now c;
          c = (if w_do_ack w then c\<lparr>ack_delayed := False, acks_delayed_cnt := 0\<rparr> else c);
          c = emit_c (map Ready (w_waiters w)) c;
          c = c\<lparr>wd := mbuf_list_free (w_free w) (waitq_signal_finish (w_rx_th w) (wd c))\<rparr>
      in bind_exec (tcp_tx_fast_retransmit_finish c (w_retransmit w)) (\<lambda>c.
         bind_exec (if w_do_ack w then bind_exec (tcp_tx_ack c) (\<lambda>(_, c). Inr c) else Inr c) (\<lambda>c.
           Inr (if w_do_drop w then emit_c [Release m] c else c))))"

text \<open>The options of a SYN that answers one: those it came with, with the values of this side.\<close>

definition answer_options :: "tcp_options \<Rightarrow> tcpconn \<Rightarrow> tcp_options" where
  "answer_options os c = os\<lparr>omss := ucast (rcv_mss (pcb c)), owscale := ucast (rcv_wscale (pcb c))\<rparr>"

definition rx_syn :: "u64 \<Rightarrow> tcpconn \<Rightarrow> mbuf \<Rightarrow> u32 \<Rightarrow> u32 \<Rightarrow> tcp_options \<Rightarrow> (rx_work \<times> tcpconn) exec" where
  "rx_syn now c m ak win os =
     (let (q, c) = (if has (mflags m) TCP_ACK then tcp_conn_ack (upd_pcb (\<lambda>p. p\<lparr>snd_una := ak\<rparr>) c) else ([], c));
          w = rx_work0\<lparr>w_free := q\<rparr>
      in if wraps_gt (snd_una (pcb c)) (iss (pcb c))
         then bind_exec (tcp_conn_set_state now
                (upd_pcb (\<lambda>p. p\<lparr>snd_wnd := win, snd_wl1 := seg_seq m, snd_wl2 := ak\<rparr>) c) ESTABLISHED) (\<lambda>c.
                Inr (w\<lparr>w_do_ack := True\<rparr>, c))
         else bind_exec (tcp_tx_ctl now c (TCP_SYN OR TCP_ACK) (Some (answer_options os c))) (\<lambda>(ret, c).
                if ret \<noteq> 0 then Inr (w, c)
                else bind_exec (tcp_conn_set_state now c SYN_RECEIVED) (\<lambda>c. Inr (w, c))))"

definition rx_syn_sent :: "u64 \<Rightarrow> tcpconn \<Rightarrow> mbuf \<Rightarrow> u32 \<Rightarrow> u32 \<Rightarrow> u32 \<Rightarrow> u32 \<Rightarrow> u8 list \<Rightarrow> int \<Rightarrow>
    (rx_work \<times> tcpconn) exec option" where
  "rx_syn_sent now c m ak nxt win len optp optlen =
     (let acked = has (mflags m) TCP_ACK; rst = has (mflags m) TCP_RST
      in if acked \<and> (wraps_lte ak (iss (pcb c)) \<or> wraps_gt ak nxt)
         then Some (bind_exec (send_rst c False (seg_seq m) ak len) (\<lambda>c. Inr (rx_work0, c)))
         else if acked \<and> rst \<and> wraps_lte (snd_una (pcb c)) ak \<and> wraps_lte ak nxt
         then Some (bind_exec (tcp_conn_fail now c ECONNRESET) (\<lambda>c. Inr (rx_work0, c)))
         else if \<not> acked \<and> rst then Some (Inr (rx_work0, c))
         else if has (mflags m) TCP_SYN
         then map_option (\<lambda>r. bind_exec r (\<lambda>(os, c). rx_syn now c m ak win os))
                (tcp_parse_options (upd_pcb (\<lambda>p. p\<lparr>rcv_nxt := seg_seq m + 1, irs := seg_seq m\<rparr>) c) optp optlen)
         else Some (Inr (rx_work0, c)))"

text \<open>
  The acknowledgement: whether it repeats the last one, whether the window changed, the buffers to
  free. No result means that it is for data not yet sent.
\<close>

definition rx_process_ack :: "tcpconn \<Rightarrow> u32 \<Rightarrow> u32 \<Rightarrow> u32 \<Rightarrow> u32 \<Rightarrow> (bool \<times> bool \<times> mbuf list \<times> tcpconn) option" where
  "rx_process_ack c sq ak nxt win =
     (if wraps_lte (snd_una (pcb c)) ak \<and> wraps_lte ak nxt
      then let same = (snd_una (pcb c) = ak);
               (q, c) = (if same then ([], c) else tcp_conn_ack (upd_pcb (\<lambda>p. p\<lparr>snd_una := ak\<rparr>) c));
               p = pcb c;
               newer = (wraps_lt (snd_wl1 p) sq \<or> (snd_wl1 p = sq \<and> wraps_lte (snd_wl2 p) ak));
               upd = (newer \<and> (\<not> same \<or> snd_wnd p \<le> win));
               changed = (upd \<and> (snd_wnd p \<noteq> win \<or> snd_wl2 p \<noteq> ak))
           in Some (same, changed, q,
                if upd then upd_pcb (\<lambda>p. p\<lparr>snd_wnd := win, snd_wl1 := sq, snd_wl2 := ak\<rparr>) c else c)
      else if wraps_gt ak nxt then None
      else Some (False, False, [], c))"

definition rx_dup_ack :: "u64 \<Rightarrow> tcpconn \<Rightarrow> u32 \<Rightarrow> u32 \<Rightarrow> bool \<Rightarrow> bool \<Rightarrow> mbuf option \<times> tcpconn" where
  "rx_dup_ack now c ak len same changed =
     (if same \<and> snd_una (pcb c) \<noteq> snd_nxt (pcb c) \<and> len = 0 \<and> \<not> changed
      then let c = c\<lparr>rep_acks := rep_acks c + 1\<rparr>
           in if rep_acks c \<ge> TCP_FAST_RETRANSMIT_THRESH
              then let (r, c) = (if tx_exclusive c
                                 then (None, c\<lparr>do_fast_retransmit := True, fast_retransmit_last_ack := ak\<rparr>)
                                 else tcp_tx_fast_retransmit_start now c)
                   in (r, c\<lparr>rep_acks := 0\<rparr>)
              else (None, c)
      else (None, if snd_una (pcb c) = ak then c\<lparr>rep_acks := 0\<rparr> else c))"

text \<open>The acknowledgement of our FIN; true if the connection is closed by it.\<close>

definition rx_fin_acked :: "u64 \<Rightarrow> tcpconn \<Rightarrow> u32 \<Rightarrow> (bool \<times> tcpconn) exec" where
  "rx_fin_acked now c nxt =
     (let all = (snd_una (pcb c) = nxt)
      in if state (pcb c) = FIN_WAIT1 \<and> all
         then bind_exec (tcp_conn_set_state now c FIN_WAIT2) (\<lambda>c. Inr (False, c))
         else if state (pcb c) = CLOSING \<and> all
         then bind_exec (tcp_conn_set_state now (c\<lparr>time_wait_ts := now\<rparr>) TIME_WAIT) (\<lambda>c. Inr (False, c))
         else if state (pcb c) = LAST_ACK \<and> all
         then bind_exec (tcp_conn_set_state now c CLOSED) (\<lambda>c. bind_exec (tcp_conn_put c) (\<lambda>c. Inr (True, c)))
         else Inr (False, c))"

text \<open>The text of the segment; the second result is whether a FIN was received.\<close>

definition rx_text_step :: "u64 \<Rightarrow> tcpconn \<Rightarrow> mbuf \<Rightarrow> u32 \<Rightarrow> rx_work \<Rightarrow> (rx_work \<times> bool \<times> tcpconn) exec" where
  "rx_text_step now c m len w =
     (if len > 0 \<and> (state (pcb c) = ESTABLISHED \<or> state (pcb c) = FIN_WAIT1 \<or> state (pcb c) = FIN_WAIT2)
      then bind_exec (tcp_rx_text c (m\<lparr>seg_end := seg_seq m + len\<rparr>)) (\<lambda>(used, wake, fin, c).
           bind_exec (assert_that (wake \<longrightarrow> rxq c \<noteq> [] \<and> used)) (\<lambda>_.
             let (th, c) = (if wake then (let (t, q) = waitq_signal (rx_wq c) in (t, c\<lparr>rx_wq := q\<rparr>)) else (None, c));
                 c = c\<lparr>acks_delayed_cnt := acks_delayed_cnt c + 1\<rparr>;
                 full = (acks_delayed_cnt c \<ge> 2);
                 c = (if \<not> full \<and> \<not> ack_delayed c then c\<lparr>ack_delayed := True, ack_ts := now\<rparr> else c)
             in Inr (w\<lparr>w_do_drop := \<not> used, w_rx_th := th, w_do_ack := w_do_ack w \<or> full \<or> rxq_ooo c \<noteq> []\<rparr>, fin, c)))
      else Inr (w, False, c))"

definition rx_fin :: "u64 \<Rightarrow> tcpconn \<Rightarrow> u32 \<Rightarrow> rx_work \<Rightarrow> (rx_work \<times> tcpconn) exec" where
  "rx_fin now c nxt w =
     bind_exec (assert_that (state (pcb c) \<noteq> SYN_RECEIVED)) (\<lambda>_.
       if state (pcb c) = ESTABLISHED
       then bind_exec (tcp_conn_set_state now c CLOSE_WAIT) (\<lambda>c. Inr (w, c))
       else if state (pcb c) = FIN_WAIT1
       then bind_exec (assert_that (snd_una (pcb c) \<noteq> nxt)) (\<lambda>_.
              bind_exec (tcp_conn_set_state now c CLOSING) (\<lambda>c. Inr (w, c)))
       else if state (pcb c) = FIN_WAIT2
       then bind_exec (tcp_conn_set_state now (c\<lparr>time_wait_ts := now\<rparr>) TIME_WAIT) (\<lambda>c. Inr (w\<lparr>w_do_ack := True\<rparr>, c))
       else Inr (w, c))"

text \<open>From the acknowledgement on, in a synchronised state.\<close>

definition rx_ack_and_text :: "u64 \<Rightarrow> tcpconn \<Rightarrow> mbuf \<Rightarrow> u32 \<Rightarrow> u32 \<Rightarrow> u32 \<Rightarrow> u32 \<Rightarrow> (rx_work \<times> tcpconn) exec" where
  "rx_ack_and_text now c m ak nxt win len =
     (let was_full = tcp_is_snd_full c
      in case rx_process_ack c (seg_seq m) ak nxt win of
           None \<Rightarrow> Inr (rx_work0\<lparr>w_do_ack := True\<rparr>, c)
         | Some (same, changed, q, c) \<Rightarrow>
             let (ws, c) = (if was_full \<and> \<not> tcp_is_snd_full c then (tx_wq c, c\<lparr>tx_wq := []\<rparr>) else ([], c));
                 (r, c) = rx_dup_ack now c ak len same changed;
                 w = rx_work0\<lparr>w_free := q, w_waiters := ws, w_retransmit := r\<rparr>
             in bind_exec (rx_fin_acked now c nxt) (\<lambda>(closed, c).
                  if closed then Inr (w, c)
                  else bind_exec (rx_text_step now c m len w) (\<lambda>(w, fin, c).
                         if fin then rx_fin now c nxt w else Inr (w, c))))"

definition rx_synchronized :: "u64 \<Rightarrow> tcpconn \<Rightarrow> mbuf \<Rightarrow> u32 \<Rightarrow> u32 \<Rightarrow> u32 \<Rightarrow> u32 \<Rightarrow> (rx_work \<times> tcpconn) exec" where
  "rx_synchronized now c m ak nxt win len =
     (let sq = seg_seq m; fl = mflags m
      in if \<not> is_acceptable c len sq then Inr (rx_work0\<lparr>w_do_ack := \<not> has fl TCP_RST\<rparr>, c)
         else if has fl TCP_RST then bind_exec (tcp_conn_fail now c ECONNRESET) (\<lambda>c. Inr (rx_work0, c))
         else if has fl TCP_SYN
         then bind_exec (send_rst c (has fl TCP_ACK) sq ak len) (\<lambda>c.
                bind_exec (tcp_conn_fail now c ECONNRESET) (\<lambda>c. Inr (rx_work0, c)))
         else if \<not> has fl TCP_ACK then Inr (rx_work0, c)
         else if state (pcb c) = SYN_RECEIVED
         then if \<not> (wraps_lte (snd_una (pcb c)) ak \<and> wraps_lte ak nxt)
              then bind_exec (send_rst c True sq ak len) (\<lambda>c. Inr (rx_work0, c))
              else bind_exec (tcp_conn_set_state now
                     (upd_pcb (\<lambda>p. p\<lparr>snd_wnd := win, snd_wl1 := sq, snd_wl2 := ak\<rparr>) c) ESTABLISHED) (\<lambda>c.
                     rx_ack_and_text now c m ak nxt win len)
         else rx_ack_and_text now c m ak nxt win len)"

definition tcp_rx_conn_slow :: "u64 \<Rightarrow> tcpconn \<Rightarrow> mbuf \<Rightarrow> u32 \<Rightarrow> u32 \<Rightarrow> u32 \<Rightarrow> u8 list \<Rightarrow> int \<Rightarrow> tcpconn exec option" where
  "tcp_rx_conn_slow now c m ak nxt win optp optlen =
     (let len = seg_end m - seg_seq m;
          len = (if has (mflags m) TCP_FIN then len + 1 else len);
          r = (if state (pcb c) = CLOSED
               then Some (if has (mflags m) TCP_RST then Inr (rx_work0, c)
                          else bind_exec (send_rst c False (seg_seq m) ak len) (\<lambda>c. Inr (rx_work0, c)))
               else if state (pcb c) = SYN_SENT then rx_syn_sent now c m ak nxt win len optp optlen
               else Some (rx_synchronized now c m ak nxt win len))
      in map_option (\<lambda>r. bind_exec r (\<lambda>(w, c). rx_done now m w c)) r)"

subsection \<open>Fast path\<close>

definition TCP_SLOWPATH_FLAGS :: u8 where
  "TCP_SLOWPATH_FLAGS = TCP_FIN OR TCP_RST OR TCP_URG"

text \<open>The fields of the IP header that are used, at the network offset.\<close>

definition ip_len :: "mbuf \<Rightarrow> u16" where
  "ip_len m = ntoh16 (drop (network_off m + 2) (bytes m))"

definition ip_saddr :: "mbuf \<Rightarrow> u32" where
  "ip_saddr m = ntoh32 (drop (network_off m + 12) (bytes m))"

definition ip_daddr :: "mbuf \<Rightarrow> u32" where
  "ip_daddr m = ntoh32 (drop (network_off m + 16) (bytes m))"

definition fast_ack :: "tcpconn \<Rightarrow> u32 \<Rightarrow> u32 \<Rightarrow> u32 \<Rightarrow> mbuf list \<times> tcpconn" where
  "fast_ack c sq ak win =
     (if wraps_lte (snd_una (pcb c)) ak
      then let (q, c) = (if snd_una (pcb c) \<noteq> ak
                         then tcp_conn_ack (upd_pcb (\<lambda>p. p\<lparr>snd_una := ak\<rparr>) (c\<lparr>rep_acks := 0\<rparr>)) else ([], c));
               p = pcb c
           in (q, if wraps_lt (snd_wl1 p) sq \<or> (snd_wl1 p = sq \<and> wraps_lte (snd_wl2 p) ak)
                  then upd_pcb (\<lambda>p. p\<lparr>snd_wnd := win, snd_wl1 := sq, snd_wl2 := ak\<rparr>) (c\<lparr>rep_acks := 0\<rparr>)
                  else c)
      else ([], c))"

definition tcp_rx_conn_fast :: "u64 \<Rightarrow> tcpconn \<Rightarrow> mbuf \<Rightarrow> u32 \<Rightarrow> u32 \<Rightarrow> u32 \<Rightarrow> tcpconn exec" where
  "tcp_rx_conn_fast now c m ak win len =
     (let (q, c) = fast_ack c (seg_seq m) ak win;
          c = upd_pcb (\<lambda>p. p\<lparr>rcv_nxt := seg_end m, rcv_wnd := rcv_wnd p - len\<rparr>) c;
          (th, c) = (if rxq c \<noteq> [] \<or> has (mflags m) TCP_PUSH
                     then (let (t, rq) = waitq_signal (rx_wq c) in (t, c\<lparr>rx_wq := rq\<rparr>)) else (None, c));
          c = c\<lparr>acks_delayed_cnt := acks_delayed_cnt c + 1\<rparr>;
          do_ack = (acks_delayed_cnt c \<ge> 2);
          c = (if do_ack then c\<lparr>ack_delayed := False, acks_delayed_cnt := 0\<rparr>
               else if \<not> ack_delayed c
               then c\<lparr>ack_ts := now, ack_delayed := True, next_timeout := min (next_timeout c) (now + TCP_ACK_TIMEOUT)\<rparr>
               else c);
          c = c\<lparr>rxq := rxq c @ [m], wd := mbuf_list_free q (waitq_signal_finish th (wd c))\<rparr>
      in if do_ack then bind_exec (tcp_tx_ack c) (\<lambda>(_, c). Inr c) else Inr c)"

definition rx_is_slow :: "tcpconn \<Rightarrow> mbuf \<Rightarrow> u32 \<Rightarrow> u32 \<Rightarrow> u32 \<Rightarrow> bool" where
  "rx_is_slow c m ak nxt len \<longleftrightarrow>
     has (mflags m) TCP_SLOWPATH_FLAGS \<or> len = 0 \<or> wraps_gt ak nxt \<or> state (pcb c) \<noteq> ESTABLISHED \<or>
     tcp_is_snd_full c \<or> seg_seq m \<noteq> rcv_nxt (pcb c) \<or> rxq_ooo c \<noteq> [] \<or> rcv_wnd (pcb c) < len"

definition tcp_rx_conn :: "u64 \<Rightarrow> tcpconn \<Rightarrow> mbuf \<Rightarrow> tcpconn exec option" where
  "tcp_rx_conn now c m =
     (let nxt = snd_nxt (pcb c);
          drop_it = (\<lambda>m. Some (Inr (emit_c [Release m] c)));
          m = mbuf_mark_transport_offset m
      in case mbuf_pull_or_null m TCP_HDR_LEN of
           None \<Rightarrow> drop_it m
         | Some (bs, m) \<Rightarrow>
             let h = tcp_hdr_of bs;
                 win = push_bit (unat (snd_wscale (pcb c))) (ucast (hwin h));
                 hdr_len = ucast (hoff h) * 4 :: u32;
                 len = ucast (ip_len m) - 20 - hdr_len;
                 optlen = unat hdr_len - TCP_HDR_LEN
             in if hdr_len < 20 then drop_it m
                else if unat len > mbuf_length m \<or> len > rcv_mss (pcb c) then drop_it m
                else let m = m\<lparr>seg_seq := hseq h, seg_end := hseq h + len, mflags := hflags h\<rparr>;
                         optp = drop (doff m) (bytes m)
                     in case mbuf_pull m optlen of
                          Inl e \<Rightarrow> Some (Inl e)
                        | Inr (_, m) \<Rightarrow>
                            if rx_is_slow c m (hack h) nxt len
                            then tcp_rx_conn_slow now c m (hack h) nxt win optp (int optlen)
                            else Some (tcp_rx_conn_fast now c m (hack h) win len))"

definition tcp_rx_closed :: "mbuf \<Rightarrow> world \<Rightarrow> world exec" where
  "tcp_rx_closed m w =
     (case mbuf_pull_or_null m TCP_HDR_LEN of
        None \<Rightarrow> Inr w
      | Some (bs, m) \<Rightarrow>
          let h = tcp_hdr_of bs;
              l = (ip_daddr m, dport h); r = (ip_saddr m, sport h)
          in if has (hflags h) TCP_RST then Inr w
             else bind_exec (if has (hflags h) TCP_ACK then tcp_tx_raw_rst l r (hack h) w
                             else tcp_tx_raw_rst_ack l r 0 (hseq h + (ucast (ip_len m) - 20 - ucast (hoff h) * 4)) w)
                    (\<lambda>(_, w). Inr w))"

end
