(* ===== verification/Tcp_Reass.thy ===== *)
theory Tcp_Reass
  imports Tcp_In
begin

text \<open>
  Reassembly of the byte stream of the peer by the ingress path of TCP. The peer sends the bytes
  \<open>st\<close>, then a FIN; the byte at position \<open>a\<close> has the sequence number \<open>seq_of isn a\<close>, which wraps around.
  The lemmas follow the code: clipping a segment, appending it, the search and the drain of the
  out-of-order queue, and \<open>tcp_rx_text\<close>.
\<close>

subsection \<open>Positions\<close>

definition seq_of :: "u32 \<Rightarrow> nat \<Rightarrow> u32" where
  "seq_of isn a = isn + of_nat a"

definition near :: "nat \<Rightarrow> nat \<Rightarrow> bool" where
  "near a b \<longleftrightarrow> a < b + 2 ^ 31 \<and> b < a + 2 ^ 31"

lemma sint_seq_diff: "near a b \<Longrightarrow> sint (seq_of isn a - seq_of isn b) = int a - int b"
proof -
  assume "near a b"
  then have r: "- (2 ^ 31) \<le> int a - int b" "int a - int b < 2 ^ 31" by (auto simp: near_def)
  have "seq_of isn a - seq_of isn b = word_of_int (int a - int b)" by (simp add: seq_of_def)
  then have "sint (seq_of isn a - seq_of isn b) = signed_take_bit 31 (int a - int b)"
    by (simp only: sint_sbintrunc') simp
  with r show ?thesis by (simp add: signed_take_bit_int_eq_self)
qed

lemma wraps_seq:
  assumes "near a b"
  shows "wraps_lt (seq_of isn a) (seq_of isn b) \<longleftrightarrow> a < b" "wraps_lte (seq_of isn a) (seq_of isn b) \<longleftrightarrow> a \<le> b"
    "wraps_gt (seq_of isn a) (seq_of isn b) \<longleftrightarrow> b < a" "wraps_gte (seq_of isn a) (seq_of isn b) \<longleftrightarrow> b \<le> a"
proof -
  have s: "near b a" using assms by (simp add: near_def)
  show "wraps_lt (seq_of isn a) (seq_of isn b) \<longleftrightarrow> a < b" "wraps_lte (seq_of isn a) (seq_of isn b) \<longleftrightarrow> a \<le> b"
    "wraps_gt (seq_of isn a) (seq_of isn b) \<longleftrightarrow> b < a" "wraps_gte (seq_of isn a) (seq_of isn b) \<longleftrightarrow> b \<le> a"
    by (auto simp: wraps_lt_def wraps_lte_def wraps_gt_def wraps_gte_def sint_seq_diff [OF assms] sint_seq_diff [OF s])
qed

lemma wraps_lt_self [simp]: "\<not> wraps_lt x x"
  by (simp add: wraps_lt_def)

lemma seq_of_add: "seq_of isn a + of_nat k = seq_of isn (a + k)"
  by (simp add: seq_of_def)

lemma seq_of_diff: "b \<le> a \<Longrightarrow> seq_of isn a - seq_of isn b = of_nat (a - b)"
  by (simp add: seq_of_def of_nat_diff)

lemma unat_small: "n < 2 ^ 32 \<Longrightarrow> unat (of_nat n :: u32) = n"
  by (simp add: unat_of_nat take_bit_nat_eq_self)

lemma unat_seq_diff: "b \<le> a \<Longrightarrow> a - b < 2 ^ 32 \<Longrightarrow> unat (seq_of isn a - seq_of isn b) = a - b"
  by (simp only: seq_of_diff unat_small)

subsection \<open>Segments of the stream\<close>

definition fin_len :: "mbuf \<Rightarrow> nat" where
  "fin_len m = (if has (mflags m) TCP_FIN then 1 else 0)"

definition seg_stop :: "nat \<Rightarrow> mbuf \<Rightarrow> nat" where
  "seg_stop a m = a + mlen m + fin_len m"

definition seg_at :: "u8 list \<Rightarrow> u32 \<Rightarrow> nat \<Rightarrow> mbuf \<Rightarrow> bool" where
  "seg_at st isn a m \<longleftrightarrow>
     mbuf_ok m \<and> seg_seq m = seq_of isn a \<and> seg_end m = seq_of isn (seg_stop a m) \<and>
     mbuf_data m = take (mlen m) (drop a st) \<and> a + mlen m \<le> length st \<and>
     (has (mflags m) TCP_FIN \<longrightarrow> a + mlen m = length st)"

lemma fin_len_le: "fin_len m \<le> 1" by (simp add: fin_len_def)

lemma seg_stop_le: "seg_at st isn a m \<Longrightarrow> seg_stop a m \<le> length st + 1"
  using fin_len_le [of m] by (auto simp: seg_at_def seg_stop_def)

lemma seg_stop_fin: "seg_at st isn a m \<Longrightarrow> seg_stop a m = length st + 1 \<longleftrightarrow> has (mflags m) TCP_FIN"
  by (auto simp: seg_at_def seg_stop_def fin_len_def)

lemma clip_head_seg:
  assumes m: "seg_at st isn a m" and n: "a \<le> n" "n < seg_stop a m" and nr: "near a n" "near n a"
  shows "\<exists>m'. clip_head (seq_of isn n) m = Inr m' \<and> seg_at st isn n m' \<and> seg_stop n m' = seg_stop a m \<and> mflags m' = mflags m"
proof (cases "a < n")
  case True
  have d: "unat (seq_of isn n - seq_of isn a) = n - a"
    using n(1) nr by (intro unat_seq_diff) (auto simp: near_def)
  have le: "n - a \<le> mlen m" using n(2) fin_len_le [of m] by (simp add: seg_stop_def)
  have ok: "mbuf_ok m" using m by (simp add: seg_at_def)
  obtain m1 where m1: "mbuf_pull m (n - a) = Inr (take (n - a) (mbuf_data m), m1)" "mbuf_ok m1"
    "mbuf_data m1 = drop (n - a) (mbuf_data m)" "mlen m1 = mlen m - (n - a)"
    using mbuf_pull_data [OF ok le] by blast
  have m1': "m1 = m\<lparr>mlen := mlen m - (n - a), doff := doff m + (n - a)\<rparr>"
    using m1(1) by (auto simp: mbuf_pull_def mbuf_pull_raw_def split: if_splits)
  define m' where "m' = m1\<lparr>seg_seq := seg_seq m1 + (seq_of isn n - seq_of isn a)\<rparr>"
  have "clip_head (seq_of isn n) m = Inr m'"
    using True m d m1(1) by (simp add: clip_head_def seg_at_def wraps_seq [OF nr(1)] Let_def m'_def m1')
  moreover have f: "fin_len m' = fin_len m" by (simp add: fin_len_def m'_def m1')
  moreover have "seg_at st isn n m' \<and> seg_stop n m' = seg_stop a m"
    using m m1(2-4) le n(1) True f
    by (auto simp: seg_at_def seg_stop_def m'_def mbuf_ok_def mbuf_data_def drop_take m1' add.commute)
  ultimately show ?thesis by (auto simp: m'_def m1')
next
  case False
  then have "a = n" using n(1) by simp
  then show ?thesis using m by (auto simp: clip_head_def seg_at_def wraps_seq [OF nr(1)])
qed

lemma clip_tail_seg:
  assumes m: "seg_at st isn n m" and e: "n \<le> edge" "near edge (seg_stop n m)"
    and fin: "has (mflags m) TCP_FIN \<longrightarrow> seg_stop n m \<le> edge"
  shows "\<exists>m'. clip_tail (seq_of isn edge) m = Inr m' \<and> seg_at st isn n m' \<and> seg_stop n m' = min (seg_stop n m) edge \<and>
    mflags m' = mflags m"
proof (cases "edge < seg_stop n m")
  case True
  then have nf: "fin_len m = 0" using fin by (auto simp: fin_len_def)
  have d: "unat (seq_of isn (seg_stop n m) - seq_of isn edge) = seg_stop n m - edge"
    using True e(2) by (intro unat_seq_diff) (auto simp: near_def)
  have le: "seg_stop n m - edge \<le> mlen m" using e(1) nf by (simp add: seg_stop_def)
  have ok: "mbuf_ok m" using m by (simp add: seg_at_def)
  define m' where "m' = m\<lparr>mlen := mlen m - (seg_stop n m - edge), seg_end := seq_of isn edge\<rparr>"
  have "clip_tail (seq_of isn edge) m = Inr m'"
    using True m d le by (simp add: clip_tail_def seg_at_def wraps_seq [OF e(2)] Let_def mbuf_trim_def m'_def)
  moreover have "seg_stop n m' = edge"
    using True e(1) nf by (auto simp: seg_stop_def m'_def fin_len_def)
  moreover have "mbuf_data m' = take (mlen m') (mbuf_data m)"
    by (simp add: mbuf_data_def m'_def)
  then have "mbuf_data m' = take (mlen m') (drop n st)"
    using m by (simp add: seg_at_def m'_def)
  then have "seg_at st isn n m'"
    using m nf \<open>seg_stop n m' = edge\<close> unfolding seg_at_def
    by (auto simp: m'_def mbuf_ok_def fin_len_def split: if_splits)
  ultimately show ?thesis using True by (auto simp: m'_def)
next
  case False
  then show ?thesis using m by (auto simp: clip_tail_def seg_at_def wraps_seq [OF e(2)])
qed

text \<open>Appending: the segment is clipped to the window and the stream goes on where it ended.\<close>

lemma tcp_rx_append_text_seg:
  fixes c :: tcpconn
  assumes c: "rcv_nxt (pcb c) = seq_of isn n" "rcv_wnd (pcb c) = of_nat (R - n)" "n \<le> R" "R - n < 2 ^ 30"
    and m: "seg_at st isn a m" "a \<le> n" "n < seg_stop a m" "n < a + 2 ^ 30" "seg_stop a m < n + 2 ^ 30"
    and fin: "has (mflags m) TCP_FIN \<longrightarrow> seg_stop a m \<le> R"
  defines "n' \<equiv> min (seg_stop a m) R"
  shows "\<exists>m'. tcp_rx_append_text c m =
      Inr (upd_pcb (\<lambda>p. p\<lparr>rcv_nxt := seq_of isn n', rcv_wnd := of_nat (R - n')\<rparr>) (c\<lparr>rxq := rxq c @ [m']\<rparr>)) \<and>
    seg_at st isn n m' \<and> seg_stop n m' = n' \<and> mflags m' = mflags m"
proof -
  have nr: "near a n" "near n a" "near (seg_stop a m) n" "near R (seg_stop a m)"
    using c(3,4) m(2-5) by (auto simp: near_def)
  have edge: "seq_of isn n + of_nat (R - n) = seq_of isn R" using c(3) by (simp only: seq_of_add) simp
  obtain m1 where m1: "clip_head (seq_of isn n) m = Inr m1" "seg_at st isn n m1" "seg_stop n m1 = seg_stop a m"
    "mflags m1 = mflags m"
    using clip_head_seg [OF m(1-3) nr(1,2)] by blast
  obtain m2 where m2: "clip_tail (seq_of isn R) m1 = Inr m2" "seg_at st isn n m2" "seg_stop n m2 = n'" "mflags m2 = mflags m"
    using clip_tail_seg [OF m1(2) c(3)] nr(4) fin m1(3,4) by (auto simp: n'_def)
  have n': "n \<le> n'" "n' \<le> R" using m(3) c(3) by (auto simp: n'_def)
  have s2: "seg_end m2 = seq_of isn n'" "seg_seq m2 = seq_of isn n" using m2(2,3) by (auto simp: seg_at_def)
  have d: "seg_end m2 - seg_seq m2 = of_nat (n' - n)" unfolding s2 by (rule seq_of_diff [OF n'(1)])
  have le: "(of_nat (n' - n) :: u32) \<le> of_nat (R - n)"
  proof -
    have "unat (of_nat (n' - n) :: u32) = n' - n" "unat (of_nat (R - n) :: u32) = R - n"
      using n' c(4) by (auto intro!: unat_small simp del: of_nat_diff)
    then show ?thesis unfolding word_le_nat_alt using n' by linarith
  qed
  have sub: "of_nat (R - n) - of_nat (n' - n) = (of_nat (R - n') :: u32)"
    using n' c(3) by (simp flip: of_nat_diff)
  have s: "seg_seq m = seq_of isn a" "seg_end m = seq_of isn (seg_stop a m)" using m(1) by (auto simp: seg_at_def)
  have as: "wraps_lte (seg_seq m) (seq_of isn n)" "wraps_gt (seg_end m) (seq_of isn n)"
    unfolding s using m(2,3) by (simp_all add: wraps_seq [OF nr(1)] wraps_seq [OF nr(3)])
  have "tcp_rx_append_text c m =
      Inr (upd_pcb (\<lambda>p. p\<lparr>rcv_nxt := seq_of isn n', rcv_wnd := of_nat (R - n')\<rparr>) (c\<lparr>rxq := rxq c @ [m2]\<rparr>))"
    unfolding tcp_rx_append_text_def Let_def c(1,2) edge
    by (simp only: as m1(1) m2(1) assert_that_def d le bind_exec_Inr if_True sub) (simp only: s2)
  with m2 show ?thesis by blast
qed

lemma stream_append:
  assumes m: "seg_at st isn n m" and r: "r \<le> n" "r \<le> length st"
  shows "drop r (take n st) @ mbuf_data m = drop r (take (seg_stop n m) st)"
proof -
  have "take (seg_stop n m) st = take (n + mlen m) st"
    using m by (auto simp: seg_at_def seg_stop_def fin_len_def)
  also have "\<dots> = take n st @ mbuf_data m" using m by (simp add: seg_at_def take_add)
  finally show ?thesis using r by simp
qed

subsection \<open>The out-of-order queue\<close>

text \<open>
  The segments with their positions: each is a part of the stream that reaches beyond \<open>lo\<close>, starts
  before the right edge \<open>R\<close> of the window and is at most \<open>L\<close> long, a FIN is in the window, and the
  queue is ordered by the ends.
\<close>

definition ooo_seg :: "u8 list \<Rightarrow> u32 \<Rightarrow> nat \<Rightarrow> nat \<Rightarrow> nat \<Rightarrow> nat \<times> mbuf \<Rightarrow> bool" where
  "ooo_seg st isn L lo R = (\<lambda>(a, m).
     seg_at st isn a m \<and> lo < seg_stop a m \<and> a < R \<and> seg_stop a m \<le> a + L \<and>
     (has (mflags m) TCP_FIN \<longrightarrow> seg_stop a m \<le> R))"

abbreviation stop_of :: "nat \<times> mbuf \<Rightarrow> nat" where
  "stop_of p \<equiv> seg_stop (fst p) (snd p)"

definition ooo_ok :: "u8 list \<Rightarrow> u32 \<Rightarrow> nat \<Rightarrow> nat \<Rightarrow> nat \<Rightarrow> (nat \<times> mbuf) list \<Rightarrow> bool" where
  "ooo_ok st isn L lo R ps \<longleftrightarrow> (\<forall>p \<in> set ps. ooo_seg st isn L lo R p) \<and> sorted (map stop_of ps)"

definition window_ok :: "nat \<Rightarrow> nat \<Rightarrow> nat \<Rightarrow> bool" where
  "window_ok L lo R \<longleftrightarrow> lo \<le> R \<and> R - lo < 2 ^ 29 \<and> L \<le> 2 ^ 28"

lemma ooo_seg_mono: "ooo_seg st isn L lo R p \<Longrightarrow> lo' < stop_of p \<Longrightarrow> R \<le> R' \<Longrightarrow> ooo_seg st isn L lo' R' p"
  by (auto simp: ooo_seg_def)

lemma ooo_ok_Cons:
  "ooo_ok st isn L lo R (p # ps) \<longleftrightarrow>
   ooo_seg st isn L lo R p \<and> (\<forall>x \<in> set ps. stop_of p \<le> stop_of x) \<and> ooo_ok st isn L lo R ps"
  by (auto simp: ooo_ok_def)

lemma ooo_near:
  assumes "window_ok L lo R" "ooo_seg st isn L lo R p" "ooo_seg st isn L lo R q"
  shows "near (stop_of p) (stop_of q)" "near (fst p) (fst q)"
  using assms by (auto simp: window_ok_def ooo_seg_def near_def)

lemma ooo_insert_split:
  assumes "window_ok L lo R" "ooo_seg st isn L lo R (a, m)" "\<forall>p \<in> set rs. ooo_seg st isn L lo R p"
    "ooo_insert m (map snd rs) passed = Some q"
  shows "\<exists>r1 r2. rs = r1 @ r2 \<and> q = rev (map snd r2) @ m # rev (map snd r1) @ passed \<and>
    (\<forall>p \<in> set r1. seg_stop a m \<le> stop_of p) \<and> (r2 \<noteq> [] \<longrightarrow> stop_of (List.hd r2) < seg_stop a m)"
  using assms(3,4)
proof (induction rs arbitrary: passed)
  case (Cons p rs)
  obtain b k where p: "p = (b, k)" by fastforce
  have nr: "near (seg_stop a m) (seg_stop b k)" "near a b"
    using ooo_near [OF assms(1,2), of p] Cons.prems(1) by (auto simp: p)
  have k: "seg_seq k = seq_of isn b" "seg_end k = seq_of isn (seg_stop b k)"
    "seg_seq m = seq_of isn a" "seg_end m = seq_of isn (seg_stop a m)"
    using Cons.prems(1) assms(2) by (auto simp: p ooo_seg_def seg_at_def)
  show ?case
  proof (cases "seg_stop b k < seg_stop a m")
    case True
    then have "q = rev (map snd rs) @ k # m # passed"
      using Cons.prems(2) by (simp add: p k wraps_seq [OF nr(1)])
    then show ?thesis using True by (intro exI [of _ "[]"] exI [of _ "p # rs"]) (simp add: p)
  next
    case False
    then have "ooo_insert m (map snd rs) (k # passed) = Some q"
      using Cons.prems(2) by (auto simp: p k wraps_seq [OF nr(1)] split: if_splits)
    then obtain r1 r2 where r: "rs = r1 @ r2" "q = rev (map snd r2) @ m # rev (map snd r1) @ k # passed"
      "\<forall>p \<in> set r1. seg_stop a m \<le> stop_of p" "r2 \<noteq> [] \<longrightarrow> stop_of (List.hd r2) < seg_stop a m"
      using Cons.IH Cons.prems(1) by (metis list.set_intros(2))
    then show ?thesis using False by (intro exI [of _ "p # r1"] exI [of _ r2]) (simp add: p)
  qed
qed simp

lemma ooo_insert_ok:
  assumes w: "window_ok L lo R" and m: "ooo_seg st isn L lo R (a, m)" and ps: "ooo_ok st isn L lo R ps"
    and i: "ooo_insert m (rev (map snd ps)) [] = Some q"
  shows "\<exists>ps'. q = map snd ps' \<and> ooo_ok st isn L lo R ps' \<and> length ps' = length ps + 1"
proof -
  have i': "ooo_insert m (map snd (rev ps)) [] = Some q" using i by (simp add: rev_map)
  have al: "\<forall>p \<in> set (rev ps). ooo_seg st isn L lo R p" using ps by (simp add: ooo_ok_def)
  obtain r1 r2 where r: "rev ps = r1 @ r2" "q = rev (map snd r2) @ m # rev (map snd r1) @ []"
    "\<forall>p \<in> set r1. seg_stop a m \<le> stop_of p" "r2 \<noteq> [] \<longrightarrow> stop_of (List.hd r2) < seg_stop a m"
    using ooo_insert_split [OF w m al i'] by blast
  have e: "ps = rev r2 @ rev r1" using r(1) by (metis rev_append rev_rev_ident)
  have "\<forall>p \<in> set r2. stop_of p \<le> seg_stop a m"
  proof (cases r2)
    case (Cons p r)
    have "sorted (map stop_of (rev r @ [p]))" using ps by (simp add: ooo_ok_def e Cons sorted_append)
    then show ?thesis using r(4) Cons by (auto simp: sorted_append intro: le_trans)
  qed simp
  then have "ooo_ok st isn L lo R (rev r2 @ (a, m) # rev r1)"
    using ps r(3) m by (auto simp: ooo_ok_def e sorted_append intro: le_trans)
  then show ?thesis
    using r(2) by (intro exI [of _ "rev r2 @ (a, m) # rev r1"]) (simp add: rev_map e)
qed

text \<open>What the ingress path changes in a connection when it takes text.\<close>

definition rx_upd :: "u32 \<Rightarrow> nat \<Rightarrow> nat \<Rightarrow> mbuf list \<Rightarrow> mbuf list \<Rightarrow> u32 \<Rightarrow> effect list \<Rightarrow> tcpconn \<Rightarrow> tcpconn" where
  "rx_upd isn n R q ooo len es c =
     c\<lparr>pcb := (pcb c)\<lparr>rcv_nxt := seq_of isn n, rcv_wnd := of_nat (R - n)\<rparr>,
       rxq := q, rxq_ooo := ooo, rxq_ooo_len := len, wd := emit es (wd c)\<rparr>"

definition rx_data :: "u8 list \<Rightarrow> nat \<Rightarrow> nat \<Rightarrow> mbuf list \<Rightarrow> bool" where
  "rx_data st r n q \<longleftrightarrow> concat (map mbuf_data q) = drop r (take n st) \<and> (\<forall>m \<in> set q. mbuf_ok m)"

lemma emit_emit [simp]: "emit es (emit es' w) = emit (es' @ es) w"
  by (simp add: emit_def)

lemma emit_Nil [simp]: "emit [] w = w"
  by (simp add: emit_def)

lemma rx_data_snoc:
  assumes "rx_data st r n q" "seg_at st isn n m" "r \<le> n" "r \<le> length st"
  shows "rx_data st r (seg_stop n m) (q @ [m])"
  using assms stream_append [OF assms(2-4)] by (auto simp: rx_data_def seg_at_def)

definition drained :: "u8 list \<Rightarrow> u32 \<Rightarrow> nat \<Rightarrow> nat \<Rightarrow> nat \<Rightarrow> nat \<Rightarrow> tcpconn \<Rightarrow> nat \<Rightarrow> bool \<Rightarrow> bool \<Rightarrow>
    (bool \<times> bool \<times> tcpconn) exec \<Rightarrow> bool" where
  "drained st isn L R r n c len0 wake fin res \<longleftrightarrow> (\<exists>wake' fin' n' ps' q es.
     res = Inr (wake', fin', rx_upd isn n' R q (map snd ps') (rxq_ooo_len c - of_nat (len0 - length ps')) es c) \<and>
     n \<le> n' \<and> n' \<le> R \<and> n' \<le> max n (length st + 1) \<and> length ps' \<le> len0 \<and> ooo_ok st isn L n' R ps' \<and>
     rx_data st r n' q \<and> (fin' \<longleftrightarrow> fin \<or> n < n' \<and> n' = length st + 1) \<and> (wake \<longrightarrow> wake') \<and> (wake' \<longrightarrow> wake \<or> q \<noteq> []) \<and>
     (rxq c \<noteq> [] \<longrightarrow> q \<noteq> []) \<and> (n < n' \<longrightarrow> wake'))"

lemma ooo_ok_raise:
  "ooo_ok st isn L lo R ps \<Longrightarrow> \<forall>p \<in> set ps. n < stop_of p \<Longrightarrow> ooo_ok st isn L n R ps"
  by (auto simp: ooo_ok_def intro: ooo_seg_mono)

lemma drained_stop:
  assumes "n \<le> R" "ooo_ok st isn L n R ps" "rx_data st r n (rxq c)"
    "rcv_nxt (pcb c) = seq_of isn n" "rcv_wnd (pcb c) = of_nat (R - n)"
  shows "drained st isn L R r n c (length ps) wake fin (Inr (wake, fin, c\<lparr>rxq_ooo := map snd ps\<rparr>))"
  unfolding drained_def using assms
  by (intro exI [of _ wake] exI [of _ fin] exI [of _ n] exI [of _ ps] exI [of _ "rxq c"] exI [of _ "[]"])
     (auto simp: rx_upd_def)

lemma fin_steps:
  fixes n n1 n' k :: nat
  assumes "n \<le> n1" "n1 \<le> n'" "n' \<le> max n1 (k + 1)"
    "fin1 \<longleftrightarrow> fin \<or> n < n1 \<and> n1 = k + 1" "fin' \<longleftrightarrow> fin1 \<or> n1 < n' \<and> n' = k + 1"
  shows "fin' \<longleftrightarrow> fin \<or> n < n' \<and> n' = k + 1"
proof -
  have "n1 = k + 1 \<Longrightarrow> n' = n1" using assms(2,3) by linarith
  moreover have "n < n' \<and> n' = k + 1 \<Longrightarrow> n < n1 \<and> n1 = k + 1 \<or> n1 < n'" using assms(1,2) by linarith
  moreover have "n1 < n' \<Longrightarrow> n < n'" using assms(1) by linarith
  ultimately show ?thesis using assms(4,5) by blast
qed

text \<open>A first step from \<open>n\<close> to \<open>n1\<close> that takes one segment off the queue, before the rest.\<close>

lemma drained_step:
  assumes d: "drained st isn L R r n1 c1 len0 wake1 fin1 res"
    and c1: "c1 = rx_upd isn n1 R q1 ooo1 (rxq_ooo_len c - 1) es1 c"
    and n1: "n \<le> n1" "n1 \<le> max n (length st + 1)"
    and fl: "fin1 \<longleftrightarrow> fin \<or> n < n1 \<and> n1 = length st + 1" "wake \<longrightarrow> wake1" "n < n1 \<longrightarrow> wake1" "wake1 \<longrightarrow> wake \<or> q1 \<noteq> []"
      "rxq c \<noteq> [] \<longrightarrow> q1 \<noteq> []"
  shows "drained st isn L R r n c (Suc len0) wake fin res"
proof -
  obtain wake' fin' n' ps' q es where d': "res = Inr (wake', fin',
      rx_upd isn n' R q (map snd ps') (rxq_ooo_len c1 - of_nat (len0 - length ps')) es c1)"
    "n1 \<le> n'" "n' \<le> R" "n' \<le> max n1 (length st + 1)" "length ps' \<le> len0" "ooo_ok st isn L n' R ps'" "rx_data st r n' q"
    "fin' \<longleftrightarrow> fin1 \<or> n1 < n' \<and> n' = length st + 1" "wake1 \<longrightarrow> wake'" "wake' \<longrightarrow> wake1 \<or> q \<noteq> []"
    "rxq c1 \<noteq> [] \<longrightarrow> q \<noteq> []" "n1 < n' \<longrightarrow> wake'"
    using d unfolding drained_def by blast
  have len: "rxq_ooo_len c1 - of_nat (len0 - length ps') = rxq_ooo_len c - of_nat (Suc len0 - length ps')"
    using d'(5) by (simp add: c1 rx_upd_def Suc_diff_le)
  have "rx_upd isn n' R q ooo l es c1 = rx_upd isn n' R q ooo l (es1 @ es) c" for ooo l
    by (simp add: c1 rx_upd_def)
  then have "res = Inr (wake', fin', rx_upd isn n' R q (map snd ps') (rxq_ooo_len c - of_nat (Suc len0 - length ps')) (es1 @ es) c)"
    using d'(1) by (simp only: len)
  moreover have "n \<le> n'" "n' \<le> max n (length st + 1)" "length ps' \<le> Suc len0"
    using d'(2,4,5) n1 by linarith+
  moreover have "fin' \<longleftrightarrow> fin \<or> n < n' \<and> n' = length st + 1"
    by (rule fin_steps [OF n1(1) d'(2,4) fl(1) d'(8)])
  moreover have "rxq c1 = q1" by (simp add: c1 rx_upd_def)
  then have q: "q1 \<noteq> [] \<longrightarrow> q \<noteq> []" using d'(11) by simp
  have "wake \<longrightarrow> wake'" "wake' \<longrightarrow> wake \<or> q \<noteq> []" "rxq c \<noteq> [] \<longrightarrow> q \<noteq> []"
    using d'(9,10) fl(2,4,5) q by blast+
  moreover have "n < n' \<longrightarrow> wake'"
    using d'(2,9,12) fl(3) by (metis le_neq_implies_less)
  ultimately show ?thesis unfolding drained_def using d'(3,6,7) by blast
qed

lemma ooo_drain_spec:
  assumes "window_ok L lo R" "lo \<le> n" "n \<le> R" "ooo_ok st isn L lo R ps"
    "rcv_nxt (pcb c) = seq_of isn n" "rcv_wnd (pcb c) = of_nat (R - n)"
    "rx_data st r n (rxq c)" "r \<le> n" "r \<le> length st"
  shows "drained st isn L R r n c (length ps) wake fin (ooo_drain c (map snd ps) wake fin)"
  using assms(2-9)
proof (induction ps arbitrary: c n wake fin)
  case Nil
  then show ?case using drained_stop [of n R st isn L "[]" r c] by (simp add: ooo_ok_def)
next
  case (Cons p ps)
  obtain a m where p: "p = (a, m)" by fastforce
  have s: "ooo_seg st isn L lo R (a, m)" "\<forall>x \<in> set ps. seg_stop a m \<le> stop_of x" "ooo_ok st isn L lo R ps"
    using Cons.prems(3) by (auto simp: ooo_ok_Cons p)
  then have m: "seg_at st isn a m" "lo < seg_stop a m" "a < R" "seg_stop a m \<le> a + L"
    "has (mflags m) TCP_FIN \<longrightarrow> seg_stop a m \<le> R"
    by (auto simp: ooo_seg_def)
  have w: "lo \<le> R" "R - lo < 536870912" "L \<le> 268435456" using assms(1) by (auto simp: window_ok_def)
  have nr: "near (seg_stop a m) n" "near a n"
    using w Cons.prems(1,2) m(2-4) by (auto simp: near_def)
  have k: "seg_seq m = seq_of isn a" "seg_end m = seq_of isn (seg_stop a m)" using m(1) by (auto simp: seg_at_def)
  consider (old) "seg_stop a m \<le> n" | (gap) "n < seg_stop a m" "n < a" | (inorder) "n < seg_stop a m" "a \<le> n" by linarith
  then show ?case
  proof cases
    case old
    define c1 where "c1 = emit_c [Release m] (c\<lparr>rxq_ooo_len := rxq_ooo_len c - 1\<rparr>)"
    have c1: "c1 = rx_upd isn n R (rxq c) (rxq_ooo c) (rxq_ooo_len c - 1) [Release m] c"
      using Cons.prems(4,5) by (simp add: c1_def rx_upd_def)
    have d: "drained st isn L R r n c1 (length ps) wake fin (ooo_drain c1 (map snd ps) wake fin)"
      using Cons.prems s(3) by (intro Cons.IH) (simp_all add: c1_def)
    have e: "ooo_drain c (map snd (p # ps)) wake fin = ooo_drain c1 (map snd ps) wake fin"
      using old by (simp add: p k wraps_seq [OF nr(1)] Cons.prems(4) c1_def)
    show ?thesis unfolding e length_Cons by (rule drained_step [OF d c1]) auto
  next
    case gap
    have o: "ooo_ok st isn L n R (p # ps)"
      using gap(1) s(2) by (intro ooo_ok_raise [OF Cons.prems(3)]) (auto simp: p)
    have e: "ooo_drain c (map snd (p # ps)) wake fin = Inr (wake, fin, c\<lparr>rxq_ooo := map snd (p # ps)\<rparr>)"
      using gap by (simp add: p k wraps_seq [OF nr(1)] wraps_seq [OF nr(2)] Cons.prems(4))
    show ?thesis unfolding e by (rule drained_stop [OF Cons.prems(2) o Cons.prems(6,4,5)])
  next
    case inorder
    define n1 where "n1 = min (seg_stop a m) R"
    define c0 where "c0 = c\<lparr>rxq_ooo_len := rxq_ooo_len c - 1\<rparr>"
    have "n < a + 1073741824" "seg_stop a m < n + 1073741824" "R - n < 1073741824"
      using w Cons.prems(1,2) inorder m(4) by linarith+
    then have b: "n < a + 2 ^ 30" "seg_stop a m < n + 2 ^ 30" "R - n < 2 ^ 30" by simp_all
    obtain m' where m': "tcp_rx_append_text c0 m =
        Inr (upd_pcb (\<lambda>p. p\<lparr>rcv_nxt := seq_of isn n1, rcv_wnd := of_nat (R - n1)\<rparr>) (c0\<lparr>rxq := rxq c0 @ [m']\<rparr>))"
      "seg_at st isn n m'" "seg_stop n m' = n1" "mflags m' = mflags m"
      using tcp_rx_append_text_seg [of c0 isn n R st a m] Cons.prems(2,4,5) b m(1,5) inorder
      by (auto simp: n1_def c0_def)
    define c1 where "c1 = rx_upd isn n1 R (rxq c @ [m']) (rxq_ooo c) (rxq_ooo_len c - 1) [] c"
    have a1: "tcp_rx_append_text c0 m = Inr c1" using m'(1) by (simp add: c1_def rx_upd_def c0_def)
    have n1: "n \<le> n1" "n1 \<le> R" "n1 \<le> length st + 1"
      using inorder Cons.prems(2) seg_stop_le [OF m(1)] by (auto simp: n1_def)
    have fin: "n1 = length st + 1 \<longleftrightarrow> has (mflags m) TCP_FIN"
      using seg_stop_fin [OF m'(2)] m'(3,4) by simp
    have d: "drained st isn L R r n1 c1 (length ps) True (fin \<or> has (mflags m) TCP_FIN)
        (ooo_drain c1 (map snd ps) True (fin \<or> has (mflags m) TCP_FIN))"
      using Cons.prems s(3) n1 rx_data_snoc [OF Cons.prems(6) m'(2) Cons.prems(7,8)] m'(3)
      by (intro Cons.IH) (simp_all add: c1_def rx_upd_def)
    have e: "ooo_drain c (map snd (p # ps)) wake fin = ooo_drain c1 (map snd ps) True (fin \<or> has (mflags m) TCP_FIN)"
      using inorder a1 by (simp add: p k wraps_seq [OF nr(1)] wraps_seq [OF nr(2)] Cons.prems(4) flip: c0_def)
    have "has (mflags m) TCP_FIN \<longrightarrow> n < n1" using inorder m(5) by (simp add: n1_def)
    then have f: "(fin \<or> has (mflags m) TCP_FIN) = (fin \<or> n < n1 \<and> n1 = length st + 1)" using fin by blast
    have mx: "n1 \<le> max n (length st + 1)" using n1(3) by simp
    show ?thesis
      unfolding e length_Cons by (rule drained_step [OF d c1_def n1(1) mx f]) blast+
  qed
qed

subsection \<open>The invariant of the ingress path\<close>

text \<open>
  The reader has taken the first \<open>r\<close> bytes of the stream, the queue has the bytes from there to \<open>n\<close>,
  and the window ends at \<open>R\<close>.
\<close>

definition rx_inv :: "u8 list \<Rightarrow> u32 \<Rightarrow> nat \<Rightarrow> nat \<Rightarrow> nat \<Rightarrow> nat \<Rightarrow> (nat \<times> mbuf) list \<Rightarrow> tcpconn \<Rightarrow> bool" where
  "rx_inv st isn L r n R ps c \<longleftrightarrow>
     window_ok L n R \<and> rcv_nxt (pcb c) = seq_of isn n \<and> rcv_wnd (pcb c) = of_nat (R - n) \<and>
     ooo_ok st isn L n R ps \<and> rxq_ooo c = map snd ps \<and> rxq_ooo_len c = of_nat (length ps) \<and> length ps \<le> 2048 \<and>
     rx_data st r n (rxq c) \<and> r \<le> n \<and> r \<le> length st"

text \<open>The result of \<open>tcp_rx_text\<close>, when the stream is received at least up to \<open>k\<close> afterwards.\<close>

definition rx_texted :: "u8 list \<Rightarrow> u32 \<Rightarrow> nat \<Rightarrow> nat \<Rightarrow> nat \<Rightarrow> nat \<Rightarrow> nat \<Rightarrow> tcpconn \<Rightarrow>
    (bool \<times> bool \<times> bool \<times> tcpconn) exec \<Rightarrow> bool" where
  "rx_texted st isn L r n k R c res \<longleftrightarrow> (\<exists>used wake fin n' ps' q es.
     res = Inr (used, wake, fin, rx_upd isn n' R q (map snd ps') (of_nat (length ps')) es c) \<and>
     rx_inv st isn L r n' R ps' (rx_upd isn n' R q (map snd ps') (of_nat (length ps')) es c) \<and>
     n \<le> n' \<and> k \<le> n' \<and> n' \<le> max n (length st + 1) \<and> (wake \<longrightarrow> q \<noteq> [] \<and> used) \<and> (fin \<longleftrightarrow> n < n' \<and> n' = length st + 1))"

lemma rx_texted_same:
  assumes "rx_inv st isn L r n R ps c" "k \<le> n"
  shows "rx_texted st isn L r n k R c (Inr (False, False, False, c))"
proof -
  have "rx_upd isn n R (rxq c) (map snd ps) (of_nat (length ps)) [] c = c"
    using assms by (simp add: rx_inv_def rx_upd_def)
  then show ?thesis
    unfolding rx_texted_def using assms
    by (intro exI [of _ False] exI [of _ n] exI [of _ ps] exI [of _ "rxq c"] exI [of _ "[]"]) simp
qed

lemma window_ok_mono: "window_ok L lo R \<Longrightarrow> lo \<le> n \<Longrightarrow> n \<le> R \<Longrightarrow> window_ok L n R"
  by (auto simp: window_ok_def)

text \<open>
  The drain after a segment was appended or queued: \<open>c1\<close> is the connection then, with the stream
  received up to \<open>n1\<close> and \<open>ps\<close> in the queue.
\<close>

lemma drain_texted:
  assumes w: "window_ok L n R" "n < R" and n1: "n \<le> n1" "n1 \<le> R" "n1 \<le> max n (length st + 1)" and ps: "ooo_ok st isn L n R ps" "length ps \<le> 2048"
    and q1: "rx_data st r n1 q1" "r \<le> n1" "r \<le> length st"
    and c1: "c1 = rx_upd isn n1 R q1 (map snd ps) (of_nat (length ps)) [] c"
    and fl: "fin \<longleftrightarrow> n < n1 \<and> n1 = length st + 1" "wake \<or> n < n1 \<longrightarrow> q1 \<noteq> []"
  shows "rx_texted st isn L r n n1 R c (bind_exec (ooo_drain c1 (rxq_ooo c1) wake fin) (\<lambda>(wake, fin, c).
      Inr (True, wake \<or> rcv_wnd (pcb c) = 0, fin, c)))" (is "rx_texted _ _ _ _ _ _ _ _ ?res")
  using n1
proof -
  have "drained st isn L R r n1 c1 (length ps) wake fin (ooo_drain c1 (map snd ps) wake fin)"
    using ooo_drain_spec [OF w(1) n1(1,2) ps(1), of c1 r wake fin] q1 by (simp add: c1 rx_upd_def)
  then obtain wake' fin' n' ps' q es where d: "ooo_drain c1 (map snd ps) wake fin = Inr (wake', fin',
      rx_upd isn n' R q (map snd ps') (rxq_ooo_len c1 - of_nat (length ps - length ps')) es c1)"
    "n1 \<le> n'" "n' \<le> R" "n' \<le> max n1 (length st + 1)" "length ps' \<le> length ps" "ooo_ok st isn L n' R ps'" "rx_data st r n' q"
    "fin' \<longleftrightarrow> fin \<or> n1 < n' \<and> n' = length st + 1" "wake' \<longrightarrow> wake \<or> q \<noteq> []" "rxq c1 \<noteq> [] \<longrightarrow> q \<noteq> []" "n1 < n' \<longrightarrow> wake'"
    unfolding drained_def by blast
  define c2 where "c2 = rx_upd isn n' R q (map snd ps') (of_nat (length ps')) es c"
  have "rxq_ooo_len c1 - of_nat (length ps - length ps') = of_nat (length ps')"
    using d(5) by (simp add: c1 rx_upd_def of_nat_diff)
  then have "ooo_drain c1 (map snd ps) wake fin = Inr (wake', fin', c2)"
    using d(1) by (simp add: c2_def c1 rx_upd_def)
  moreover have r: "rxq_ooo c1 = map snd ps" "rxq c1 = q1" by (simp_all add: c1 rx_upd_def)
  ultimately have res: "?res = Inr (True, wake' \<or> rcv_wnd (pcb c2) = 0, fin', c2)" by simp
  have i: "rx_inv st isn L r n' R ps' c2"
    using window_ok_mono [OF w(1), of n'] d(2-7) n1(1) ps(2) q1(2,3) by (auto simp: rx_inv_def c2_def rx_upd_def)
  have wq: "wake' \<longrightarrow> q \<noteq> []" using d(9,10) fl(2) r(2) by blast
  have z: "rcv_wnd (pcb c2) = 0 \<longrightarrow> q \<noteq> []"
  proof
    have "R - n' < 2 ^ 32" using w(1) d(2) n1(1) by (auto simp: window_ok_def)
    moreover assume "rcv_wnd (pcb c2) = 0"
    ultimately have "n' = R" using d(3) unat_small [of "R - n'"] by (simp add: c2_def rx_upd_def)
    then show "q \<noteq> []" using w(2) d(2,10,11) wq fl(2) r(2) by (cases "n1 < n'") auto
  qed
  have f: "fin' \<longleftrightarrow> n < n' \<and> n' = length st + 1"
    using fin_steps [OF n1(1) d(2,4) _ d(8), of False] fl(1) by simp
  show ?thesis
    unfolding rx_texted_def res c2_def [symmetric]
    by (rule exI [of _ True], rule exI [of _ "wake' \<or> rcv_wnd (pcb c2) = 0"], rule exI [of _ fin'], rule exI [of _ n'],
        rule exI [of _ ps'], rule exI [of _ q], rule exI [of _ es])
       (use i f wq z d(2,4) n1 in \<open>simp flip: c2_def\<close>)
qed

lemma has_fin_push: "has fl TCP_FIN \<Longrightarrow> has fl (TCP_PUSH OR TCP_FIN)"
  by (simp add: has_def bit.conj_disj_distrib or_eq_0_iff)

lemma tcp_rx_text_spec:
  assumes i: "rx_inv st isn L r n R ps c" and m: "ooo_seg st isn L n R (a, m)"
  shows "rx_texted st isn L r n (if a \<le> n then min (seg_stop a m) R else n) R c (tcp_rx_text c m)"
proof (cases "n = R")
  case True
  then have "rcv_wnd (pcb c) = 0" using i by (simp add: rx_inv_def)
  then show ?thesis using rx_texted_same [OF i] True by (simp add: tcp_rx_text_def Let_def)
next
  case False
  have w: "window_ok L n R" "rcv_nxt (pcb c) = seq_of isn n" "rcv_wnd (pcb c) = of_nat (R - n)" "ooo_ok st isn L n R ps"
    "rxq_ooo c = map snd ps" "rxq_ooo_len c = of_nat (length ps)" "length ps \<le> 2048" "rx_data st r n (rxq c)" "r \<le> n" "r \<le> length st"
    using i by (auto simp: rx_inv_def)
  have b: "n < R" "R - n < 536870912" "L \<le> 268435456" using w(1) False by (auto simp: window_ok_def)
  have s: "seg_at st isn a m" "n < seg_stop a m" "a < R" "seg_stop a m \<le> a + L" "has (mflags m) TCP_FIN \<longrightarrow> seg_stop a m \<le> R"
    using m by (auto simp: ooo_seg_def)
  have nr: "near a n" using b s(2-4) by (auto simp: near_def)
  have k: "seg_seq m = seq_of isn a" using s(1) by (simp add: seg_at_def)
  have wnd: "rcv_wnd (pcb c) \<noteq> 0"
    using w(3) b unat_small [of "R - n"] by (auto simp: word_unat_eq_iff)
  show ?thesis
  proof (cases "a \<le> n")
    case True
    define n1 where "n1 = min (seg_stop a m) R"
    have "n < a + 1073741824" "seg_stop a m < n + 1073741824" "R - n < 1073741824"
      using b s(4) s(2) True by linarith+
    then obtain m' where m': "tcp_rx_append_text c m =
        Inr (upd_pcb (\<lambda>p. p\<lparr>rcv_nxt := seq_of isn n1, rcv_wnd := of_nat (R - n1)\<rparr>) (c\<lparr>rxq := rxq c @ [m']\<rparr>))"
      "seg_at st isn n m'" "seg_stop n m' = n1" "mflags m' = mflags m"
      using tcp_rx_append_text_seg [of c isn n R st a m] w(2,3) b(1) s(1,2,5) True by (auto simp: n1_def)
    define c1 where "c1 = rx_upd isn n1 R (rxq c @ [m']) (map snd ps) (of_nat (length ps)) [] c"
    define wake where "wake = (has (mflags m) (TCP_PUSH OR TCP_FIN) \<or> rxq c \<noteq> [])"
    have c1: "tcp_rx_append_text c m = Inr c1" using m'(1) w(5,6) by (simp add: c1_def rx_upd_def)
    have n1: "n \<le> n1" "n1 \<le> R" "n1 \<le> max n (length st + 1)" "n < n1"
      using s(2) b(1) seg_stop_le [OF s(1)] by (auto simp: n1_def)
    have fin: "(wake \<and> has (mflags m) TCP_FIN) \<longleftrightarrow> n < n1 \<and> n1 = length st + 1"
      using seg_stop_fin [OF m'(2)] m'(3,4) n1(4) has_fin_push [of "mflags m"] by (auto simp: wake_def)
    have "tcp_rx_text c m = bind_exec (ooo_drain c1 (rxq_ooo c1) wake (wake \<and> has (mflags m) TCP_FIN)) (\<lambda>(wake, fin, c).
        Inr (True, wake \<or> rcv_wnd (pcb c) = 0, fin, c))"
      using wnd True by (simp add: tcp_rx_text_def Let_def k w(2) wraps_seq [OF nr] c1 wake_def)
    then show ?thesis
      using drain_texted [OF w(1) b(1) n1(1-3) w(4,7) rx_data_snoc [OF w(8) m'(2) w(9,10), unfolded m'(3)] _ w(10) c1_def fin] w(9) n1(1) True
      by (simp add: n1_def)
  next
    case oo: False
    have e: "tcp_rx_text c m =
      (if rxq_ooo_len c \<ge> TCP_OOO_MAX_SIZE then Inr (False, False, False, c)
       else case ooo_insert m (rev (rxq_ooo c)) [] of
              None \<Rightarrow> Inr (False, False, False, c)
            | Some q \<Rightarrow> bind_exec (ooo_drain (c\<lparr>rxq_ooo := q, rxq_ooo_len := rxq_ooo_len c + 1\<rparr>)
                          (rxq_ooo (c\<lparr>rxq_ooo := q, rxq_ooo_len := rxq_ooo_len c + 1\<rparr>)) False False) (\<lambda>(wake, fin, c).
                             Inr (True, wake \<or> rcv_wnd (pcb c) = 0, fin, c)))"
      using wnd oo by (simp add: tcp_rx_text_def Let_def k w(2) wraps_seq [OF nr])
    show ?thesis
    proof (cases "rxq_ooo_len c \<ge> TCP_OOO_MAX_SIZE \<or> ooo_insert m (rev (rxq_ooo c)) [] = None")
      case True
      then have "tcp_rx_text c m = Inr (False, False, False, c)" unfolding e by auto
      then show ?thesis using rx_texted_same [OF i] oo by simp
    next
      case False
      then obtain q where q: "ooo_insert m (rev (map snd ps)) [] = Some q" by (auto simp: w(5))
      obtain ps' where ps': "q = map snd ps'" "ooo_ok st isn L n R ps'" "length ps' = length ps + 1"
        using ooo_insert_ok [OF w(1) m w(4) q] by blast
      have len: "length ps < 2048"
        using False w(6,7) unat_small [of "length ps"] by (simp add: TCP_OOO_MAX_SIZE_def word_le_nat_alt not_le)
      define c1 where "c1 = rx_upd isn n R (rxq c) (map snd ps') (of_nat (length ps')) [] c"
      have c1: "c\<lparr>rxq_ooo := q, rxq_ooo_len := rxq_ooo_len c + 1\<rparr> = c1"
        using w(2,3,6) ps'(1,3) by (simp add: c1_def rx_upd_def)
      have "tcp_rx_text c m = bind_exec (ooo_drain c1 (rxq_ooo c1) False False) (\<lambda>(wake, fin, c).
          Inr (True, wake \<or> rcv_wnd (pcb c) = 0, fin, c))"
        using False q unfolding e w(5) c1 [symmetric] by (simp add: Let_def)
      then show ?thesis
        using drain_texted [OF w(1) b(1) _ _ _ ps'(2) _ w(8-10) c1_def, of False False] len ps'(3) b(1) oo by simp
    qed
  qed
qed

lemma is_acceptable_seg:
  assumes c: "rcv_nxt (pcb c) = seq_of isn n" "rcv_wnd (pcb c) = of_nat (R - n)" "n < R" "R - n < 2 ^ 29"
    and m: "0 < l" "l \<le> 2 ^ 29" "a < n + 2 ^ 30" "n < a + 2 ^ 30"
  shows "is_acceptable c (of_nat l) (seq_of isn a) \<longleftrightarrow> n \<le> a \<and> a < R \<or> n < a + l \<and> a + l \<le> R"
proof -
  have u: "(of_nat l :: u32) \<noteq> 0" "(of_nat (R - n) :: u32) \<noteq> 0"
    using unat_small [of l] unat_small [of "R - n"] m(1,2) c(3,4) by (auto simp: word_unat_eq_iff)
  have edge: "seq_of isn n + of_nat (R - n) = seq_of isn R" using c(3) by (simp only: seq_of_add) simp
  obtain z where z: "a + l = z + 1" using m(1) by (metis Suc_eq_plus1 add_gr_0 gr0_implies_Suc)
  have "seq_of isn a + of_nat l - 1 = seq_of isn (a + l) - 1" by (simp only: seq_of_add)
  then have last: "seq_of isn a + of_nat l - 1 = seq_of isn z" by (simp add: z seq_of_def)
  have nr: "near n a" "near a R" "near n z" "near z R"
    using c(3,4) m z by (auto simp: near_def)
  have "is_acceptable c (of_nat l) (seq_of isn a) \<longleftrightarrow> n \<le> a \<and> a < R \<or> n \<le> z \<and> z < R"
    unfolding is_acceptable_def Let_def c(1,2) edge last
    using u by (simp add: word_gt_0 wraps_seq [OF nr(1)] wraps_seq [OF nr(2)] wraps_seq [OF nr(3)] wraps_seq [OF nr(4)])
  then show ?thesis using z by auto
qed

lemma append_full_window:
  assumes c: "rcv_nxt (pcb c) = seq_of isn R" "rcv_wnd (pcb c) = 0"
    and k: "seg_at st isn b k" "has (mflags k) TCP_FIN" "b \<le> R" "R < seg_stop b k" "R < b + 2 ^ 30" "seg_stop b k < R + 2 ^ 30"
  shows "tcp_rx_append_text c k = Inl Bug_on"
proof -
  have nr: "near b R" "near R b" "near (seg_stop b k) R" "near R (seg_stop b k)" using k(3-6) by (auto simp: near_def)
  obtain k1 where k1: "clip_head (seq_of isn R) k = Inr k1" "seg_at st isn R k1" "seg_stop R k1 = seg_stop b k" "mflags k1 = mflags k"
    using clip_head_seg [OF k(1,3,4) nr(1,2)] by blast
  have e: "seg_end k1 = seq_of isn (seg_stop b k)" using k1(2,3) by (simp add: seg_at_def)
  have d: "unat (seq_of isn (seg_stop b k) - seq_of isn R) = seg_stop b k - R"
    using k(4,6) by (intro unat_seq_diff) auto
  have "mlen k1 < seg_stop b k - R" using k1(3,4) k(2) by (simp add: seg_stop_def fin_len_def)
  then have "clip_tail (seq_of isn R) k1 = Inl Bug_on"
    using k(4) by (simp add: clip_tail_def e wraps_seq [OF nr(4)] d mbuf_trim_def Let_def)
  moreover have "wraps_lte (seg_seq k) (seq_of isn R)" "wraps_gt (seg_end k) (seq_of isn R)"
    using k(1,3,4) by (auto simp: seg_at_def wraps_seq [OF nr(1)] wraps_seq [OF nr(3)])
  ultimately show ?thesis
    using k1(1) by (simp add: tcp_rx_append_text_def Let_def c assert_that_def)
qed

subsection \<open>A FIN beyond the window\<close>

lemma fin_full_window_stops:
  assumes c: "window_ok L n R" "n < R" "rcv_nxt (pcb c) = seq_of isn n" "rcv_wnd (pcb c) = of_nat (R - n)" "rxq_ooo c = [k]"
    and m: "seg_at st isn n m" "\<not> has (mflags m) TCP_FIN" "seg_stop n m = R"
    and k: "seg_at st isn d k" "has (mflags k) TCP_FIN" "n < d" "d < R" "R < seg_stop d k" "seg_stop d k \<le> d + L"
  shows "is_acceptable c (of_nat (seg_stop d k - d)) (seg_seq k) \<and> is_acceptable c (of_nat (R - n)) (seg_seq m) \<and>
    tcp_rx_text c m = Inl Bug_on"
proof -
  have b: "R - n < 536870912" "L \<le> 268435456" using c(1) by (auto simp: window_ok_def)
  have wnd: "rcv_wnd (pcb c) \<noteq> 0" using c(2,4) b(1) unat_small [of "R - n"] by (auto simp: word_unat_eq_iff)
  obtain m' where a: "tcp_rx_append_text c m =
      Inr (upd_pcb (\<lambda>p. p\<lparr>rcv_nxt := seq_of isn R, rcv_wnd := 0\<rparr>) (c\<lparr>rxq := rxq c @ [m']\<rparr>))"
  proof -
    have "R < n + 1073741824" using b(1) c(2) by linarith
    then show ?thesis using that tcp_rx_append_text_seg [OF c(3,4) _ _ m(1)] c(2) b(1) m(2,3) by auto
  qed
  define c1 where "c1 = (upd_pcb (\<lambda>p. p\<lparr>rcv_nxt := seq_of isn R, rcv_wnd := 0\<rparr>) (c\<lparr>rxq := rxq c @ [m']\<rparr>))
    \<lparr>rxq_ooo_len := rxq_ooo_len c - 1\<rparr>"
  have "R < d + 1073741824" "seg_stop d k < R + 1073741824" using b k(4-6) by linarith+
  then have f: "tcp_rx_append_text c1 k = Inl Bug_on"
    using k(4,5) by (intro append_full_window [OF _ _ k(1,2)]) (simp_all add: c1_def)
  have nr: "near (seg_stop d k) R" "near d R" using b k(4-6) by (auto simp: near_def)
  have s: "seg_seq k = seq_of isn d" "seg_end k = seq_of isn (seg_stop d k)" "seg_seq m = seq_of isn n"
    using k(1) m(1) by (auto simp: seg_at_def)
  have b29: "R - n < 2 ^ 29" using b(1) by simp
  have "is_acceptable c (of_nat (seg_stop d k - d)) (seg_seq k)"
    using is_acceptable_seg [OF c(3,4,2) b29, of "seg_stop d k - d" d] b k(3-6) unfolding s by auto
  moreover have "is_acceptable c (of_nat (R - n)) (seg_seq m)"
    using is_acceptable_seg [OF c(3,4,2) b29, of "R - n" n] b c(2) unfolding s by auto
  ultimately show ?thesis
    using wnd k(4,5) f s
    by (simp add: tcp_rx_text_def Let_def c(3,5) a wraps_seq [of n n] near_def wraps_seq [OF nr(1)] wraps_seq [OF nr(2)] c1_def)
qed

lemma fin_cut_loses_byte:
  assumes c: "window_ok L n R" "n < R" "rcv_nxt (pcb c) = seq_of isn n" "rcv_wnd (pcb c) = of_nat (R - n)" "rxq_ooo c = []"
    and m: "seg_at st isn n m" "has (mflags m) TCP_FIN" "seg_stop n m = R + 1"
  shows "is_acceptable c (of_nat (R + 1 - n)) (seg_seq m) \<and>
    (\<exists>m' wake c'. tcp_rx_text c m = Inr (True, wake, True, c') \<and> rxq c' = rxq c @ [m'] \<and>
      mbuf_data m' = butlast (mbuf_data m) \<and> rcv_nxt (pcb c') = seq_of isn R)"
proof -
  have b: "R - n < 536870912" using c(1) by (auto simp: window_ok_def)
  have wnd: "rcv_wnd (pcb c) \<noteq> 0" using c(2,4) b unat_small [of "R - n"] by (auto simp: word_unat_eq_iff)
  have l: "mlen m = R - n" using m(2,3) c(2) by (simp add: seg_stop_def fin_len_def)
  have e: "seg_seq m = seq_of isn n" "seg_end m = seq_of isn (Suc R)" using m(1,3) by (auto simp: seg_at_def)
  define m' where "m' = m\<lparr>mlen := mlen m - 1, seg_end := seq_of isn R\<rparr>"
  have edge: "seq_of isn n + of_nat (R - n) = seq_of isn R" using c(2) by (simp only: seq_of_add) simp
  have nr: "near (Suc R) n" "near n n" "near R (Suc R)" using b c(2) by (auto simp: near_def)
  have u: "unat (seq_of isn (Suc R) - seq_of isn R) = 1" by (subst unat_seq_diff) simp_all
  have t: "clip_head (seq_of isn n) m = Inr m" "clip_tail (seq_of isn R) m = Inr m'"
    using l c(2) by (simp_all add: clip_head_def clip_tail_def e wraps_seq [OF nr(3)] Let_def u mbuf_trim_def m'_def)
  have d: "seg_end m' - seg_seq m' = of_nat (R - n)" "seg_end m' = seq_of isn R"
    using seq_of_diff [of n R isn] c(2) by (simp_all add: m'_def e)
  have as: "wraps_lte (seg_seq m) (seq_of isn n)" "wraps_gt (seg_end m) (seq_of isn n)"
    using c(2) by (simp_all add: e wraps_seq [OF nr(1)] wraps_seq [OF nr(2)])
  have a: "tcp_rx_append_text c m = Inr (upd_pcb (\<lambda>p. p\<lparr>rcv_nxt := seq_of isn R, rcv_wnd := 0\<rparr>) (c\<lparr>rxq := rxq c @ [m']\<rparr>))"
    unfolding tcp_rx_append_text_def Let_def c(3,4) edge
    by (simp only: as t assert_that_def d(1) order_refl bind_exec_Inr if_True) (simp add: d(2))
  have "mbuf_data m' = butlast (mbuf_data m)"
  proof -
    have "mbuf_data m' = take (mlen m - 1) (mbuf_data m)" by (simp add: m'_def mbuf_data_def)
    moreover have "length (mbuf_data m) = mlen m" using m(1) by (intro length_mbuf_data) (simp add: seg_at_def)
    ultimately show ?thesis by (simp only: butlast_conv_take)
  qed
  moreover have "R - n < 2 ^ 29" using b by simp
  then have "is_acceptable c (of_nat (R + 1 - n)) (seg_seq m)"
    using is_acceptable_seg [OF c(3,4,2), of "R + 1 - n" n] b c(2) unfolding e(1) by auto
  ultimately show ?thesis
    using wnd a m(2) has_fin_push [OF m(2)]
    by (auto simp: tcp_rx_text_def Let_def c(3,5) e wraps_seq [OF nr(2)])
qed

text \<open>
  C35. A FIN that the window cuts off is handled wrongly. When an in-order segment fills the window
  exactly while a queued segment with a FIN reaches beyond it, the drain trims the queued segment
  by more than its data and stops the program, although both segments pass the acceptability
  test. When only the FIN of an in-order segment is beyond the window, the last byte of its data is
  dropped, the next expected byte is counted as if it were there, and the FIN is reported.
\<close>

theorem tcp_fin_beyond_window:
  assumes c: "window_ok L n R" "n < R" "rcv_nxt (pcb c) = seq_of isn n" "rcv_wnd (pcb c) = of_nat (R - n)"
  shows "(\<forall>m b k. rxq_ooo c = [k] \<and> seg_at st isn n m \<and> \<not> has (mflags m) TCP_FIN \<and> seg_stop n m = R \<and>
      seg_at st isn b k \<and> has (mflags k) TCP_FIN \<and> n < b \<and> b < R \<and> R < seg_stop b k \<and> seg_stop b k \<le> b + L \<longrightarrow>
      is_acceptable c (of_nat (seg_stop b k - b)) (seg_seq k) \<and> is_acceptable c (of_nat (R - n)) (seg_seq m) \<and>
      tcp_rx_text c m = Inl Bug_on) \<and>
    (\<forall>m. rxq_ooo c = [] \<and> seg_at st isn n m \<and> has (mflags m) TCP_FIN \<and> seg_stop n m = R + 1 \<longrightarrow>
      is_acceptable c (of_nat (R + 1 - n)) (seg_seq m) \<and>
      (\<exists>m' wake c'. tcp_rx_text c m = Inr (True, wake, True, c') \<and> rxq c' = rxq c @ [m'] \<and>
         mbuf_data m' = butlast (mbuf_data m) \<and> rcv_nxt (pcb c') = seq_of isn R))"
  by (rule conjI; intro allI impI; elim conjE; (rule fin_full_window_stops [OF c] | rule fin_cut_loses_byte [OF c]); assumption)

text \<open>
  An established connection with a window of two bytes, whose sequence numbers are about to wrap
  around, and segments of a stream of three bytes.
\<close>

definition example_pcb :: tcp_pcb where
  "example_pcb = \<lparr>state = ESTABLISHED, snd_una = 0, snd_nxt = 0, snd_wnd = 100, snd_wl1 = 0, snd_wl2 = 0, iss = 0,
     snd_wscale = 0, snd_mss = 88, rcv_nxt = 0xFFFFFFFF, rcv_wnd = 2, irs = 0, rcv_wscale = 0, rcv_mss = 1460\<rparr>"

definition example_conn :: "mbuf list \<Rightarrow> tcpconn" where
  "example_conn ooo = \<lparr>pcb = example_pcb, laddr = (0, 0), raddr = (0, 0), nonblocking = False, cref = 2, err = 0, winmax = 2,
     rx_closed = False, rx_exclusive = False, rx_wq = [], rxq_ooo_len = of_nat (length ooo), rxq_ooo = ooo, rxq = [],
     tx_closed = False, tx_exclusive = False, tx_wq = [], tx_last_ack = 0, tx_last_win = 0, tx_pending = None, txq = [],
     do_fast_retransmit = False, fast_retransmit_last_ack = 0, next_timeout = 0, ack_ts = 0, zero_wnd_ts = 0,
     time_wait_ts = 0, zero_wnd = False, ack_delayed = False, rep_acks = 0, acks_delayed_cnt = 0,
     wd = \<lparr>mtu = 1500, directpath = False, bufs = [], txrets = [], log = []\<rparr>\<rparr>"

definition example_seg :: "u8 list \<Rightarrow> u32 \<Rightarrow> u32 \<Rightarrow> u8 \<Rightarrow> mbuf" where
  "example_seg bs a e fl = \<lparr>bytes = bs, doff = 0, head_len = 2048, mlen = length bs, network_off = 0, transport_off = 0,
     timestamp = 0, seg_seq = a, seg_end = e, mflags = fl, mref = 1, txflags = 0\<rparr>"

lemmas example_defs = example_pcb_def example_conn_def example_seg_def

theorem tcp_fin_beyond_window_witness:
  "is_acceptable (example_conn []) 3 0 \<and>
   tcp_rx_text (example_conn [example_seg [8, 9] 0 3 (TCP_ACK OR TCP_FIN)]) (example_seg [7, 8] 0xFFFFFFFF 1 TCP_ACK) = Inl Bug_on"
proof -
  define k where "k = example_seg [8, 9] 0 3 (TCP_ACK OR TCP_FIN)"
  define m where "m = example_seg [7, 8] 0xFFFFFFFF 1 TCP_ACK"
  have f: "has (mflags k) TCP_FIN" "\<not> has (mflags m) TCP_FIN"
    by (simp_all add: k_def m_def example_seg_def has_def tcp_flag_defs)
  have s: "seg_stop 1 k = 4" "seg_stop 0 m = 2" using f by (simp_all add: seg_stop_def fin_len_def) (simp_all add: k_def m_def example_seg_def)
  have "seg_at [7, 8, 9] 0xFFFFFFFF 1 k" "seg_at [7, 8, 9] 0xFFFFFFFF 0 m"
    using f unfolding seg_at_def s
    by (simp_all add: k_def m_def example_seg_def mbuf_ok_def mbuf_data_def seq_of_def)
  moreover have "window_ok 100 0 2" "(0 :: nat) < 2" "rcv_nxt (pcb (example_conn [k])) = seq_of 0xFFFFFFFF 0"
    "rcv_wnd (pcb (example_conn [k])) = of_nat (2 - 0)" "rxq_ooo (example_conn [k]) = [k]"
    by (simp_all add: window_ok_def example_conn_def example_pcb_def seq_of_def)
  ultimately have "is_acceptable (example_conn [k]) (of_nat (seg_stop 1 k - 1)) (seg_seq k) \<and> tcp_rx_text (example_conn [k]) m = Inl Bug_on"
    using tcp_fin_beyond_window [of 100 0 2 "example_conn [k]" "0xFFFFFFFF" "[7, 8, 9]"] f s by fastforce
  moreover have "of_nat (seg_stop 1 k - 1) = (3 :: u32)" by (simp only: s) simp
  moreover have "seg_seq k = 0" by (simp add: k_def example_seg_def)
  moreover have "is_acceptable (example_conn [k]) = is_acceptable (example_conn [])"
    by (intro ext) (simp add: is_acceptable_def example_conn_def)
  ultimately show ?thesis by (simp only: k_def m_def)
qed

end
