(* ===== verification/Tcp_Rx.thy ===== *)
theory Tcp_Rx
  imports Tcp_Reass
begin

text \<open>
  The steps of the slow path of the TCP ingress (\<open>__tcp_rx_conn\<close> of \<open>runtime/net/tcp_in.c\<close>) on segments of
  the stream of the peer. The first part shows that sending acknowledgements and resets and
  retransmitting do not fault; then every step is shown to succeed, with what it leaves alone.
\<close>

subsection \<open>Transmission does not fault\<close>

text \<open>The buffers of the transmit pool have room for the headroom and a packet of the size of the MTU.\<close>

definition world_ok :: "world \<Rightarrow> bool" where
  "world_ok w \<longleftrightarrow> MBUF_DEFAULT_HEADROOM < unat (mtu w) \<and>
     (\<forall>m. Some m \<in> set (bufs w) \<longrightarrow>
       MBUF_DEFAULT_HEADROOM + unat (mtu w) \<le> length (bytes m) \<and> length (bytes m) < 2 ^ 32)"

definition fresh_mbuf :: "world \<Rightarrow> mbuf \<Rightarrow> bool" where
  "fresh_mbuf w m \<longleftrightarrow> mbuf_ok m \<and> mlen m = 0 \<and> doff m = MBUF_DEFAULT_HEADROOM \<and> head_len m = unat (mtu w) \<and>
     MBUF_DEFAULT_HEADROOM + unat (mtu w) \<le> length (bytes m)"

text \<open>A later state of the world: the same settings, fewer buffers to come.\<close>

definition world_later :: "world \<Rightarrow> world \<Rightarrow> bool" where
  "world_later w w' \<longleftrightarrow> mtu w' = mtu w \<and> directpath w' = directpath w \<and> set (bufs w') \<subseteq> set (bufs w)"

lemma world_later_refl [simp]: "world_later w w"
  by (simp add: world_later_def)

lemma world_later_trans: "world_later w w' \<Longrightarrow> world_later w' w'' \<Longrightarrow> world_later w w''"
  by (auto simp: world_later_def)

lemma world_later_emit [simp]: "world_later w (emit es w') \<longleftrightarrow> world_later w w'"
  by (simp add: world_later_def emit_def)

lemma world_ok_later: "world_ok w \<Longrightarrow> world_later w w' \<Longrightarrow> world_ok w'"
  by (auto simp: world_ok_def world_later_def)

lemma net_tx_ip_later: "net_tx_ip d m w = (ret, w') \<Longrightarrow> world_later w w'"
  by (auto simp: net_tx_ip_def world_later_def emit_def Let_def split: list.splits if_splits)

lemma net_tx_alloc_ok:
  assumes "world_ok w"
  shows "\<exists>mo w'. net_tx_alloc_mbuf w = Inr (mo, w') \<and> world_later w w' \<and> (\<forall>m. mo = Some m \<longrightarrow> fresh_mbuf w m)"
proof (cases "bufs w")
  case (Cons b bs)
  show ?thesis
  proof (cases b)
    case (Some m)
    then have "MBUF_DEFAULT_HEADROOM + unat (mtu w) \<le> length (bytes m)" "length (bytes m) < 2 ^ 32"
      "MBUF_DEFAULT_HEADROOM < unat (mtu w)"
      using assms Cons by (auto simp: world_ok_def)
    then show ?thesis
      using Cons Some by (auto simp: net_tx_alloc_mbuf_def mbuf_init_def world_later_def fresh_mbuf_def mbuf_ok_def)
  qed (use Cons in \<open>auto simp: net_tx_alloc_mbuf_def world_later_def\<close>)
qed (auto simp: net_tx_alloc_mbuf_def)

lemma push_hdr_ok:
  assumes "mbuf_ok m" "n \<le> doff m" "\<And>old. length old = n \<Longrightarrow> length (f old) = n"
  shows "\<exists>m'. push_hdr m n f = Inr m' \<and> m' = m\<lparr>doff := doff m - n, mlen := mlen m + n, bytes := bytes m'\<rparr> \<and>
    length (bytes m') = length (bytes m) \<and> mbuf_ok m' \<and>
    mbuf_data m' = f (take n (drop (doff m - n) (bytes m))) @ mbuf_data m"
proof -
  define h where "h = f (take n (drop (doff m - n) (bytes m)))"
  have b: "doff m + mlen m \<le> length (bytes m)" "length (bytes m) < 2 ^ 32" using assms(1) by (auto simp: mbuf_ok_def)
  have l: "length h = n" unfolding h_def using b assms(2) by (intro assms(3)) simp
  have md: "(mlen m + n) mod 2 ^ 32 = mlen m + n" using b assms(2) by simp
  define m' where "m' = m\<lparr>doff := doff m - n, mlen := mlen m + n,
    bytes := take (doff m - n) (bytes m) @ h @ drop (doff m) (bytes m)\<rparr>"
  have "push_hdr m n f = Inr m'"
    using b assms(2) md by (simp add: push_hdr_def mbuf_push_def write_at_def m'_def l flip: h_def)
  moreover have "mbuf_data m' = h @ mbuf_data m"
    using b assms(2) l by (simp add: mbuf_data_def m'_def)
  moreover have "length (bytes m') = length (bytes m)" "mbuf_ok m'"
    using b assms(2) l by (simp_all add: m'_def mbuf_ok_def)
  moreover have "m' = m\<lparr>doff := doff m - n, mlen := mlen m + n, bytes := bytes m'\<rparr>" by (simp add: m'_def)
  ultimately show ?thesis unfolding h_def by blast
qed

lemma tcp_push_tcphdr_ok:
  assumes "mbuf_ok m" "TCP_HDR_LEN \<le> doff m"
  shows "\<exists>m'. tcp_push_tcphdr m c fl off l4 = Inr (m', c\<lparr>tx_last_ack := rcv_nxt (pcb c), tx_last_win := rcv_wnd (pcb c)\<rparr>)"
proof -
  have "\<exists>m'. push_hdr m TCP_HDR_LEN (tcp_hdr_bytes h) = Inr m'" for h
    using push_hdr_ok [OF assms, of "tcp_hdr_bytes h"] by auto
  then show ?thesis unfolding tcp_push_tcphdr_def Let_def by (metis bind_exec_Inr)
qed

lemma fresh_mbuf_push: "fresh_mbuf w m \<Longrightarrow> mbuf_ok m \<and> TCP_HDR_LEN \<le> doff m"
  by (simp add: fresh_mbuf_def TCP_HDR_LEN_def MBUF_DEFAULT_HEADROOM_def)

lemma mbuf_ok_upd [simp]:
  "mbuf_ok (m\<lparr>txflags := x\<rparr>) = mbuf_ok m" "mbuf_ok (m\<lparr>seg_seq := sq\<rparr>) = mbuf_ok m" "mbuf_ok (m\<lparr>seg_end := sq\<rparr>) = mbuf_ok m"
  "mbuf_ok (m\<lparr>mflags := fl\<rparr>) = mbuf_ok m" "mbuf_ok (m\<lparr>mref := n\<rparr>) = mbuf_ok m" "mbuf_ok (m\<lparr>timestamp := t\<rparr>) = mbuf_ok m"
  by (simp_all add: mbuf_ok_def)

text \<open>What sending an acknowledgement may change.\<close>

definition acked_from :: "tcpconn \<Rightarrow> tcpconn \<Rightarrow> bool" where
  "acked_from c c' \<longleftrightarrow> (\<exists>a b w. c' = c\<lparr>tx_last_ack := a, tx_last_win := b, wd := w\<rparr> \<and> world_later (wd c) w)"

lemma acked_from_wd: "world_later (wd c) w \<Longrightarrow> acked_from c (c\<lparr>wd := w\<rparr>)"
  unfolding acked_from_def by (intro exI [of _ "tx_last_ack c"] exI [of _ "tx_last_win c"] exI [of _ w]) simp

lemma acked_from_trans: "acked_from c c' \<Longrightarrow> acked_from c' c'' \<Longrightarrow> acked_from c c''"
  unfolding acked_from_def by (auto, blast intro: world_later_trans)

lemma tx_empty_ok:
  assumes "world_ok (wd c)"
  shows "\<exists>ret c'. tx_empty sq c = Inr (ret, c') \<and> acked_from c c'"
proof -
  obtain mo w where a: "net_tx_alloc_mbuf (wd c) = Inr (mo, w)" "world_later (wd c) w" "\<forall>m. mo = Some m \<longrightarrow> fresh_mbuf (wd c) m"
    using net_tx_alloc_ok [OF assms] by blast
  show ?thesis
  proof (cases mo)
    case None
    then show ?thesis using a by (auto simp: tx_empty_def intro: acked_from_wd)
  next
    case (Some m)
    define m1 where "m1 = m\<lparr>txflags := OLFLAG_TCP_CHKSUM, seg_seq := sq\<rparr>"
    have "mbuf_ok m1" "TCP_HDR_LEN \<le> doff m1" using a(3) Some fresh_mbuf_push [of "wd c" m] by (auto simp: m1_def)
    then obtain m2 where p: "tcp_push_tcphdr m1 (c\<lparr>wd := w\<rparr>) TCP_ACK 5 0 =
        Inr (m2, c\<lparr>wd := w, tx_last_ack := rcv_nxt (pcb c), tx_last_win := rcv_wnd (pcb c)\<rparr>)"
      using tcp_push_tcphdr_ok [of m1 "c\<lparr>wd := w\<rparr>"] by fastforce
    obtain ret w' where t: "net_tx_ip (fst (raddr c)) m2 w = (ret, w')" by fastforce
    have l: "world_later (wd c) w'" using net_tx_ip_later [OF t] a(2) world_later_trans by blast
    define w2 where "w2 = (if ret \<noteq> 0 then emit [Release m2] w' else w')"
    have "tx_empty sq c = Inr (ret, c\<lparr>tx_last_ack := rcv_nxt (pcb c), tx_last_win := rcv_wnd (pcb c), wd := w2\<rparr>)"
      using a(1) Some p t by (simp add: tx_empty_def m1_def w2_def Let_def)
    moreover have "world_later (wd c) w2" using l by (simp add: w2_def)
    ultimately show ?thesis unfolding acked_from_def by blast
  qed
qed

lemma tcp_tx_ack_ok: "world_ok (wd c) \<Longrightarrow> \<exists>ret c'. tcp_tx_ack c = Inr (ret, c') \<and> acked_from c c'"
  unfolding tcp_tx_ack_def by (rule tx_empty_ok)

lemma tx_raw_ok:
  assumes "world_ok w"
  shows "\<exists>ret w'. tx_raw l r sq ak fl w = Inr (ret, w') \<and> world_later w w'"
proof -
  obtain mo w1 where a: "net_tx_alloc_mbuf w = Inr (mo, w1)" "world_later w w1" "\<forall>m. mo = Some m \<longrightarrow> fresh_mbuf w m"
    using net_tx_alloc_ok [OF assms] by blast
  show ?thesis
  proof (cases mo)
    case (Some m)
    define m1 where "m1 = m\<lparr>txflags := OLFLAG_TCP_CHKSUM\<rparr>"
    have m1: "mbuf_ok m1" "TCP_HDR_LEN \<le> doff m1" using a(3) Some fresh_mbuf_push [of w m] by (auto simp: m1_def)
    have "\<exists>m'. push_hdr m1 TCP_HDR_LEN (tcp_hdr_bytes h) = Inr m'" for h
      using push_hdr_ok [OF m1, of "tcp_hdr_bytes h"] by auto
    then obtain m2 where p: "push_hdr m1 TCP_HDR_LEN (tcp_hdr_bytes
        \<lparr>sport = snd l, dport = snd r, hseq = sq, hack = ak, hoff = 5, hflags = fl, hwin = 0,
         hsum = tcp_hdr_chksum (directpath w1) (fst l) (fst r) 0\<rparr>) = Inr m2" by blast
    obtain ret w' where t: "net_tx_ip (fst r) m2 w1 = (ret, w')" by fastforce
    have "world_later w w'" using net_tx_ip_later [OF t] a(2) world_later_trans by blast
    then show ?thesis using a(1) Some p t by (simp add: tx_raw_def m1_def Let_def)
  qed (use a in \<open>auto simp: tx_raw_def\<close>)
qed

lemma send_rst_ok: "world_ok (wd c) \<Longrightarrow> \<exists>w. send_rst c acked sq ak len = Inr (c\<lparr>wd := w\<rparr>) \<and> world_later (wd c) w"
  using tx_raw_ok [of "wd c" "laddr c" "raddr c" ak 0 TCP_RST] tx_raw_ok [of "wd c" "laddr c" "raddr c" 0 "sq + len" "TCP_RST OR TCP_ACK"]
  by (auto simp: send_rst_def tcp_tx_raw_rst_def tcp_tx_raw_rst_ack_def)

text \<open>
  A queued segment that can be sent again: its options and text are in the buffer behind the
  header and fit into a packet, and the text is as long as the sequence numbers say.
\<close>

definition seg_ready :: "world \<Rightarrow> mbuf \<Rightarrow> bool" where
  "seg_ready w m \<longleftrightarrow> (mref m = 1 \<or> mref m = 2) \<and>
     transport_off m + TCP_HDR_LEN + (4 * unat (tx_opts_len m) + unat (tx_l4len m)) \<le> length (bytes m) \<and>
     4 * unat (tx_opts_len m) + unat (tx_l4len m) \<le> unat (mtu w) \<and>
     unat (seg_end m - seg_seq m) \<le> unat (tx_l4len m) + 1"

lemma seg_ready_upd [simp]:
  "tx_l4len (m\<lparr>timestamp := t\<rparr>) = tx_l4len m" "tx_opts_len (m\<lparr>timestamp := t\<rparr>) = tx_opts_len m"
  "tx_l4len (m\<lparr>mref := n\<rparr>) = tx_l4len m" "tx_opts_len (m\<lparr>mref := n\<rparr>) = tx_opts_len m"
  by (simp_all add: tx_l4len_def tx_opts_len_def)

text \<open>An acknowledgement inside a segment is nearer to its start than its end.\<close>

lemma una_inside:
  assumes "\<not> wraps_lte e una" "wraps_lt s una"
  shows "unat (una - s) < unat (e - s)"
proof (rule ccontr)
  assume n: "\<not> unat (una - s) < unat (e - s)"
  then have "e - s \<le> una - s" by (simp add: word_le_nat_alt)
  then have "unat ((una - s) - (e - s)) = unat (una - s) - unat (e - s)" by (rule unat_sub)
  moreover have "unat (una - s) \<le> 2 ^ 31" using assms(2) by (simp add: wraps_lt_iff)
  ultimately have "unat (una - e) \<le> 2 ^ 31" by (simp add: le_diff_conv)
  then show False using assms(1) by (simp add: wraps_lte_iff)
qed

lemma retransmit_prepare_copy:
  assumes w: "world_ok (wd c)" and m: "mref m \<noteq> 1"
    "transport_off m + TCP_HDR_LEN + (4 * unat ol + unat l4) \<le> length (bytes m)" "4 * unat ol + unat l4 \<le> unat (mtu (wd c))"
  shows "\<exists>pm w'. retransmit_prepare c m ol l4 = Inr (pm, c\<lparr>wd := w'\<rparr>) \<and> world_later (wd c) w' \<and>
    (\<forall>own p. pm = Some (own, p) \<longrightarrow> \<not> own \<and> mbuf_ok p \<and> TCP_HDR_LEN \<le> doff p \<and> mlen p = 4 * unat ol + unat l4 \<and>
       seg_seq p = seg_seq m \<and> seg_end p = seg_end m)"
proof -
  obtain mo w1 where a: "net_tx_alloc_mbuf (wd c) = Inr (mo, w1)" "world_later (wd c) w1" "\<forall>m. mo = Some m \<longrightarrow> fresh_mbuf (wd c) m"
    using net_tx_alloc_ok [OF w] by blast
  show ?thesis
  proof (cases mo)
    case (Some newm)
    define bs where "bs = take (4 * unat ol + unat l4) (drop (transport_off m + TCP_HDR_LEN) (bytes m))"
    have lb: "length bs = 4 * unat ol + unat l4" using m(2) by (simp add: bs_def)
    have f: "mbuf_ok newm" "mlen newm = 0" "doff newm = MBUF_DEFAULT_HEADROOM" "head_len newm = unat (mtu (wd c))"
      "MBUF_DEFAULT_HEADROOM + unat (mtu (wd c)) \<le> length (bytes newm)"
      using a(3) Some by (auto simp: fresh_mbuf_def)
    obtain p where p: "put_bytes newm bs = Inr p" "mbuf_ok p" "mbuf_data p = mbuf_data newm @ bs" "doff p = doff newm"
      using put_bytes_data [OF f(1), of bs] f lb m(3) by auto
    have lp: "mlen p = 4 * unat ol + unat l4"
      using length_mbuf_data [OF p(2)] length_mbuf_data [OF f(1)] p(3) f(2) lb by simp
    define p' where "p' = p\<lparr>mflags := mflags m, seg_seq := seg_seq m, seg_end := seg_end m, txflags := OLFLAG_TCP_CHKSUM\<rparr>"
    have "\<not> transport_off m + TCP_HDR_LEN + (4 * unat ol + unat l4) > length (bytes m)" using m(2) by simp
    then have e: "retransmit_prepare c m ol l4 = Inr (Some (False, p'), c\<lparr>wd := w1\<rparr>)"
      using m(1) p(1) unfolding retransmit_prepare_def a(1) Some bs_def by (simp add: Let_def p'_def)
    have "mbuf_ok p'" "TCP_HDR_LEN \<le> doff p'" "mlen p' = 4 * unat ol + unat l4" "seg_seq p' = seg_seq m" "seg_end p' = seg_end m"
      using p(2,4) f(3) lp by (simp_all add: p'_def TCP_HDR_LEN_def MBUF_DEFAULT_HEADROOM_def)
    then show ?thesis unfolding e using a(2) by blast
  next
    case None
    then have "retransmit_prepare c m ol l4 = Inr (None, c\<lparr>wd := w1\<rparr>)"
      using a(1) m(1) by (simp add: retransmit_prepare_def Let_def)
    then show ?thesis using a(2) by blast
  qed
qed

lemma retransmit_clip_ok:
  assumes p: "mbuf_ok p" "TCP_HDR_LEN \<le> doff p" "k \<le> mlen p"
    and una: "\<not> wraps_lte (seg_end p) una" "unat (seg_end p - seg_seq p) \<le> k + 1"
  shows "\<exists>p'. retransmit_clip una p = Inr p' \<and> mbuf_ok p' \<and> TCP_HDR_LEN \<le> doff p'"
proof (cases "wraps_lt (seg_seq p) una")
  case True
  have "unat (una - seg_seq p) \<le> mlen p" using una_inside [OF una(1) True] una(2) p(3) by linarith
  then obtain p' where "mbuf_pull p (unat (una - seg_seq p)) = Inr (take (unat (una - seg_seq p)) (mbuf_data p), p')"
    "mbuf_ok p'" "doff p' = doff p + unat (una - seg_seq p)"
    using mbuf_pull_data [OF p(1)] by blast
  then show ?thesis using True p(2) by (simp add: retransmit_clip_def)
qed (use p in \<open>simp add: retransmit_clip_def\<close>)

lemma retransmit_send_ok:
  assumes "mbuf_ok p" "TCP_HDR_LEN \<le> doff p"
  shows "\<exists>ret p' c'. retransmit_send c p ol l4 = Inr (ret, p', c') \<and> acked_from c c'"
proof -
  obtain p1 where p1: "tcp_push_tcphdr p c (mflags p) (5 + ol) l4 =
      Inr (p1, c\<lparr>tx_last_ack := rcv_nxt (pcb c), tx_last_win := rcv_wnd (pcb c)\<rparr>)"
    using tcp_push_tcphdr_ok [OF assms] by blast
  obtain ret w where t: "net_tx_ip (fst (raddr c)) p1 (wd c) = (ret, w)" by fastforce
  define w2 where "w2 = (if ret \<noteq> 0 then emit [Release p1] w else w)"
  have "world_later (wd c) w2" using net_tx_ip_later [OF t] by (simp add: w2_def)
  then have "acked_from c (c\<lparr>tx_last_ack := rcv_nxt (pcb c), tx_last_win := rcv_wnd (pcb c), wd := w2\<rparr>)"
    unfolding acked_from_def by blast
  then show ?thesis using p1 t by (simp add: retransmit_send_def w2_def)
qed

lemma tcp_tx_retransmit_one_copy:
  assumes w: "world_ok (wd c)" and m: "mref m \<noteq> 1"
    "transport_off m + TCP_HDR_LEN + (4 * unat (tx_opts_len m) + unat (tx_l4len m)) \<le> length (bytes m)"
    "4 * unat (tx_opts_len m) + unat (tx_l4len m) \<le> unat (mtu (wd c))" "unat (seg_end m - seg_seq m) \<le> unat (tx_l4len m) + 1"
  shows "\<exists>ret c'. tcp_tx_retransmit_one c m = Inr (ret, m, c') \<and> acked_from c c'"
proof -
  obtain pm w1 where pm: "retransmit_prepare c m (tx_opts_len m) (tx_l4len m) = Inr (pm, c\<lparr>wd := w1\<rparr>)" "world_later (wd c) w1"
    "\<forall>own p. pm = Some (own, p) \<longrightarrow> \<not> own \<and> mbuf_ok p \<and> TCP_HDR_LEN \<le> doff p \<and>
       mlen p = 4 * unat (tx_opts_len m) + unat (tx_l4len m) \<and> seg_seq p = seg_seq m \<and> seg_end p = seg_end m"
    using retransmit_prepare_copy [OF w m(1-3)] by blast
  show ?thesis
  proof (cases pm)
    case None
    then show ?thesis using pm(1) acked_from_wd [OF pm(2)] by (auto simp: tcp_tx_retransmit_one_def)
  next
    case (Some op)
    then obtain p where op: "op = (False, p)" using pm(3) by (cases op) auto
    have p: "mbuf_ok p" "TCP_HDR_LEN \<le> doff p" "unat (tx_l4len m) \<le> mlen p" "seg_seq p = seg_seq m" "seg_end p = seg_end m"
      using pm(3) Some op by auto
    show ?thesis
    proof (cases "wraps_lte (seg_end p) (snd_una (pcb c))")
      case True
      then show ?thesis using pm(1) Some op acked_from_wd [of c "emit [Release p] w1"] pm(2) by (auto simp: tcp_tx_retransmit_one_def)
    next
      case False
      then obtain p1 where p1: "retransmit_clip (snd_una (pcb c)) p = Inr p1" "mbuf_ok p1" "TCP_HDR_LEN \<le> doff p1"
        using retransmit_clip_ok [OF p(1-3)] p(4,5) m(4) by metis
      obtain ret p2 c2 where "retransmit_send (c\<lparr>wd := w1\<rparr>) p1 (tx_opts_len m) (tx_l4len m) = Inr (ret, p2, c2)" "acked_from (c\<lparr>wd := w1\<rparr>) c2"
        using retransmit_send_ok [OF p1(2,3)] by blast
      then show ?thesis
        using pm(1) Some op False p1(1) acked_from_trans [OF acked_from_wd [OF pm(2)]] by (auto simp: tcp_tx_retransmit_one_def)
    qed
  qed
qed

subsection \<open>Frames\<close>

text \<open>
  The egress side of a connection at rest, and while the first segment of the queue is held for a
  retransmission.
\<close>

definition tx_side_ok :: "tcpconn \<Rightarrow> bool" where
  "tx_side_ok c \<longleftrightarrow> world_ok (wd c) \<and> (\<forall>m \<in> set (txq c). seg_ready (wd c) m)"

definition tx_held_ok :: "mbuf option \<Rightarrow> tcpconn \<Rightarrow> bool" where
  "tx_held_ok h c \<longleftrightarrow>
     (case h of
        None \<Rightarrow> tx_side_ok c
      | Some m \<Rightarrow> mref m \<noteq> 1 \<and> (\<exists>q. txq c = m # q \<and> tx_side_ok (c\<lparr>txq := m\<lparr>mref := mref m - 1\<rparr> # q\<rparr>)))"

text \<open>What a step leaves alone: the ingress side, and the egress side.\<close>

definition rx_same :: "tcpconn \<Rightarrow> tcpconn \<Rightarrow> bool" where
  "rx_same c c' \<longleftrightarrow> rcv_nxt (pcb c') = rcv_nxt (pcb c) \<and> rcv_wnd (pcb c') = rcv_wnd (pcb c) \<and> rxq c' = rxq c \<and>
     rxq_ooo c' = rxq_ooo c \<and> rxq_ooo_len c' = rxq_ooo_len c"

definition tx_same :: "tcpconn \<Rightarrow> tcpconn \<Rightarrow> bool" where
  "tx_same c c' \<longleftrightarrow> txq c' = txq c \<and> world_later (wd c) (wd c')"

lemma rx_same_refl [simp]: "rx_same c c" by (simp add: rx_same_def)

lemma tx_same_refl [simp]: "tx_same c c" by (simp add: tx_same_def)

lemma rx_same_trans [trans]: "rx_same c c' \<Longrightarrow> rx_same c' c'' \<Longrightarrow> rx_same c c''"
  by (simp add: rx_same_def)

lemma tx_same_trans [trans]: "tx_same c c' \<Longrightarrow> tx_same c' c'' \<Longrightarrow> tx_same c c''"
  by (auto simp: tx_same_def intro: world_later_trans)

lemma rx_inv_same: "rx_inv st isn L r n R ps c \<Longrightarrow> rx_same c c' \<Longrightarrow> rx_inv st isn L r n R ps c'"
  by (simp add: rx_inv_def rx_same_def)

lemma seg_ready_later: "seg_ready w m \<Longrightarrow> world_later w w' \<Longrightarrow> seg_ready w' m"
  by (simp add: seg_ready_def world_later_def)

lemma tx_side_ok_shrink:
  "tx_side_ok c \<Longrightarrow> set (txq c') \<subseteq> set (txq c) \<Longrightarrow> world_later (wd c) (wd c') \<Longrightarrow> tx_side_ok c'"
  unfolding tx_side_ok_def by (auto intro: world_ok_later seg_ready_later)

lemma tx_side_ok_same: "tx_side_ok c \<Longrightarrow> tx_same c c' \<Longrightarrow> tx_side_ok c'"
  by (rule tx_side_ok_shrink) (auto simp: tx_same_def)

lemma tx_held_ok_same: "tx_held_ok h c \<Longrightarrow> tx_same c c' \<Longrightarrow> tx_held_ok h c'"
proof (cases h)
  case (Some m)
  assume h: "tx_held_ok h c" and t: "tx_same c c'"
  then obtain q where q: "mref m \<noteq> 1" "txq c = m # q" "tx_side_ok (c\<lparr>txq := m\<lparr>mref := mref m - 1\<rparr> # q\<rparr>)"
    using Some by (auto simp: tx_held_ok_def)
  have "tx_side_ok (c'\<lparr>txq := m\<lparr>mref := mref m - 1\<rparr> # q\<rparr>)"
    using q(3) t by (rule_tac tx_side_ok_shrink [OF q(3)]) (simp_all add: tx_same_def)
  then show ?thesis using q(1,2) t Some by (simp add: tx_held_ok_def tx_same_def)
qed (simp add: tx_held_ok_def tx_side_ok_same)

subsection \<open>Steps of the slow path\<close>

lemma tcp_timer_update_same [simp]:
  "pcb (tcp_timer_update now c) = pcb c" "rx_same c (tcp_timer_update now c)" "tx_same c (tcp_timer_update now c)"
  by (simp_all add: tcp_timer_update_def Let_def rx_same_def tx_same_def)

lemma tcp_conn_set_state_ok:
  assumes "state (pcb c) = CLOSED \<or> state (pcb c) < st"
  shows "\<exists>c'. tcp_conn_set_state now c st = Inr c' \<and> pcb c' = (pcb c)\<lparr>state := st\<rparr> \<and> rx_same c c' \<and> tx_same c c' \<and>
    err c' = err c"
  using assms
  by (auto simp: tcp_conn_set_state_def assert_that_def Let_def tcp_timer_update_def rx_same_def tx_same_def waitq_release_tx_def)

lemma tcp_conn_put_ok:
  assumes "state (pcb c) = CLOSED"
  shows "\<exists>c'. tcp_conn_put c = Inr c' \<and> pcb c' = pcb c \<and> rx_same c c' \<and> tx_same c c' \<and> err c' = err c"
  using assms
  by (auto simp: tcp_conn_put_def Let_def tcp_conn_release_ref_def rx_same_def tx_same_def split: prod.splits)

lemma tcp_conn_fail_ok:
  assumes "state (pcb c) \<noteq> CLOSED" "tx_side_ok c"
  shows "\<exists>c'. tcp_conn_fail now c e = Inr c' \<and> state (pcb c') = CLOSED \<and> err c' = e \<and> tx_side_ok c'"
proof -
  have "state (pcb c) < CLOSED" using assms(1) by (cases "state (pcb c)") (simp_all add: tcp_state_order)
  then obtain c1 where c1: "tcp_conn_set_state now (c\<lparr>err := e\<rparr>) CLOSED = Inr c1" "pcb c1 = (pcb c)\<lparr>state := CLOSED\<rparr>"
    "tx_same (c\<lparr>err := e\<rparr>) c1" "err c1 = e"
    using tcp_conn_set_state_ok [of "c\<lparr>err := e\<rparr>" CLOSED now] by auto
  define c2 where "c2 = tcp_conn_shutdown_rx c1"
  define c3 where "c3 = (if tx_closed c2 then c2 else waitq_release_tx (c2\<lparr>tx_closed := True\<rparr>))"
  define c4 where "c4 = fail_ingress (fail_egress c3)"
  have s: "pcb c4 = pcb c1" "err c4 = e" "set (txq c4) \<subseteq> set (txq c1)" "world_later (wd c1) (wd c4)"
    using c1(4)
    by (auto simp: c4_def c3_def c2_def fail_ingress_def fail_egress_def tcp_conn_shutdown_rx_def waitq_release_rx_def
        waitq_release_tx_def mbuf_list_free_def Let_def)
  have "tx_side_ok (c\<lparr>err := e\<rparr>)" using assms(2) by (simp add: tx_side_ok_def)
  from tx_side_ok_same [OF this c1(3)] have t: "tx_side_ok c4" using s(3,4) by (rule tx_side_ok_shrink)
  obtain c5 where c5: "tcp_conn_put c4 = Inr c5" "pcb c5 = pcb c4" "tx_same c4 c5" "err c5 = err c4"
    using tcp_conn_put_ok [of c4] s(1) c1(2) by auto
  have "tcp_conn_fail now c e = Inr c5"
    using c1(1) c5(1) unfolding tcp_conn_fail_def c4_def c3_def c2_def by (simp add: Let_def)
  then show ?thesis using c5 s c1(2) tx_side_ok_same [OF t c5(3)] by auto
qed

lemma tcp_conn_ack_ok:
  assumes "tcp_conn_ack c = (q, c')" "tx_side_ok c"
  shows "pcb c' = pcb c \<and> rx_same c c' \<and> tx_side_ok c'"
  using assms
  by (auto simp: tcp_conn_ack_def rx_same_def Let_def split: if_splits
      elim!: tx_side_ok_shrink dest: set_dropWhileD)

lemma rx_process_ack_ok:
  assumes "rx_process_ack c sq ak nxt win = Some (same, changed, q, c')" "tx_side_ok c"
  shows "rx_same c c' \<and> tx_side_ok c' \<and> state (pcb c') = state (pcb c)"
proof (cases "wraps_lte (snd_una (pcb c)) ak \<and> wraps_lte ak nxt")
  case True
  obtain q1 c1 where c1: "(if snd_una (pcb c) = ak then ([], c) else tcp_conn_ack (upd_pcb (\<lambda>p. p\<lparr>snd_una := ak\<rparr>) c)) = (q1, c1)"
    by fastforce
  have u: "tx_side_ok (upd_pcb (\<lambda>p. p\<lparr>snd_una := ak\<rparr>) c)" "rx_same c (upd_pcb (\<lambda>p. p\<lparr>snd_una := ak\<rparr>) c)"
    using assms(2) by (simp_all add: tx_side_ok_def rx_same_def)
  have k: "rx_same c c1 \<and> tx_side_ok c1 \<and> state (pcb c1) = state (pcb c)"
  proof (cases "snd_una (pcb c) = ak")
    case False
    then have "tcp_conn_ack (upd_pcb (\<lambda>p. p\<lparr>snd_una := ak\<rparr>) c) = (q1, c1)" using c1 by simp
    from tcp_conn_ack_ok [OF this u(1)] show ?thesis using rx_same_trans [OF u(2)] by auto
  qed (use c1 assms(2) in auto)
  have "c' = c1 \<or> c' = upd_pcb (\<lambda>p. p\<lparr>snd_wnd := win, snd_wl1 := sq, snd_wl2 := ak\<rparr>) c1"
    using assms(1) True c1 unfolding rx_process_ack_def Let_def by (auto split: if_splits)
  then show ?thesis using k by (auto simp: rx_same_def tx_side_ok_def)
next
  case False
  then show ?thesis using assms unfolding rx_process_ack_def by (auto split: if_splits)
qed

lemma tx_fast_retransmit_start_ok:
  assumes "tcp_tx_fast_retransmit_start now c = (r, c')" "tx_side_ok c"
  shows "rx_same c c' \<and> tx_held_ok r c' \<and> pcb c' = pcb c"
proof (cases "tx_exclusive c \<or> txq c = []")
  case True
  then have "tcp_tx_fast_retransmit_start now c = (None, c)" by (auto simp: tcp_tx_fast_retransmit_start_def)
  then show ?thesis using assms by (auto simp: tx_held_ok_def)
next
  case False
  then obtain m q where q: "txq c = m # q" "\<not> tx_exclusive c" by (auto simp: neq_Nil_conv)
  define m1 where "m1 = m\<lparr>timestamp := now, mref := mref m + 1\<rparr>"
  have e: "r = Some m1" "c' = c\<lparr>txq := m1 # q\<rparr>" using assms(1) q by (auto simp: tcp_tx_fast_retransmit_start_def m1_def Let_def)
  have r: "seg_ready (wd c) m" using assms(2) q(1) by (simp add: tx_side_ok_def)
  then have "mref m1 \<noteq> 1" by (auto simp: m1_def seg_ready_def)
  moreover have "m1\<lparr>mref := mref m1 - 1\<rparr> = m\<lparr>timestamp := now\<rparr>" by (simp add: m1_def)
  moreover have "seg_ready (wd c) (m\<lparr>timestamp := now\<rparr>)" using r by (simp add: seg_ready_def)
  ultimately show ?thesis using assms(2) q(1) by (simp add: tx_held_ok_def e tx_side_ok_def rx_same_def)
qed

lemma rx_dup_ack_ok:
  assumes "rx_dup_ack now c ak len same changed = (r, c')" "tx_side_ok c"
  shows "rx_same c c' \<and> tx_held_ok r c' \<and> pcb c' = pcb c"
proof (cases "same \<and> snd_una (pcb c) \<noteq> snd_nxt (pcb c) \<and> len = 0 \<and> \<not> changed \<and> rep_acks c + 1 \<ge> TCP_FAST_RETRANSMIT_THRESH \<and>
    \<not> tx_exclusive c")
  case True
  define c1 where "c1 = c\<lparr>rep_acks := rep_acks c + 1\<rparr>"
  obtain c2 where c2: "tcp_tx_fast_retransmit_start now c1 = (r, c2)" "c' = c2\<lparr>rep_acks := 0\<rparr>"
    using assms(1) True by (auto simp: rx_dup_ack_def Let_def c1_def split: prod.splits)
  have "tx_side_ok c1" using assms(2) by (simp add: c1_def tx_side_ok_def)
  from tx_fast_retransmit_start_ok [OF c2(1) this] have h: "rx_same c1 c2" "tx_held_ok r c2" "pcb c2 = pcb c1" by auto
  have "tx_held_ok r c'" using h(2) by (rule tx_held_ok_same) (simp add: c2(2) tx_same_def)
  then show ?thesis using h(1,3) by (simp add: c2(2) rx_same_def c1_def)
next
  case False
  then have "r = None \<and> rx_same c c' \<and> tx_same c c' \<and> pcb c' = pcb c"
    using assms(1) by (auto simp: rx_dup_ack_def Let_def rx_same_def tx_same_def split: if_splits)
  then show ?thesis using tx_side_ok_same [OF assms(2)] by (auto simp: tx_held_ok_def)
qed

text \<open>The states in which text is received.\<close>

definition text_state :: "tcp_state \<Rightarrow> bool" where
  "text_state s \<longleftrightarrow> s = ESTABLISHED \<or> s = FIN_WAIT1 \<or> s = FIN_WAIT2"

text \<open>The states after the FIN of the peer.\<close>

definition fin_state :: "tcp_state \<Rightarrow> bool" where
  "fin_state s \<longleftrightarrow> s = CLOSE_WAIT \<or> s = CLOSING \<or> s = LAST_ACK \<or> s = TIME_WAIT"

lemma rx_fin_acked_ok:
  shows "\<exists>closed c'. rx_fin_acked now c nxt = Inr (closed, c') \<and> rx_same c c' \<and> tx_same c c' \<and>
    snd_una (pcb c') = snd_una (pcb c) \<and> state (pcb c) \<le> state (pcb c') \<and>
    (state (pcb c') = FIN_WAIT1 \<longrightarrow> snd_una (pcb c) \<noteq> nxt) \<and>
    (if closed then state (pcb c') = CLOSED
     else text_state (state (pcb c')) = text_state (state (pcb c)) \<and> fin_state (state (pcb c')) = fin_state (state (pcb c)) \<and>
       (state (pcb c) \<noteq> CLOSED \<longrightarrow> state (pcb c') \<noteq> CLOSED) \<and> (state (pcb c') = SYN_RECEIVED \<longrightarrow> state (pcb c) = SYN_RECEIVED))"
proof (cases "snd_una (pcb c) = nxt \<and> (state (pcb c) = FIN_WAIT1 \<or> state (pcb c) = CLOSING \<or> state (pcb c) = LAST_ACK)")
  case True
  then consider (f) "state (pcb c) = FIN_WAIT1" | (g) "state (pcb c) = CLOSING" | (l) "state (pcb c) = LAST_ACK" by blast
  then show ?thesis
  proof cases
    case f
    then obtain c' where c': "tcp_conn_set_state now c FIN_WAIT2 = Inr c'" "pcb c' = (pcb c)\<lparr>state := FIN_WAIT2\<rparr>" "rx_same c c'" "tx_same c c'"
      using tcp_conn_set_state_ok [of c FIN_WAIT2 now] by (auto simp: tcp_state_order)
    then show ?thesis using True f by (intro exI [of _ False]) (simp add: rx_fin_acked_def text_state_def fin_state_def tcp_state_order)
  next
    case g
    define c1 where "c1 = c\<lparr>time_wait_ts := now\<rparr>"
    obtain c' where c': "tcp_conn_set_state now c1 TIME_WAIT = Inr c'" "pcb c' = (pcb c)\<lparr>state := TIME_WAIT\<rparr>" "rx_same c1 c'" "tx_same c1 c'"
      using g tcp_conn_set_state_ok [of c1 TIME_WAIT now] by (auto simp: tcp_state_order c1_def)
    have "rx_same c c'" "tx_same c c'" using c'(3,4) by (simp_all add: rx_same_def tx_same_def c1_def)
    then show ?thesis using True g c' by (intro exI [of _ False]) (simp add: rx_fin_acked_def text_state_def fin_state_def tcp_state_order flip: c1_def)
  next
    case l
    then obtain c1 where c1: "tcp_conn_set_state now c CLOSED = Inr c1" "pcb c1 = (pcb c)\<lparr>state := CLOSED\<rparr>" "rx_same c c1" "tx_same c c1"
      using tcp_conn_set_state_ok [of c CLOSED now] by (auto simp: tcp_state_order)
    then obtain c' where "tcp_conn_put c1 = Inr c'" "pcb c' = pcb c1" "rx_same c1 c'" "tx_same c1 c'"
      using tcp_conn_put_ok [of c1] by auto
    then show ?thesis
      using True l c1 rx_same_trans [OF c1(3)] tx_same_trans [OF c1(4)]
      by (intro exI [of _ True]) (simp add: rx_fin_acked_def tcp_state_order)
  qed
next
  case False
  then have "rx_fin_acked now c nxt = Inr (False, c)" by (auto simp: rx_fin_acked_def)
  then show ?thesis using False by auto
qed

text \<open>
  The stream is received up to \<open>n'\<close> now: \<open>n\<close> was the position before, \<open>k\<close> the one that is guaranteed.
\<close>

definition rx_progress :: "u8 list \<Rightarrow> u32 \<Rightarrow> nat \<Rightarrow> nat \<Rightarrow> nat \<Rightarrow> nat \<Rightarrow> nat \<Rightarrow> nat \<Rightarrow> tcpconn \<Rightarrow> bool" where
  "rx_progress st isn L r n k R n' c \<longleftrightarrow>
     (\<exists>ps. rx_inv st isn L r n' R ps c) \<and> n \<le> n' \<and> k \<le> n' \<and> n' \<le> max n (length st + 1)"

lemma rx_progress_same: "rx_progress st isn L r n k R n' c \<Longrightarrow> rx_same c c' \<Longrightarrow> rx_progress st isn L r n k R n' c'"
  unfolding rx_progress_def by (blast intro: rx_inv_same)

lemma rx_progress_refl: "rx_inv st isn L r n R ps c \<Longrightarrow> rx_progress st isn L r n n R n c"
  by (auto simp: rx_progress_def)

text \<open>How far the stream is received at least when the segment \<open>m\<close> at \<open>a\<close> is taken.\<close>

definition taken_to :: "nat \<Rightarrow> nat \<Rightarrow> nat \<Rightarrow> mbuf \<Rightarrow> nat" where
  "taken_to n R a m = (if a \<le> n then min (seg_stop a m) R else n)"

lemma rx_text_step_ok:
  assumes i: "rx_inv st isn L r n R ps c" and h: "tx_held_ok (w_retransmit w) c"
    and m: "0 < len \<longrightarrow> ooo_seg st isn L n R (a, m\<lparr>seg_end := seg_seq m + len\<rparr>)"
  shows "\<exists>w' fin c' n'. rx_text_step now c m len w = Inr (w', fin, c') \<and> tx_held_ok (w_retransmit w') c' \<and>
    rx_progress st isn L r n (if 0 < len \<and> text_state (state (pcb c)) then taken_to n R a m else n) R n' c' \<and>
    (fin \<longleftrightarrow> n < n' \<and> n' = length st + 1) \<and> state (pcb c') = state (pcb c) \<and> snd_una (pcb c') = snd_una (pcb c) \<and>
    (\<not> text_state (state (pcb c)) \<longrightarrow> n' = n)"
proof (cases "0 < len \<and> text_state (state (pcb c))")
  case True
  define m1 where "m1 = m\<lparr>seg_end := seg_seq m + len\<rparr>"
  have s: "seg_stop a m1 = seg_stop a m" by (simp add: m1_def seg_stop_def fin_len_def)
  have "rx_texted st isn L r n (taken_to n R a m) R c (tcp_rx_text c m1)"
    unfolding taken_to_def s [symmetric] using m True by (intro tcp_rx_text_spec [OF i]) (simp add: m1_def)
  then obtain used wake fin n' ps' q es where t: "tcp_rx_text c m1 = Inr (used, wake, fin,
      rx_upd isn n' R q (map snd ps') (of_nat (length ps')) es c)"
    "rx_inv st isn L r n' R ps' (rx_upd isn n' R q (map snd ps') (of_nat (length ps')) es c)"
    "n \<le> n'" "taken_to n R a m \<le> n'" "n' \<le> max n (length st + 1)" "wake \<longrightarrow> q \<noteq> [] \<and> used" "fin \<longleftrightarrow> n < n' \<and> n' = length st + 1"
    unfolding rx_texted_def by blast
  define c1 where "c1 = rx_upd isn n' R q (map snd ps') (of_nat (length ps')) es c"
  have c1: "rxq c1 = q" "state (pcb c1) = state (pcb c)" "snd_una (pcb c1) = snd_una (pcb c)" "tx_same c c1"
    by (simp_all add: c1_def rx_upd_def tx_same_def)
  have as: "assert_that (wake \<longrightarrow> rxq c1 \<noteq> [] \<and> used) = Inr ()" using t(6) by (simp add: assert_that_def c1(1))
  have st: "0 < len \<and> (state (pcb c) = ESTABLISHED \<or> state (pcb c) = FIN_WAIT1 \<or> state (pcb c) = FIN_WAIT2)"
    using True by (simp add: text_state_def)
  have "\<exists>w' c'. rx_text_step now c m len w = Inr (w', fin, c') \<and> rx_same c1 c' \<and> tx_same c1 c' \<and> pcb c' = pcb c1 \<and>
      w_retransmit w' = w_retransmit w"
    unfolding rx_text_step_def if_P [OF st] m1_def [symmetric] t(1) c1_def [symmetric]
    by (simp add: as Let_def split_beta rx_same_def tx_same_def)
  then obtain w' c' where c': "rx_text_step now c m len w = Inr (w', fin, c')" "rx_same c1 c'" "tx_same c1 c'" "pcb c' = pcb c1"
    "w_retransmit w' = w_retransmit w" by blast
  have "tx_held_ok (w_retransmit w') c'"
    using tx_held_ok_same [OF tx_held_ok_same [OF h c1(4)] c'(3)] c'(5) by simp
  moreover have "rx_progress st isn L r n (taken_to n R a m) R n' c'"
    using t(2-5) by (intro rx_progress_same [OF _ c'(2)]) (auto simp: rx_progress_def c1_def)
  ultimately show ?thesis using c'(1,4) c1(2,3) t(7) True by auto
next
  case False
  then have "rx_text_step now c m len w = Inr (w, False, c)" by (auto simp: rx_text_step_def text_state_def)
  then show ?thesis using h rx_progress_refl [OF i] False by auto
qed

lemma rx_fin_ok:
  assumes "text_state (state (pcb c))" "state (pcb c) = FIN_WAIT1 \<longrightarrow> snd_una (pcb c) \<noteq> nxt" "tx_held_ok (w_retransmit w) c"
  shows "\<exists>w' c'. rx_fin now c nxt w = Inr (w', c') \<and> rx_same c c' \<and> tx_held_ok (w_retransmit w') c' \<and>
    fin_state (state (pcb c')) \<and> state (pcb c) \<le> state (pcb c')"
proof -
  consider (e) "state (pcb c) = ESTABLISHED" | (f) "state (pcb c) = FIN_WAIT1" | (g) "state (pcb c) = FIN_WAIT2"
    using assms(1) by (auto simp: text_state_def)
  then show ?thesis
  proof cases
    case e
    then obtain c' where c': "tcp_conn_set_state now c CLOSE_WAIT = Inr c'" "pcb c' = (pcb c)\<lparr>state := CLOSE_WAIT\<rparr>" "rx_same c c'" "tx_same c c'"
      using tcp_conn_set_state_ok [of c CLOSE_WAIT now] by (auto simp: tcp_state_order)
    then show ?thesis using e tx_held_ok_same [OF assms(3) c'(4)] by (simp add: rx_fin_def assert_that_def fin_state_def tcp_state_order)
  next
    case f
    then obtain c' where c': "tcp_conn_set_state now c CLOSING = Inr c'" "pcb c' = (pcb c)\<lparr>state := CLOSING\<rparr>" "rx_same c c'" "tx_same c c'"
      using tcp_conn_set_state_ok [of c CLOSING now] by (auto simp: tcp_state_order)
    then show ?thesis
      using f assms(2) tx_held_ok_same [OF assms(3) c'(4)] by (simp add: rx_fin_def assert_that_def fin_state_def tcp_state_order)
  next
    case g
    define c1 where "c1 = c\<lparr>time_wait_ts := now\<rparr>"
    obtain c' where c': "tcp_conn_set_state now c1 TIME_WAIT = Inr c'" "pcb c' = (pcb c)\<lparr>state := TIME_WAIT\<rparr>" "rx_same c1 c'" "tx_same c1 c'"
      using g tcp_conn_set_state_ok [of c1 TIME_WAIT now] by (auto simp: tcp_state_order c1_def)
    have "rx_same c c'" "tx_same c c'" using c'(3,4) by (simp_all add: rx_same_def tx_same_def c1_def)
    then show ?thesis
      using g c'(1,2) tx_held_ok_same [OF assms(3)] by (simp add: rx_fin_def assert_that_def fin_state_def tcp_state_order flip: c1_def)
  qed
qed

text \<open>The FIN of the peer has been received exactly in the states after it.\<close>

definition fin_seen :: "u8 list \<Rightarrow> nat \<Rightarrow> tcp_state \<Rightarrow> bool" where
  "fin_seen st n s \<longleftrightarrow> n \<le> length st + 1 \<and> (s = CLOSED \<or> (fin_state s \<longleftrightarrow> n = length st + 1))"

lemma sync_state: "ESTABLISHED \<le> s \<Longrightarrow> s \<noteq> CLOSED \<Longrightarrow> text_state s \<longleftrightarrow> \<not> fin_state s"
  by (cases s) (simp_all add: text_state_def fin_state_def tcp_state_order)

lemma rx_ack_and_text_ok:
  assumes i: "rx_inv st isn L r n R ps c" and t: "tx_side_ok c" and s: "ESTABLISHED \<le> state (pcb c)" "state (pcb c) \<noteq> CLOSED"
    and f: "fin_seen st n (state (pcb c))"
    and m: "0 < len \<longrightarrow> ooo_seg st isn L n R (a, m\<lparr>seg_end := seg_seq m + len\<rparr>)"
  shows "\<exists>w c' n'. rx_ack_and_text now c m ak nxt win len = Inr (w, c') \<and> tx_held_ok (w_retransmit w) c' \<and>
    rx_progress st isn L r n
      (if 0 < len \<and> text_state (state (pcb c)) \<and> \<not> wraps_gt ak nxt then taken_to n R a m else n) R n' c' \<and>
    fin_seen st n' (state (pcb c')) \<and> state (pcb c) \<le> state (pcb c')"
proof (cases "rx_process_ack c (seg_seq m) ak nxt win")
  case None
  then have "rx_ack_and_text now c m ak nxt win len = Inr (rx_work0\<lparr>w_do_ack := True\<rparr>, c)"
    by (simp add: rx_ack_and_text_def Let_def)
  moreover have "wraps_gt ak nxt" using None by (auto simp: rx_process_ack_def Let_def split: if_splits prod.splits)
  ultimately show ?thesis using rx_progress_refl [OF i] t f by (auto simp: rx_work0_def tx_held_ok_def)
next
  case (Some p)
  obtain same changed q c1 where p: "p = (same, changed, q, c1)" using prod_cases4 by blast
  have c1: "rx_same c c1" "tx_side_ok c1" "state (pcb c1) = state (pcb c)"
    using rx_process_ack_ok [OF Some [unfolded p] t] by auto
  define full where "full = (tcp_is_snd_full c \<and> \<not> tcp_is_snd_full c1)"
  define c2 where "c2 = (if full then c1\<lparr>tx_wq := []\<rparr> else c1)"
  have c2: "rx_same c1 c2" "tx_side_ok c2" "pcb c2 = pcb c1"
    using c1(2) by (simp_all add: c2_def rx_same_def tx_side_ok_def)
  obtain rt c3 where r: "rx_dup_ack now c2 ak len same changed = (rt, c3)" by fastforce
  have c3: "rx_same c2 c3" "tx_held_ok rt c3" "pcb c3 = pcb c2" using rx_dup_ack_ok [OF r c2(2)] by auto
  define w where "w = rx_work0\<lparr>w_free := q, w_waiters := (if full then tx_wq c1 else []), w_retransmit := rt\<rparr>"
  have pr: "(if tcp_is_snd_full c \<and> \<not> tcp_is_snd_full c1 then (tx_wq c1, c1\<lparr>tx_wq := []\<rparr>) else ([], c1)) =
      (if full then tx_wq c1 else [], c2)"
    by (simp add: full_def c2_def)
  have e: "rx_ack_and_text now c m ak nxt win len = bind_exec (rx_fin_acked now c3 nxt) (\<lambda>(closed, c).
        if closed then Inr (w, c)
        else bind_exec (rx_text_step now c m len w) (\<lambda>(w, fin, c). if fin then rx_fin now c nxt w else Inr (w, c)))"
    unfolding rx_ack_and_text_def Some p Let_def w_def by (simp only: option.case prod.case pr r)
  obtain closed c4 where c4: "rx_fin_acked now c3 nxt = Inr (closed, c4)" "rx_same c3 c4" "tx_same c3 c4"
    "state (pcb c3) \<le> state (pcb c4)" "state (pcb c4) = FIN_WAIT1 \<longrightarrow> snd_una (pcb c4) \<noteq> nxt"
    "if closed then state (pcb c4) = CLOSED
     else text_state (state (pcb c4)) = text_state (state (pcb c3)) \<and> fin_state (state (pcb c4)) = fin_state (state (pcb c3)) \<and>
       (state (pcb c3) \<noteq> CLOSED \<longrightarrow> state (pcb c4) \<noteq> CLOSED)"
    using rx_fin_acked_ok [of now c3 nxt] by (auto split: if_splits)
  have st: "state (pcb c3) = state (pcb c)" using c1(3) c2(3) c3(3) by simp
  have i4: "rx_inv st isn L r n R ps c4"
    using i rx_same_trans [OF rx_same_trans [OF rx_same_trans [OF c1(1) c2(1)] c3(1)] c4(2)] rx_inv_same by blast
  have h4: "tx_held_ok (w_retransmit w) c4" using tx_held_ok_same [OF c3(2) c4(3)] by (simp add: w_def)
  show ?thesis
  proof (cases closed)
    case True
    then have "\<not> text_state (state (pcb c))"
      using c4(1) st by (auto simp: rx_fin_acked_def Let_def text_state_def split: if_splits elim!: bind_exec_InrE)
    then show ?thesis
      using True c4(1,4,6) h4 rx_progress_refl [OF i4] f st by (auto simp: e fin_seen_def)
  next
    case False
    then have k: "text_state (state (pcb c4)) = text_state (state (pcb c))" "fin_state (state (pcb c4)) = fin_state (state (pcb c))"
      "state (pcb c4) \<noteq> CLOSED" using c4(6) st s(2) by auto
    obtain w' fin c5 n' where c5: "rx_text_step now c4 m len w = Inr (w', fin, c5)" "tx_held_ok (w_retransmit w') c5"
      "rx_progress st isn L r n (if 0 < len \<and> text_state (state (pcb c4)) then taken_to n R a m else n) R n' c5"
      "fin \<longleftrightarrow> n < n' \<and> n' = length st + 1" "state (pcb c5) = state (pcb c4)" "snd_una (pcb c5) = snd_una (pcb c4)"
      "\<not> text_state (state (pcb c4)) \<longrightarrow> n' = n"
      using rx_text_step_ok [OF i4 h4 m] by blast
    have g: "rx_progress st isn L r n (if 0 < len \<and> text_state (state (pcb c)) \<and> \<not> wraps_gt ak nxt then taken_to n R a m else n) R n' c5"
      using c5(3) k(1) by (auto simp: rx_progress_def)
    have n': "n \<le> n'" "n' \<le> length st + 1" using g f by (auto simp: rx_progress_def fin_seen_def)
    show ?thesis
    proof (cases fin)
      case True
      then have x: "text_state (state (pcb c5))" using c5(4,5,7) by auto
      obtain w2 c6 where c6: "rx_fin now c5 nxt w' = Inr (w2, c6)" "rx_same c5 c6" "tx_held_ok (w_retransmit w2) c6"
        "fin_state (state (pcb c6))" "state (pcb c5) \<le> state (pcb c6)"
        using rx_fin_ok [OF x _ c5(2), of nxt now] c4(5) c5(5,6) by auto
      have "fin_seen st n' (state (pcb c6))" using c6(4) True c5(4) n'(2) by (simp add: fin_seen_def)
      moreover have "state (pcb c) \<le> state (pcb c6)" using c4(4) c5(5) c6(5) st by simp
      ultimately show ?thesis
        using c4(1) c5(1) c6(1,3) \<open>\<not> closed\<close> True rx_progress_same [OF g c6(2)] unfolding e by auto
    next
      case nofin: False
      have "fin_seen st n' (state (pcb c5))"
        using nofin c5(4,5,7) n' k f s sync_state [OF s] by (auto simp: fin_seen_def)
      then show ?thesis using c4(1,4) c5(1,2,5) \<open>\<not> closed\<close> nofin g st unfolding e by auto
    qed
  qed
qed

text \<open>
  A segment of the stream as it comes from the network: not too far from the window, and a FIN is
  inside the window. \<open>len\<close> counts the FIN.
\<close>

definition arrives :: "u8 list \<Rightarrow> u32 \<Rightarrow> nat \<Rightarrow> nat \<Rightarrow> nat \<Rightarrow> nat \<Rightarrow> mbuf \<Rightarrow> u32 \<Rightarrow> bool" where
  "arrives st isn L n R a m len \<longleftrightarrow>
     len = of_nat (seg_stop a m - a) \<and> seg_at st isn a (m\<lparr>seg_end := seg_seq m + len\<rparr>) \<and> seg_stop a m \<le> a + L \<and>
     a < n + 2 ^ 30 \<and> n < a + 2 ^ 30 \<and> (has (mflags m) TCP_FIN \<longrightarrow> seg_stop a m \<le> R)"

lemma arrives_ooo_seg:
  assumes w: "window_ok L n R" and c: "rcv_nxt (pcb c) = seq_of isn n" "rcv_wnd (pcb c) = of_nat (R - n)"
    and m: "arrives st isn L n R a m len" "is_acceptable c len (seg_seq m)"
  shows "0 < len \<longrightarrow> ooo_seg st isn L n R (a, m\<lparr>seg_end := seg_seq m + len\<rparr>)"
proof
  assume l: "0 < len"
  define m1 where "m1 = m\<lparr>seg_end := seg_seq m + len\<rparr>"
  have s: "seg_stop a m1 = seg_stop a m" "mflags m1 = mflags m" by (simp_all add: m1_def seg_stop_def fin_len_def)
  have a: "len = of_nat (seg_stop a m - a)" "seg_at st isn a m1" "seg_stop a m \<le> a + L" "a < n + 1073741824" "n < a + 1073741824"
    "has (mflags m) TCP_FIN \<longrightarrow> seg_stop a m \<le> R"
    using m(1) unfolding arrives_def m1_def by auto
  have b: "R - n < 536870912" "L \<le> 268435456" "n \<le> R" using w by (auto simp: window_ok_def)
  have q: "seg_seq m = seq_of isn a" using a(2) by (simp add: m1_def seg_at_def)
  have lt: "a < seg_stop a m" using l a(1) by (cases "a < seg_stop a m") auto
  have "n < R"
  proof (rule ccontr)
    assume "\<not> n < R"
    then have "rcv_wnd (pcb c) = 0" using c(2) by simp
    then show False using m(2) l by (auto simp: is_acceptable_def Let_def word_gt_0 split: if_splits)
  qed
  have "n \<le> a \<and> a < R \<or> n < a + (seg_stop a m - a) \<and> a + (seg_stop a m - a) \<le> R"
    using is_acceptable_seg [OF c \<open>n < R\<close>, of "seg_stop a m - a" a] m(2) a(1,3-5) b lt unfolding q by auto
  then have "n < seg_stop a m" "a < R" using lt by auto
  then show "ooo_seg st isn L n R (a, m\<lparr>seg_end := seg_seq m + len\<rparr>)"
    using a(2,3,6) s by (simp add: ooo_seg_def flip: m1_def)
qed

text \<open>
  The outcome of a packet: the connection was reset, or the stream went on. \<open>s\<close> is the state before,
  \<open>h\<close> the segment held for a retransmission.
\<close>

definition rx_outcome :: "u8 list \<Rightarrow> u32 \<Rightarrow> nat \<Rightarrow> nat \<Rightarrow> nat \<Rightarrow> nat \<Rightarrow> nat \<Rightarrow> bool \<Rightarrow> tcp_state \<Rightarrow> mbuf option \<Rightarrow> tcpconn \<Rightarrow> bool" where
  "rx_outcome st isn L r n k R reset s h c' \<longleftrightarrow> tx_held_ok h c' \<and>
     (reset \<and> state (pcb c') = CLOSED \<and> err c' = ECONNRESET \<or>
      s \<le> state (pcb c') \<and> (\<exists>n'. rx_progress st isn L r n k R n' c' \<and> fin_seen st n' (state (pcb c'))))"

lemma rx_outcome_same:
  "rx_outcome st isn L r n k R reset s h c \<Longrightarrow> rx_same c c' \<Longrightarrow> tx_same c c' \<Longrightarrow> state (pcb c') = state (pcb c) \<Longrightarrow> err c' = err c \<Longrightarrow>
   rx_outcome st isn L r n k R reset s h c'"
  unfolding rx_outcome_def using tx_held_ok_same rx_progress_same by metis

lemma rx_outcome_stay:
  assumes "rx_inv st isn L r n R ps c" "fin_seen st n (state (pcb c))" "tx_held_ok h c" "s \<le> state (pcb c)"
  shows "rx_outcome st isn L r n n R reset s h c"
  unfolding rx_outcome_def using assms rx_progress_refl [OF assms(1)] by blast

lemma rx_reset_ok:
  assumes "state (pcb c) \<noteq> CLOSED" "tx_side_ok c"
  shows "\<exists>c'. tcp_conn_fail now c ECONNRESET = Inr c' \<and> rx_outcome st isn L r n k R True s None c'"
  using tcp_conn_fail_ok [OF assms, of now ECONNRESET] by (auto simp: rx_outcome_def tx_held_ok_def)

lemma send_rst_tx_ok:
  assumes "tx_side_ok c"
  shows "\<exists>c'. send_rst c acked sq ak len = Inr c' \<and> rx_same c c' \<and> tx_same c c' \<and> pcb c' = pcb c \<and> err c' = err c"
proof -
  have "world_ok (wd c)" using assms by (simp add: tx_side_ok_def)
  then obtain w where "send_rst c acked sq ak len = Inr (c\<lparr>wd := w\<rparr>)" "world_later (wd c) w" using send_rst_ok by blast
  then show ?thesis by (intro exI [of _ "c\<lparr>wd := w\<rparr>"]) (simp add: rx_same_def tx_same_def)
qed

text \<open>Whether a packet is taken.\<close>

definition takes :: "tcpconn \<Rightarrow> mbuf \<Rightarrow> u32 \<Rightarrow> u32 \<Rightarrow> u32 \<Rightarrow> bool" where
  "takes c m ak nxt len \<longleftrightarrow> 0 < len \<and> text_state (state (pcb c)) \<and> \<not> wraps_gt ak nxt \<and> is_acceptable c len (seg_seq m) \<and>
     has (mflags m) TCP_ACK \<and> \<not> has (mflags m) TCP_RST \<and> \<not> has (mflags m) TCP_SYN"

lemma rx_synchronized_ok:
  assumes i: "rx_inv st isn L r n R ps c" and t: "tx_side_ok c" and s: "SYN_RECEIVED \<le> state (pcb c)" "state (pcb c) \<noteq> CLOSED"
    and f: "fin_seen st n (state (pcb c))" and m: "arrives st isn L n R a m len"
  shows "\<exists>w c'. rx_synchronized now c m ak nxt win len = Inr (w, c') \<and>
    rx_outcome st isn L r n (if takes c m ak nxt len then taken_to n R a m else n) R
      (has (mflags m) TCP_RST \<or> has (mflags m) TCP_SYN) (state (pcb c)) (w_retransmit w) c'"
    (is "\<exists>w c'. ?e = Inr (w, c') \<and> ?out (w_retransmit w) c'")
proof -
  let ?fl = "mflags m"
  have w0: "w_retransmit rx_work0 = None" "w_retransmit (rx_work0\<lparr>w_do_ack := b\<rparr>) = None" for b by (simp_all add: rx_work0_def)
  have stay: "?out None c'" if "\<not> takes c m ak nxt len" "rx_same c c'" "tx_same c c'" "pcb c' = pcb c" for c'
    using rx_outcome_stay [OF rx_inv_same [OF i that(2)], of None] f that tx_side_ok_same [OF t that(3)] by (simp add: tx_held_ok_def)
  have fin: ?thesis if "?e = Inr (w, c')" "w_retransmit w = None" "?out None c'" for w c'
    by (rule exI [of _ w], rule exI [of _ c'], rule conjI [OF that(1)]) (unfold that(2), rule that(3))
  have reset: "\<exists>c'. tcp_conn_fail now c1 ECONNRESET = Inr c' \<and> ?out None c'"
    if "has ?fl TCP_RST \<or> has ?fl TCP_SYN" "state (pcb c1) \<noteq> CLOSED" "tx_side_ok c1" for c1
    using that(1) by (simp only: rx_reset_ok [OF that(2,3)])
  consider (na) "\<not> is_acceptable c len (seg_seq m)" | (rst) "is_acceptable c len (seg_seq m)" "has ?fl TCP_RST"
    | (syn) "is_acceptable c len (seg_seq m)" "\<not> has ?fl TCP_RST" "has ?fl TCP_SYN"
    | (nack) "is_acceptable c len (seg_seq m)" "\<not> has ?fl TCP_RST" "\<not> has ?fl TCP_SYN" "\<not> has ?fl TCP_ACK"
    | (ok) "is_acceptable c len (seg_seq m)" "\<not> has ?fl TCP_RST" "\<not> has ?fl TCP_SYN" "has ?fl TCP_ACK" by blast
  then show ?thesis
  proof cases
    case na
    then have "?e = Inr (rx_work0\<lparr>w_do_ack := \<not> has ?fl TCP_RST\<rparr>, c)" by (simp add: rx_synchronized_def Let_def)
    moreover have "?out None c" using na by (intro stay) (simp_all add: takes_def)
    ultimately show ?thesis by (rule fin [OF _ w0(2)])
  next
    case rst
    then obtain c' where c': "tcp_conn_fail now c ECONNRESET = Inr c'" "?out None c'" using reset [OF _ s(2) t] by blast
    have "?e = Inr (rx_work0, c')" using rst c'(1) unfolding rx_synchronized_def Let_def by simp
    then show ?thesis by (rule fin [OF _ w0(1) c'(2)])
  next
    case syn
    obtain c1 where c1: "send_rst c (has ?fl TCP_ACK) (seg_seq m) ak len = Inr c1" "tx_same c c1" "pcb c1 = pcb c"
      using send_rst_tx_ok [OF t] by blast
    have "state (pcb c1) \<noteq> CLOSED" "tx_side_ok c1" using s(2) c1(3) tx_side_ok_same [OF t c1(2)] by simp_all
    then obtain c' where c': "tcp_conn_fail now c1 ECONNRESET = Inr c'" "?out None c'" using reset [of c1] syn(3) by blast
    have "?e = Inr (rx_work0, c')" using syn c1(1) c'(1) unfolding rx_synchronized_def Let_def by simp
    then show ?thesis by (rule fin [OF _ w0(1) c'(2)])
  next
    case nack
    then have "?e = Inr (rx_work0, c)" by (simp add: rx_synchronized_def Let_def)
    moreover have "?out None c" using nack by (intro stay) (simp_all add: takes_def)
    ultimately show ?thesis by (rule fin [OF _ w0(1)])
  next
    case ok
    have m1: "0 < len \<longrightarrow> ooo_seg st isn L n R (a, m\<lparr>seg_end := seg_seq m + len\<rparr>)"
      using i m ok(1) by (intro arrives_ooo_seg [of L n R c isn]) (auto simp: rx_inv_def)
    have go: "\<exists>w c'. rx_ack_and_text now c1 m ak nxt win len = Inr (w, c') \<and> ?out (w_retransmit w) c'"
      if c1: "rx_same c c1" "tx_side_ok c1" "ESTABLISHED \<le> state (pcb c1)" "state (pcb c1) \<noteq> CLOSED" "fin_seen st n (state (pcb c1))"
        "text_state (state (pcb c)) \<longrightarrow> text_state (state (pcb c1))" "state (pcb c) \<le> state (pcb c1)" for c1
    proof -
      obtain w c' n' where c': "rx_ack_and_text now c1 m ak nxt win len = Inr (w, c')" "tx_held_ok (w_retransmit w) c'"
        "rx_progress st isn L r n (if 0 < len \<and> text_state (state (pcb c1)) \<and> \<not> wraps_gt ak nxt then taken_to n R a m else n) R n' c'"
        "fin_seen st n' (state (pcb c'))" "state (pcb c1) \<le> state (pcb c')"
        using rx_ack_and_text_ok [OF rx_inv_same [OF i c1(1)] c1(2-5) m1] by blast
      have "rx_progress st isn L r n (if takes c m ak nxt len then taken_to n R a m else n) R n' c'"
        using c'(3) c1(6) by (auto simp: rx_progress_def takes_def split: if_splits)
      then have "?out (w_retransmit w) c'" unfolding rx_outcome_def using c'(2,4,5) c1(7) order_trans by blast
      then show ?thesis using c'(1) by blast
    qed
    show ?thesis
    proof (cases "state (pcb c) = SYN_RECEIVED")
      case syn_rcvd: True
      then have nt: "\<not> takes c m ak nxt len" by (simp add: takes_def text_state_def)
      show ?thesis
      proof (cases "wraps_lte (snd_una (pcb c)) ak \<and> wraps_lte ak nxt")
        case False
        obtain c1 where c1: "send_rst c True (seg_seq m) ak len = Inr c1" "rx_same c c1" "tx_same c c1" "pcb c1 = pcb c"
          using send_rst_tx_ok [OF t] by blast
        have "?e = Inr (rx_work0, c1)"
          using ok syn_rcvd False c1(1) unfolding rx_synchronized_def Let_def by simp
        then show ?thesis by (rule fin [OF _ w0(1) stay [OF nt c1(2-4)]])
      next
        case True
        define c0 where "c0 = upd_pcb (\<lambda>p. p\<lparr>snd_wnd := win, snd_wl1 := seg_seq m, snd_wl2 := ak\<rparr>) c"
        have "state (pcb c0) < ESTABLISHED" using syn_rcvd by (simp add: c0_def tcp_state_order)
        then obtain c1 where c1: "tcp_conn_set_state now c0 ESTABLISHED = Inr c1" "pcb c1 = (pcb c0)\<lparr>state := ESTABLISHED\<rparr>" "rx_same c0 c1" "tx_same c0 c1"
          using tcp_conn_set_state_ok by blast
        have e: "?e = rx_ack_and_text now c1 m ak nxt win len"
          using ok syn_rcvd True c1(1) unfolding rx_synchronized_def Let_def by (simp flip: c0_def)
        have "rx_same c c1" "tx_side_ok c1"
          using c1(3) tx_side_ok_same [OF _ c1(4)] t by (simp_all add: rx_same_def c0_def tx_side_ok_def)
        moreover have "fin_seen st n (state (pcb c1))" using f syn_rcvd c1(2) by (simp add: fin_seen_def fin_state_def)
        ultimately show ?thesis using go [of c1] syn_rcvd c1(2) by (simp add: e text_state_def tcp_state_order)
      qed
    next
      case False
      then have "ESTABLISHED \<le> state (pcb c)" using s(1) by (cases "state (pcb c)") (simp_all add: tcp_state_order)
      moreover have "?e = rx_ack_and_text now c m ak nxt win len"
        using ok False by (simp add: rx_synchronized_def Let_def)
      ultimately show ?thesis using go [of c] s(2) f t by simp
    qed
  qed
qed

text \<open>A step that keeps both sides and the state.\<close>

definition all_same :: "tcpconn \<Rightarrow> tcpconn \<Rightarrow> bool" where
  "all_same c c' \<longleftrightarrow> rx_same c c' \<and> tx_same c c' \<and> pcb c' = pcb c \<and> err c' = err c"

lemma all_same_refl [simp]: "all_same c c" by (simp add: all_same_def)

lemma all_same_trans: "all_same c c' \<Longrightarrow> all_same c' c'' \<Longrightarrow> all_same c c''"
  by (auto simp: all_same_def intro: rx_same_trans tx_same_trans)

lemma acked_from_same: "acked_from c c' \<Longrightarrow> all_same c c'"
  by (auto simp: acked_from_def all_same_def rx_same_def tx_same_def)

lemma emit_same: "all_same c (emit_c es c)"
  by (simp add: all_same_def rx_same_def tx_same_def)

lemma tx_fast_retransmit_finish_ok:
  assumes "tx_held_ok h c"
  shows "\<exists>c'. tcp_tx_fast_retransmit_finish c h = Inr c' \<and> rx_same c c' \<and> tx_side_ok c' \<and> pcb c' = pcb c \<and> err c' = err c"
proof (cases h)
  case None
  then show ?thesis using assms by (simp add: tcp_tx_fast_retransmit_finish_def tx_held_ok_def)
next
  case (Some m)
  define m0 where "m0 = m\<lparr>mref := mref m - 1\<rparr>"
  obtain q where q: "mref m \<noteq> 1" "txq c = m # q" "tx_side_ok (c\<lparr>txq := m0 # q\<rparr>)"
    using assms Some by (auto simp: tx_held_ok_def m0_def)
  have w: "world_ok (wd c)" "seg_ready (wd c) m0" using q(3) by (simp_all add: tx_side_ok_def)
  have l: "tx_l4len m0 = tx_l4len m" "tx_opts_len m0 = tx_opts_len m" by (simp_all add: m0_def)
  have "transport_off m + TCP_HDR_LEN + (4 * unat (tx_opts_len m) + unat (tx_l4len m)) \<le> length (bytes m)"
    "4 * unat (tx_opts_len m) + unat (tx_l4len m) \<le> unat (mtu (wd c))" "unat (seg_end m - seg_seq m) \<le> unat (tx_l4len m) + 1"
    using w(2) unfolding seg_ready_def l by (auto simp: m0_def)
  then obtain ret c1 where c1: "tcp_tx_retransmit_one c m = Inr (ret, m, c1)" "acked_from c c1"
    using tcp_tx_retransmit_one_copy [OF w(1) q(1)] by blast
  have a: "all_same c c1" by (rule acked_from_same [OF c1(2)])
  then have t: "txq c1 = m # q" "world_later (wd c) (wd c1)" using q(2) by (auto simp: all_same_def tx_same_def)
  define c2 where "c2 = emit_c [Release m] (c1\<lparr>txq := m0 # q\<rparr>)"
  have "tcp_tx_fast_retransmit_finish c h = Inr c2"
    using Some c1(1) t(1) by (simp add: tcp_tx_fast_retransmit_finish_def c2_def m0_def)
  moreover have "tx_side_ok c2" using t(2) by (intro tx_side_ok_shrink [OF q(3)]) (simp_all add: c2_def)
  moreover have "rx_same c c2" "pcb c2 = pcb c" "err c2 = err c" using a by (simp_all add: all_same_def rx_same_def c2_def)
  ultimately show ?thesis by blast
qed

lemma rx_done_ok:
  assumes h: "tx_held_ok (w_retransmit w) c"
  shows "\<exists>c'. rx_done now m w c = Inr c' \<and> rx_same c c' \<and> tx_side_ok c' \<and> pcb c' = pcb c \<and> err c' = err c"
proof -
  define c1 where "c1 = tcp_timer_update now c"
  define c2 where "c2 = (if w_do_ack w then c1\<lparr>ack_delayed := False, acks_delayed_cnt := 0\<rparr> else c1)"
  define c3 where "c3 = emit_c (map Ready (w_waiters w)) c2"
  define c4 where "c4 = c3\<lparr>wd := mbuf_list_free (w_free w) (waitq_signal_finish (w_rx_th w) (wd c3))\<rparr>"
  have "all_same c c4"
    by (simp add: c4_def c3_def c2_def c1_def all_same_def rx_same_def tx_same_def tcp_timer_update_def Let_def
        mbuf_list_free_def waitq_signal_finish_def split: option.splits)
  then have s4: "rx_same c c4" "tx_same c c4" "pcb c4 = pcb c" "err c4 = err c" by (auto simp: all_same_def)
  obtain c5 where c5: "tcp_tx_fast_retransmit_finish c4 (w_retransmit w) = Inr c5" "rx_same c4 c5" "tx_side_ok c5" "pcb c5 = pcb c4" "err c5 = err c4"
    using tx_fast_retransmit_finish_ok [OF tx_held_ok_same [OF h s4(2)]] by blast
  have "world_ok (wd c5)" using c5(3) by (simp add: tx_side_ok_def)
  then obtain ret c5' where k: "tcp_tx_ack c5 = Inr (ret, c5')" "acked_from c5 c5'" using tcp_tx_ack_ok by blast
  define c6 where "c6 = (if w_do_ack w then c5' else c5)"
  have c6: "(if w_do_ack w then bind_exec (tcp_tx_ack c5) (\<lambda>(_, c). Inr c) else Inr c5) = Inr c6" "all_same c5 c6"
    using k(1) acked_from_same [OF k(2)] by (simp_all add: c6_def)
  define c7 where "c7 = (if w_do_drop w then emit_c [Release m] c6 else c6)"
  have "all_same c5 c7" using all_same_trans [OF c6(2) emit_same] c6(2) by (simp add: c7_def)
  moreover have "rx_done now m w c = Inr c7"
    unfolding rx_done_def Let_def c1_def [symmetric] c2_def [symmetric] c3_def [symmetric] c4_def [symmetric] c5(1)
    by (simp only: bind_exec_Inr c6(1) c7_def)
  ultimately show ?thesis
    using s4 c5(2-5) rx_same_trans tx_side_ok_same unfolding all_same_def by metis
qed

lemma rx_outcome_done:
  assumes "rx_outcome st isn L r n k R reset s (w_retransmit w) c"
  shows "\<exists>c'. rx_done now m w c = Inr c' \<and> rx_outcome st isn L r n k R reset s None c'"
proof -
  obtain c' where c': "rx_done now m w c = Inr c'" "rx_same c c'" "tx_side_ok c'" "pcb c' = pcb c" "err c' = err c"
    using rx_done_ok assms unfolding rx_outcome_def by blast
  have "rx_outcome st isn L r n k R reset s None c'"
    using assms c'(3-5) rx_progress_same [OF _ c'(2)] unfolding rx_outcome_def tx_held_ok_def by auto
  then show ?thesis using c'(1) by blast
qed

lemma tcp_rx_conn_slow_ok:
  assumes i: "rx_inv st isn L r n R ps c" and t: "tx_side_ok c" and s: "state (pcb c) \<noteq> SYN_SENT"
    and f: "fin_seen st n (state (pcb c))"
    and m: "arrives st isn L n R a m (if has (mflags m) TCP_FIN then seg_end m - seg_seq m + 1 else seg_end m - seg_seq m)" (is "arrives _ _ _ _ _ _ _ ?len")
  shows "\<exists>c'. tcp_rx_conn_slow now c m ak nxt win optp optlen = Some (Inr c') \<and>
    rx_outcome st isn L r n (if takes c m ak nxt ?len then taken_to n R a m else n) R
      (has (mflags m) TCP_RST \<or> has (mflags m) TCP_SYN) (state (pcb c)) None c'"
proof (cases "state (pcb c) = CLOSED")
  case True
  have nt: "\<not> takes c m ak nxt ?len" using True by (simp add: takes_def text_state_def)
  obtain c1 where c1: "send_rst c False (seg_seq m) ak ?len = Inr c1" "rx_same c c1" "tx_same c c1" "pcb c1 = pcb c"
    using send_rst_tx_ok [OF t] by blast
  define c2 where "c2 = (if has (mflags m) TCP_RST then c else c1)"
  have c2: "rx_same c c2" "tx_same c c2" "pcb c2 = pcb c" using c1(2-4) by (simp_all add: c2_def)
  have e: "tcp_rx_conn_slow now c m ak nxt win optp optlen = Some (rx_done now m rx_work0 c2)"
    using True c1(1) unfolding tcp_rx_conn_slow_def Let_def by (simp add: c2_def)
  have "rx_outcome st isn L r n n R (has (mflags m) TCP_RST \<or> has (mflags m) TCP_SYN) (state (pcb c)) (w_retransmit rx_work0) c2"
    using f c2(3) tx_side_ok_same [OF t c2(2)] by (intro rx_outcome_stay [OF rx_inv_same [OF i c2(1)]]) (simp_all add: rx_work0_def tx_held_ok_def)
  from rx_outcome_done [OF this] show ?thesis unfolding e using nt by simp
next
  case False
  then have "SYN_RECEIVED \<le> state (pcb c)" using s by (cases "state (pcb c)") (simp_all add: tcp_state_order)
  then obtain w c1 where c1: "rx_synchronized now c m ak nxt win ?len = Inr (w, c1)"
    "rx_outcome st isn L r n (if takes c m ak nxt ?len then taken_to n R a m else n) R
      (has (mflags m) TCP_RST \<or> has (mflags m) TCP_SYN) (state (pcb c)) (w_retransmit w) c1"
    using rx_synchronized_ok [OF i t _ False f m] by blast
  have "tcp_rx_conn_slow now c m ak nxt win optp optlen = Some (rx_done now m w c1)"
    using False s c1(1) unfolding tcp_rx_conn_slow_def Let_def by simp
  then show ?thesis using rx_outcome_done [OF c1(2)] by simp
qed

end
