(* ===== verification/Tcp_Stream.thy ===== *)
theory Tcp_Stream
  imports Tcp_Rx
begin

text \<open>
  The byte stream of the peer through the whole ingress path (\<open>runtime/net/tcp_in.c\<close>): the fast path,
  the parsing of a packet, and the theorem that any packet of the stream keeps the invariant of the
  connection.
\<close>

subsection \<open>Fast path\<close>

lemma fast_ack_ok:
  assumes "fast_ack c sq ak win = (q, c')" "tx_side_ok c"
  shows "rx_same c c' \<and> tx_side_ok c' \<and> state (pcb c') = state (pcb c)"
proof (cases "wraps_lte (snd_una (pcb c)) ak")
  case True
  define c0 where "c0 = upd_pcb (\<lambda>p. p\<lparr>snd_una := ak\<rparr>) (c\<lparr>rep_acks := 0\<rparr>)"
  obtain q1 c1 where c1: "(if snd_una (pcb c) \<noteq> ak then tcp_conn_ack c0 else ([], c)) = (q1, c1)" by fastforce
  have u: "tx_side_ok c0" "rx_same c c0" "pcb c0 = (pcb c)\<lparr>snd_una := ak\<rparr>"
    using assms(2) by (simp_all add: tx_side_ok_def rx_same_def c0_def)
  have k: "rx_same c c1 \<and> tx_side_ok c1 \<and> state (pcb c1) = state (pcb c)"
  proof (cases "snd_una (pcb c) = ak")
    case False
    then have "tcp_conn_ack c0 = (q1, c1)" using c1 by simp
    from tcp_conn_ack_ok [OF this u(1)] show ?thesis using rx_same_trans [OF u(2)] u(3) by auto
  qed (use c1 assms(2) in auto)
  have "c' = c1 \<or> c' = upd_pcb (\<lambda>p. p\<lparr>snd_wnd := win, snd_wl1 := sq, snd_wl2 := ak\<rparr>) (c1\<lparr>rep_acks := 0\<rparr>)"
    using assms(1) True c1 unfolding fast_ack_def Let_def c0_def by (auto split: if_splits)
  then show ?thesis using k by (auto simp: rx_same_def tx_side_ok_def)
qed (use assms in \<open>auto simp: fast_ack_def\<close>)

lemma tcp_rx_conn_fast_ok:
  assumes i: "rx_inv st isn L r n R ps c" and t: "tx_side_ok c" and s: "state (pcb c) = ESTABLISHED"
    and m: "seg_at st isn n m" "\<not> has (mflags m) TCP_FIN" "n + mlen m \<le> R" and len: "len = of_nat (mlen m)" and o: "rxq_ooo c = []"
  shows "\<exists>c'. tcp_rx_conn_fast now c m ak win len = Inr c' \<and> rx_outcome st isn L r n (n + mlen m) R reset ESTABLISHED None c'"
proof -
  obtain q c1 where q: "fast_ack c (seg_seq m) ak win = (q, c1)" by fastforce
  have c1: "rx_same c c1" "tx_side_ok c1" "state (pcb c1) = ESTABLISHED" using fast_ack_ok [OF q t] s by auto
  define n' where "n' = n + mlen m"
  define c2 where "c2 = upd_pcb (\<lambda>p. p\<lparr>rcv_nxt := seg_end m, rcv_wnd := rcv_wnd p - len\<rparr>) c1"
  define sig where "sig = (if rxq c2 \<noteq> [] \<or> has (mflags m) TCP_PUSH
      then (let (t, rq) = waitq_signal (rx_wq c2) in (t, c2\<lparr>rx_wq := rq\<rparr>)) else (None, c2))"
  obtain th c3 where th: "sig = (th, c3)" by fastforce
  have c3: "\<exists>rq. c3 = c2\<lparr>rx_wq := rq\<rparr>"
  proof (cases "rxq c2 \<noteq> [] \<or> has (mflags m) TCP_PUSH")
    case True
    then show ?thesis using th by (auto simp: sig_def split: prod.splits)
  next
    case False
    then show ?thesis using th by (intro exI [of _ "rx_wq c2"]) (simp add: sig_def)
  qed
  define c4 where "c4 = c3\<lparr>acks_delayed_cnt := acks_delayed_cnt c3 + 1\<rparr>"
  define ak' where "ak' = (acks_delayed_cnt c4 \<ge> 2)"
  define c5 where "c5 = (if ak' then c4\<lparr>ack_delayed := False, acks_delayed_cnt := 0\<rparr>
      else if \<not> ack_delayed c4
      then c4\<lparr>ack_ts := now, ack_delayed := True, next_timeout := min (next_timeout c4) (now + TCP_ACK_TIMEOUT)\<rparr> else c4)"
  define c6 where "c6 = c5\<lparr>rxq := rxq c5 @ [m], wd := mbuf_list_free q (waitq_signal_finish th (wd c5))\<rparr>"
  have ms: "seg_stop n m = n'" "seg_end m = seq_of isn n'" using m(1,2) by (simp_all add: seg_at_def seg_stop_def fin_len_def n'_def)
  have "n' \<le> R" using m(3) by (simp add: n'_def)
  have wn: "(of_nat (R - n) :: u32) - of_nat (mlen m) = of_nat (R - n')" using m(3) by (simp add: n'_def of_nat_diff)
  have w6: "world_later (wd c1) (wd c6)" "txq c6 = txq c1" "state (pcb c6) = ESTABLISHED"
    using c3 c1(3) by (auto simp: c6_def c5_def c4_def c2_def mbuf_list_free_def waitq_signal_finish_def split: option.splits)
  have t6: "tx_side_ok c6" using w6(1,2) by (intro tx_side_ok_shrink [OF c1(2)]) simp_all
  have f6: "rcv_nxt (pcb c6) = seq_of isn n'" "rcv_wnd (pcb c6) = rcv_wnd (pcb c1) - len" "rxq c6 = rxq c1 @ [m]"
    "rxq_ooo c6 = rxq_ooo c1" "rxq_ooo_len c6 = rxq_ooo_len c1"
    using c3 ms(2) by (auto simp: c6_def c5_def c4_def c2_def)
  have ps: "ps = []" using i o by (simp add: rx_inv_def)
  have i6: "rx_inv st isn L r n' R ps c6"
  proof -
    have "window_ok L n' R" using window_ok_mono [of L n R n'] i \<open>n' \<le> R\<close> by (simp add: rx_inv_def n'_def)
    moreover have iv: "rx_data st r n (rxq c)" "rcv_wnd (pcb c) = of_nat (R - n)" "rxq_ooo_len c = 0" "r \<le> n" "r \<le> length st"
      using i ps by (simp_all add: rx_inv_def)
    have "rx_data st r n' (rxq c @ [m])" using rx_data_snoc [OF iv(1) m(1) iv(4,5)] by (simp only: ms(1))
    moreover have "rcv_wnd (pcb c1) = rcv_wnd (pcb c)" "rxq c1 = rxq c" "rxq_ooo c1 = []" "rxq_ooo_len c1 = rxq_ooo_len c"
      using c1(1) o by (simp_all add: rx_same_def)
    moreover have "r \<le> n'" using iv(4) by (simp add: n'_def)
    ultimately show ?thesis
      unfolding rx_inv_def f6 ps by (simp add: iv wn len ooo_ok_def)
  qed
  have "n' \<le> length st" using m(1) by (simp add: seg_at_def n'_def)
  then have out: "rx_outcome st isn L r n n' R reset ESTABLISHED None c6"
    unfolding rx_outcome_def tx_held_ok_def rx_progress_def
    using t6 w6(3) i6 by (auto simp: fin_seen_def fin_state_def n'_def)
  have e: "tcp_rx_conn_fast now c m ak win len = (if ak' then bind_exec (tcp_tx_ack c6) (\<lambda>(_, c). Inr c) else Inr c6)"
    unfolding tcp_rx_conn_fast_def q Let_def prod.case c2_def [symmetric] sig_def [unfolded Let_def, symmetric] th
      c4_def [symmetric] ak'_def [symmetric] c5_def [symmetric] c6_def [symmetric] ..
  obtain ret c7 where c7: "tcp_tx_ack c6 = Inr (ret, c7)" "acked_from c6 c7" using tcp_tx_ack_ok [of c6] t6 by (auto simp: tx_side_ok_def)
  have "rx_outcome st isn L r n n' R reset ESTABLISHED None c7"
    using acked_from_same [OF c7(2)] by (intro rx_outcome_same [OF out]) (simp_all add: all_same_def)
  then show ?thesis using out c7(1) unfolding e n'_def by auto
qed

subsection \<open>Packets\<close>

text \<open>
  A packet as the IP layer hands it over: the data starts with the TCP header, and there is exactly
  as much of it as the IP header says.
\<close>

definition pkt_hdr :: "mbuf \<Rightarrow> tcp_hdr" where
  "pkt_hdr m = tcp_hdr_of (take TCP_HDR_LEN (mbuf_data m))"

definition pkt_hlen :: "mbuf \<Rightarrow> nat" where
  "pkt_hlen m = 4 * unat (hoff (pkt_hdr m))"

definition pkt_text :: "mbuf \<Rightarrow> u8 list" where
  "pkt_text m = drop (pkt_hlen m) (mbuf_data m)"

definition pkt_has :: "mbuf \<Rightarrow> u8 \<Rightarrow> bool" where
  "pkt_has m f \<longleftrightarrow> has (hflags (pkt_hdr m)) f"

definition pkt_stop :: "nat \<Rightarrow> mbuf \<Rightarrow> nat" where
  "pkt_stop a m = a + length (pkt_text m) + (if pkt_has m TCP_FIN then 1 else 0)"

definition from_ip :: "mbuf \<Rightarrow> bool" where
  "from_ip m \<longleftrightarrow> mbuf_ok m \<and> unat (ip_len m) = mlen m + 20"

definition well_formed :: "mbuf \<Rightarrow> bool" where
  "well_formed m \<longleftrightarrow> TCP_HDR_LEN \<le> pkt_hlen m \<and> pkt_hlen m \<le> mlen m"

text \<open>
  A well-formed packet carries a part of the stream of the peer, at the position \<open>a\<close>. It is at most
  \<open>2 ^ 30\<close> away from the next expected byte, and a FIN is not beyond the window.
\<close>

definition packet_of :: "u8 list \<Rightarrow> u32 \<Rightarrow> nat \<Rightarrow> nat \<Rightarrow> nat \<Rightarrow> mbuf \<Rightarrow> bool" where
  "packet_of st isn n R a m \<longleftrightarrow> from_ip m \<and> (well_formed m \<longrightarrow>
     hseq (pkt_hdr m) = seq_of isn a \<and> pkt_text m = take (length (pkt_text m)) (drop a st) \<and>
     a + length (pkt_text m) \<le> length st \<and> a < n + 2 ^ 30 \<and> n < a + 2 ^ 30 \<and>
     (pkt_has m TCP_FIN \<longrightarrow> a + length (pkt_text m) = length st \<and> length st + 1 \<le> R))"

text \<open>
  The invariant of a connection past the first handshake step: the reader has taken \<open>r\<close> bytes, the
  receive queue has the bytes from there to \<open>n\<close>, the window ends at \<open>R\<close>, the FIN of the peer has been
  received exactly in the states after it, and the queued segments can be sent again.
\<close>

definition conn_inv :: "u8 list \<Rightarrow> u32 \<Rightarrow> nat \<Rightarrow> nat \<Rightarrow> nat \<Rightarrow> tcpconn \<Rightarrow> bool" where
  "conn_inv st isn r n R c \<longleftrightarrow>
     (\<exists>ps. rx_inv st isn (2 ^ 16) r n R ps c) \<and> tx_side_ok c \<and> state (pcb c) \<noteq> SYN_SENT \<and> fin_seen st n (state (pcb c))"

definition conn_reset :: "tcpconn \<Rightarrow> bool" where
  "conn_reset c \<longleftrightarrow> state (pcb c) = CLOSED \<and> err c = ECONNRESET"

lemma rx_outcome_conn:
  assumes "rx_outcome st isn (2 ^ 16) r n k R reset s None c'" "s \<noteq> SYN_SENT"
  shows "reset \<and> conn_reset c' \<or> (\<exists>n'. n \<le> n' \<and> k \<le> n' \<and> s \<le> state (pcb c') \<and> conn_inv st isn r n' R c')"
proof -
  have "s \<le> s' \<Longrightarrow> s' \<noteq> SYN_SENT" for s' using assms(2) by (cases s; cases s') (simp_all add: tcp_state_order)
  then show ?thesis using assms(1) unfolding rx_outcome_def conn_inv_def conn_reset_def tx_held_ok_def rx_progress_def by auto
qed

text \<open>The buffer and the numbers that the code computes from a well-formed packet.\<close>

definition pkt_seg :: "mbuf \<Rightarrow> mbuf" where
  "pkt_seg m = (mbuf_mark_transport_offset m)\<lparr>mlen := mlen m - pkt_hlen m, doff := doff m + pkt_hlen m,
     seg_seq := hseq (pkt_hdr m), seg_end := hseq (pkt_hdr m) + of_nat (length (pkt_text m)), mflags := hflags (pkt_hdr m)\<rparr>"

lemma hoff_less: "unat (hoff (tcp_hdr_of bs)) < 16"
proof -
  have "unat (bs ! 12) < 256" using unsigned_less [of "bs ! 12", where ?'a = nat] by simp
  then show ?thesis by (simp only: tcp_hdr_of_def tcp_hdr.simps unat_drop_bit_eq) (simp add: drop_bit_eq_div)
qed

lemma tcp_rx_conn_cases:
  assumes m: "from_ip m"
  shows "(\<exists>m'. tcp_rx_conn now c m = Some (Inr (emit_c [Release m'] c)) \<and> \<not> (well_formed m \<and> length (pkt_text m) \<le> unat (rcv_mss (pcb c)))) \<or>
    well_formed m \<and> tcp_rx_conn now c m =
      (let m1 = pkt_seg m; h = pkt_hdr m; nxt = snd_nxt (pcb c); len = of_nat (length (pkt_text m));
           win = push_bit (unat (snd_wscale (pcb c))) (ucast (hwin h)); n = pkt_hlen m - TCP_HDR_LEN
       in if rx_is_slow c m1 (hack h) nxt len
          then tcp_rx_conn_slow now c m1 (hack h) nxt win (drop (doff m + TCP_HDR_LEN) (bytes m)) (int n)
          else Some (tcp_rx_conn_fast now c m1 (hack h) win len))"
proof (cases "TCP_HDR_LEN \<le> mlen m")
  case False
  then have "tcp_rx_conn now c m = Some (Inr (emit_c [Release (mbuf_mark_transport_offset m)] c))"
    by (simp add: tcp_rx_conn_def Let_def mbuf_pull_or_null_def mbuf_mark_transport_offset_def)
  moreover have "\<not> well_formed m" using False by (auto simp: well_formed_def)
  ultimately show ?thesis by blast
next
  case True
  define h where "h = pkt_hdr m"
  define k where "k = pkt_hlen m"
  define m1 where "m1 = mbuf_mark_transport_offset m"
  define m2 where "m2 = m1\<lparr>mlen := mlen m1 - TCP_HDR_LEN, doff := doff m1 + TCP_HDR_LEN\<rparr>"
  have ok: "mbuf_ok m" "unat (ip_len m) = mlen m + 20" using m by (auto simp: from_ip_def)
  have p: "mbuf_pull_or_null m1 TCP_HDR_LEN = Some (take TCP_HDR_LEN (mbuf_data m), m2)"
    using True ok(1) by (simp add: mbuf_pull_or_null_def mbuf_pull_raw_def m1_def m2_def mbuf_mark_transport_offset_def
        mbuf_data_def mbuf_ok_def min_def)
  have ip: "ip_len m2 = ip_len m" by (simp add: ip_len_def m2_def m1_def mbuf_mark_transport_offset_def)
  define hl :: u32 where "hl = ucast (hoff h) * 4"
  have k60: "k \<le> 60" using hoff_less [of "take TCP_HDR_LEN (mbuf_data m)"] by (simp add: k_def pkt_hlen_def pkt_hdr_def)
  have hl: "hl = of_nat k" by (simp add: hl_def k_def pkt_hlen_def h_def mult.commute)
  have ml: "mlen m < 65536" using ok(2) unsigned_less [of "ip_len m", where ?'a = nat] by simp
  have uk: "unat hl = k" using k60 by (simp add: hl unat_small)
  define len :: u32 where "len = ucast (ip_len m) - 20 - hl"
  have "(ucast (ip_len m) :: u32) = of_nat (mlen m + 20)" by (metis ok(2) of_nat_unat)
  then have len: "len = of_nat (mlen m) - of_nat k" by (simp add: len_def hl)
  have e: "tcp_rx_conn now c m =
     (if hl < 20 then Some (Inr (emit_c [Release m2] c))
      else if unat len > mbuf_length m2 \<or> len > rcv_mss (pcb c) then Some (Inr (emit_c [Release m2] c))
      else let m3 = m2\<lparr>seg_seq := hseq h, seg_end := hseq h + len, mflags := hflags h\<rparr>
           in case mbuf_pull m3 (k - TCP_HDR_LEN) of
                Inl e \<Rightarrow> Some (Inl e)
              | Inr (_, m4) \<Rightarrow>
                  if rx_is_slow c m4 (hack h) (snd_nxt (pcb c)) len
                  then tcp_rx_conn_slow now c m4 (hack h) (snd_nxt (pcb c)) (push_bit (unat (snd_wscale (pcb c))) (ucast (hwin h)))
                    (drop (doff m3) (bytes m3)) (int (k - TCP_HDR_LEN))
                  else Some (tcp_rx_conn_fast now c m4 (hack h) (push_bit (unat (snd_wscale (pcb c))) (ucast (hwin h))) len))"
    unfolding tcp_rx_conn_def Let_def m1_def [symmetric] p option.case prod.case pkt_hdr_def [symmetric] h_def [symmetric]
      hl_def [symmetric] uk ip len_def [symmetric] ..
  show ?thesis
  proof (cases "well_formed m")
    case False
    have "hl < 20 \<or> unat len > mbuf_length m2"
    proof (cases "k < 20")
      case True
      then show ?thesis by (simp add: word_less_nat_alt uk)
    next
      case ge: False
      then have "mlen m < k" using False by (simp add: well_formed_def k_def TCP_HDR_LEN_def)
      then have d: "0 < k - mlen m" "k - mlen m \<le> 60" "(of_nat (k - mlen m) :: u32) = of_nat k - of_nat (mlen m)"
        using k60 by (auto simp: of_nat_diff)
      have "(of_nat (2 ^ 32 - (k - mlen m)) :: u32) = - of_nat (k - mlen m)" using d(2) by (subst of_nat_diff) simp_all
      then have "len = of_nat (2 ^ 32 - (k - mlen m))" by (simp add: len d(3))
      then have "unat len = 2 ^ 32 - (k - mlen m)" using d(1) by (simp add: unat_small)
      then have "mlen m - TCP_HDR_LEN < unat len" using ml k60 by simp
      then show ?thesis by (simp add: mbuf_length_def m2_def m1_def mbuf_mark_transport_offset_def)
    qed
    then have "tcp_rx_conn now c m = Some (Inr (emit_c [Release m2] c))" unfolding e by auto
    then show ?thesis using False by blast
  next
    case wf: True
    then have w: "20 \<le> k" "k \<le> mlen m" by (simp_all add: well_formed_def k_def TCP_HDR_LEN_def)
    have lt: "length (pkt_text m) = mlen m - k" using length_mbuf_data [OF ok(1)] by (simp add: pkt_text_def k_def)
    have ln: "len = of_nat (length (pkt_text m))" using w(2) by (simp add: len lt of_nat_diff)
    have ul: "unat len = mlen m - k" using ml by (simp add: ln lt unat_small)
    have nl: "\<not> hl < 20" "\<not> unat len > mbuf_length m2"
      using w by (simp_all add: word_less_nat_alt uk ul mbuf_length_def m2_def m1_def mbuf_mark_transport_offset_def TCP_HDR_LEN_def)
    show ?thesis
    proof (cases "len > rcv_mss (pcb c)")
      case True
      then have "tcp_rx_conn now c m = Some (Inr (emit_c [Release m2] c))" unfolding e by simp
      moreover have "unat (rcv_mss (pcb c)) < length (pkt_text m)" using True by (simp add: word_less_nat_alt ul lt)
      ultimately show ?thesis by (metis not_le)
    next
      case False
      define m3 where "m3 = m2\<lparr>seg_seq := hseq h, seg_end := hseq h + len, mflags := hflags h\<rparr>"
      have b: "doff m3 = doff m + TCP_HDR_LEN" "bytes m3 = bytes m" "mlen m3 = mlen m - TCP_HDR_LEN"
        by (simp_all add: m3_def m2_def m1_def mbuf_mark_transport_offset_def)
      have seg: "m3\<lparr>mlen := mlen m3 - (k - TCP_HDR_LEN), doff := doff m3 + (k - TCP_HDR_LEN)\<rparr> = pkt_seg m"
        using w by (intro mbuf.equality)
          (simp_all add: pkt_seg_def m3_def m2_def m1_def mbuf_mark_transport_offset_def h_def ln TCP_HDR_LEN_def flip: k_def)
      have "mbuf_pull m3 (k - TCP_HDR_LEN) = Inr (take (k - TCP_HDR_LEN) (drop (doff m3) (bytes m3)), pkt_seg m)"
        unfolding mbuf_pull_def mbuf_pull_raw_def seg using w by (simp add: b TCP_HDR_LEN_def)
      then have "tcp_rx_conn now c m = (if rx_is_slow c (pkt_seg m) (hack h) (snd_nxt (pcb c)) len
          then tcp_rx_conn_slow now c (pkt_seg m) (hack h) (snd_nxt (pcb c)) (push_bit (unat (snd_wscale (pcb c))) (ucast (hwin h)))
            (drop (doff m3) (bytes m3)) (int (k - TCP_HDR_LEN))
          else Some (tcp_rx_conn_fast now c (pkt_seg m) (hack h) (push_bit (unat (snd_wscale (pcb c))) (ucast (hwin h))) len))"
        unfolding e m3_def [symmetric] Let_def using nl False by simp
      then show ?thesis using wf unfolding ln b h_def k_def Let_def by blast
    qed
  qed
qed

lemma pkt_seg_at:
  assumes "packet_of st isn n R a m" "well_formed m"
  shows "arrives st isn (2 ^ 16) n R a (pkt_seg m)
      (if has (mflags (pkt_seg m)) TCP_FIN then seg_end (pkt_seg m) - seg_seq (pkt_seg m) + 1 else seg_end (pkt_seg m) - seg_seq (pkt_seg m))"
    "seg_stop a (pkt_seg m) = pkt_stop a m"
    "\<not> pkt_has m TCP_FIN \<Longrightarrow> seg_at st isn a (pkt_seg m)" "mlen (pkt_seg m) = length (pkt_text m)"
proof -
  have p: "mbuf_ok m" "unat (ip_len m) = mlen m + 20" "hseq (pkt_hdr m) = seq_of isn a" "pkt_text m = take (length (pkt_text m)) (drop a st)"
    "a + length (pkt_text m) \<le> length st" "a < n + 2 ^ 30" "n < a + 2 ^ 30"
    "pkt_has m TCP_FIN \<longrightarrow> a + length (pkt_text m) = length st \<and> length st + 1 \<le> R"
    using assms by (auto simp: packet_of_def from_ip_def)
  have w: "20 \<le> pkt_hlen m" "pkt_hlen m \<le> mlen m" using assms(2) by (simp_all add: well_formed_def TCP_HDR_LEN_def)
  have ml: "mlen m < 65516" using p(2) unsigned_less [of "ip_len m", where ?'a = nat] by simp
  have l: "length (pkt_text m) = mlen m - pkt_hlen m" using length_mbuf_data [OF p(1)] by (simp add: pkt_text_def)
  define m1 where "m1 = pkt_seg m"
  have f: "fin_len m1 = (if pkt_has m TCP_FIN then 1 else 0)" "mflags m1 = hflags (pkt_hdr m)" "seg_seq m1 = seq_of isn a"
    "seg_end m1 = seq_of isn (a + length (pkt_text m))"
    by (simp_all add: m1_def pkt_seg_def fin_len_def pkt_has_def p(3) seq_of_def)
  show n1: "mlen (pkt_seg m) = length (pkt_text m)" by (simp add: pkt_seg_def l)
  then show st: "seg_stop a (pkt_seg m) = pkt_stop a m" using f(1) by (simp add: seg_stop_def pkt_stop_def m1_def)
  have "mbuf_data m1 = pkt_text m"
    using w by (simp add: mbuf_data_def m1_def pkt_seg_def mbuf_mark_transport_offset_def pkt_text_def drop_take add.commute)
  then have d: "mbuf_data m1 = take (mlen m1) (drop a st)" using p(4) n1 by (simp add: m1_def)
  have ok: "mbuf_ok m1" using p(1) w by (simp add: mbuf_ok_def m1_def pkt_seg_def mbuf_mark_transport_offset_def)
  show "seg_at st isn a (pkt_seg m)" if "\<not> pkt_has m TCP_FIN"
    using that f st ok d n1 p(5) by (simp add: seg_at_def pkt_stop_def pkt_has_def flip: m1_def)
  define len where "len = (if has (mflags m1) TCP_FIN then seg_end m1 - seg_seq m1 + 1 else seg_end m1 - seg_seq m1)"
  have "seg_end m1 - seg_seq m1 = of_nat (length (pkt_text m))" unfolding f(3,4) by (simp add: seq_of_def)
  then have len: "len = of_nat (pkt_stop a m - a)" by (simp add: len_def f(2) pkt_stop_def pkt_has_def)
  have se: "seg_seq m1 + len = seq_of isn (pkt_stop a m)" unfolding len f(3) by (simp only: seq_of_add) (simp add: pkt_stop_def)
  have "seg_at st isn a (m1\<lparr>seg_end := seg_seq m1 + len\<rparr>)"
    using ok d n1 p(5,8) st unfolding seg_at_def se m1_def [symmetric]
    by (auto simp: mbuf_ok_def mbuf_data_def f(2,3) seg_stop_def fin_len_def pkt_has_def)
  moreover have "length (pkt_text m) < 65516" using ml l by linarith
  then have "pkt_stop a m \<le> a + 2 ^ 16" by (simp add: pkt_stop_def)
  ultimately have "arrives st isn (2 ^ 16) n R a m1 len"
    using len st p(6-8) unfolding m1_def [symmetric] by (auto simp: arrives_def f(2) pkt_has_def pkt_stop_def)
  then show "arrives st isn (2 ^ 16) n R a (pkt_seg m)
      (if has (mflags (pkt_seg m)) TCP_FIN then seg_end (pkt_seg m) - seg_seq (pkt_seg m) + 1 else seg_end (pkt_seg m) - seg_seq (pkt_seg m))"
    by (simp only: len_def m1_def)
qed

text \<open>A packet with the next bytes of the stream that fits into the window and that no check rejects.\<close>

definition due :: "tcpconn \<Rightarrow> nat \<Rightarrow> nat \<Rightarrow> nat \<Rightarrow> mbuf \<Rightarrow> bool" where
  "due c n R a m \<longleftrightarrow> text_state (state (pcb c)) \<and> well_formed m \<and> length (pkt_text m) \<le> unat (rcv_mss (pcb c)) \<and>
     pkt_has m TCP_ACK \<and> \<not> pkt_has m TCP_RST \<and> \<not> pkt_has m TCP_SYN \<and>
     \<not> wraps_gt (hack (pkt_hdr m)) (snd_nxt (pcb c)) \<and> a \<le> n \<and> n < pkt_stop a m \<and> pkt_stop a m \<le> R"

lemma due_takes:
  assumes d: "due c n R a m" and i: "rx_inv st isn (2 ^ 16) r n R ps c" and a: "arrives st isn (2 ^ 16) n R a (pkt_seg m) len"
    and s: "seg_stop a (pkt_seg m) = pkt_stop a m"
  shows "takes c (pkt_seg m) (hack (pkt_hdr m)) (snd_nxt (pcb c)) len" "taken_to n R a (pkt_seg m) = pkt_stop a m"
proof -
  have b: "a \<le> n" "n < pkt_stop a m" "pkt_stop a m \<le> R" using d by (auto simp: due_def)
  show "taken_to n R a (pkt_seg m) = pkt_stop a m" using b by (simp add: taken_to_def s)
  have w: "rcv_nxt (pcb c) = seq_of isn n" "rcv_wnd (pcb c) = of_nat (R - n)" "R - n < 2 ^ 29" "n < R"
    using i b by (auto simp: rx_inv_def window_ok_def)
  have l: "len = of_nat (pkt_stop a m - a)" "seg_seq (pkt_seg m) = seq_of isn a" "pkt_stop a m \<le> a + 65536" "a < n + 2 ^ 30" "n < a + 2 ^ 30"
    using a s by (auto simp: arrives_def seg_at_def)
  have k: "0 < pkt_stop a m - a" "pkt_stop a m - a \<le> 65536" using b l(3) by auto
  have "is_acceptable c len (seg_seq (pkt_seg m))"
    unfolding l(1,2) using is_acceptable_seg [OF w(1,2,4,3) k(1) _ l(4,5)] k b by simp
  moreover have "unat len = pkt_stop a m - a" unfolding l(1) using k(2) by (intro unat_small) simp
  then have "0 < len" using k(1) by (simp add: word_less_nat_alt)
  ultimately show "takes c (pkt_seg m) (hack (pkt_hdr m)) (snd_nxt (pcb c)) len"
    using d by (simp add: takes_def due_def pkt_seg_def pkt_has_def)
qed

lemma seq_of_near_eq: "near a b \<Longrightarrow> seq_of isn a = seq_of isn b \<Longrightarrow> a = b"
  using wraps_seq(1) [of a b isn] wraps_seq(3) [of a b isn] by (auto simp: wraps_lt_def wraps_gt_def)

lemma tcp_rx_conn_taken:
  assumes i: "rx_inv st isn (2 ^ 16) r n R ps c" and t: "tx_side_ok c" and s: "state (pcb c) \<noteq> SYN_SENT"
    and f: "fin_seen st n (state (pcb c))" and m: "packet_of st isn n R a m" "well_formed m"
  defines "m1 \<equiv> pkt_seg m" and "h \<equiv> pkt_hdr m" and "len \<equiv> of_nat (length (pkt_text m))"
  shows "\<exists>c'. (if rx_is_slow c m1 (hack h) (snd_nxt (pcb c)) len
          then tcp_rx_conn_slow now c m1 (hack h) (snd_nxt (pcb c)) win optp optlen
          else Some (tcp_rx_conn_fast now c m1 (hack h) win len)) = Some (Inr c') \<and>
    rx_outcome st isn (2 ^ 16) r n (if due c n R a m then pkt_stop a m else n) R (pkt_has m TCP_RST \<or> pkt_has m TCP_SYN)
      (state (pcb c)) None c'"
proof -
  note p = pkt_seg_at [OF m, folded m1_def]
  have fl: "has (mflags m1) x = pkt_has m x" for x by (simp add: m1_def pkt_seg_def pkt_has_def)
  define l where "l = (if has (mflags m1) TCP_FIN then seg_end m1 - seg_seq m1 + 1 else seg_end m1 - seg_seq m1)"
  have p1: "arrives st isn (2 ^ 16) n R a (pkt_seg m) l" using p(1) by (simp only: l_def m1_def)
  have weak: "rx_outcome st isn (2 ^ 16) r n k R rs s0 None c' \<Longrightarrow> k' \<le> k \<or> k' \<le> n \<Longrightarrow> rx_outcome st isn (2 ^ 16) r n k' R rs s0 None c'"
    for k k' rs s0 c' unfolding rx_outcome_def rx_progress_def by (meson order_trans)
  show ?thesis
  proof (cases "rx_is_slow c m1 (hack h) (snd_nxt (pcb c)) len")
    case True
    obtain c' where c': "tcp_rx_conn_slow now c m1 (hack h) (snd_nxt (pcb c)) win optp optlen = Some (Inr c')"
      "rx_outcome st isn (2 ^ 16) r n (if takes c m1 (hack h) (snd_nxt (pcb c)) l then taken_to n R a m1 else n) R
        (pkt_has m TCP_RST \<or> pkt_has m TCP_SYN) (state (pcb c)) None c'"
      using tcp_rx_conn_slow_ok [OF i t s f p(1), folded l_def, unfolded fl] by blast
    have "rx_outcome st isn (2 ^ 16) r n (if due c n R a m then pkt_stop a m else n) R
        (pkt_has m TCP_RST \<or> pkt_has m TCP_SYN) (state (pcb c)) None c'"
      using due_takes [OF _ i p1 p(2) [unfolded m1_def], folded m1_def h_def]
      by (intro weak [OF c'(2)]) (auto simp: taken_to_def)
    then show ?thesis using True c'(1) by auto
  next
    case False
    then have q: "\<not> has (mflags m1) TCP_SLOWPATH_FLAGS" "state (pcb c) = ESTABLISHED" "seg_seq m1 = rcv_nxt (pcb c)" "rxq_ooo c = []" "len \<le> rcv_wnd (pcb c)"
      by (auto simp: rx_is_slow_def)
    have nf: "\<not> pkt_has m TCP_FIN"
      using q(1) fl [of TCP_FIN] by (auto simp: has_def TCP_SLOWPATH_FLAGS_def bit.conj_disj_distrib or_eq_0_iff)
    have b: "rcv_nxt (pcb c) = seq_of isn n" "rcv_wnd (pcb c) = of_nat (R - n)" "R - n < 2 ^ 29" "n \<le> R"
      using i by (auto simp: rx_inv_def window_ok_def)
    have at: "seg_at st isn a m1" by (rule p(3) [OF nf])
    have "near a n" using m by (auto simp: packet_of_def near_def)
    then have an: "a = n" using q(3) b(1) at by (intro seq_of_near_eq [of a n isn]) (simp_all add: seg_at_def)
    have "length (pkt_text m) \<le> 65536"
      using p(1,2) nf by (auto simp: arrives_def pkt_stop_def fl)
    moreover have "unat (rcv_wnd (pcb c)) = R - n" unfolding b(2) using b(3) by (intro unat_small) simp
    ultimately have le: "n + mlen m1 \<le> R"
      using q(5) b(4) by (simp add: word_le_nat_alt len_def p(4) unat_small)
    have nf1: "\<not> has (mflags m1) TCP_FIN" and ln: "len = of_nat (mlen m1)" using nf fl by (simp_all add: len_def p(4))
    obtain c' where c': "tcp_rx_conn_fast now c m1 (hack h) win len = Inr c'"
      "rx_outcome st isn (2 ^ 16) r n (n + mlen m1) R (pkt_has m TCP_RST \<or> pkt_has m TCP_SYN) ESTABLISHED None c'"
      using tcp_rx_conn_fast_ok [OF i t q(2) at [unfolded an] nf1 le ln q(4)] by blast
    have "rx_outcome st isn (2 ^ 16) r n (if due c n R a m then pkt_stop a m else n) R
        (pkt_has m TCP_RST \<or> pkt_has m TCP_SYN) (state (pcb c)) None c'"
      using nf p(4) an unfolding q(2) by (intro weak [OF c'(2)]) (auto simp: pkt_stop_def)
    then show ?thesis using False c'(1) by auto
  qed
qed

lemma rx_inv_data: "rx_inv st isn L r n R ps c \<Longrightarrow> concat (map mbuf_data (rxq c)) = drop r (take n st)"
  by (simp add: rx_inv_def rx_data_def)

text \<open>A packet of the peer keeps the invariant, and makes progress if it is due.\<close>

lemma tcp_rx_conn_keeps:
  assumes c: "conn_inv st isn r n R c" and m: "packet_of st isn n R a m"
  shows "\<exists>c'. tcp_rx_conn now c m = Some (Inr c') \<and>
    ((pkt_has m TCP_RST \<or> pkt_has m TCP_SYN) \<and> conn_reset c' \<or>
     (\<exists>n'. n \<le> n' \<and> conn_inv st isn r n' R c' \<and> concat (map mbuf_data (rxq c')) = drop r (take n' st) \<and>
        state (pcb c) \<le> state (pcb c') \<and> (due c n R a m \<longrightarrow> pkt_stop a m \<le> n')))"
proof -
  obtain ps where i: "rx_inv st isn (2 ^ 16) r n R ps c" and t: "tx_side_ok c" and s: "state (pcb c) \<noteq> SYN_SENT"
    and f: "fin_seen st n (state (pcb c))" using c by (auto simp: conn_inv_def)
  define rs where "rs = (pkt_has m TCP_RST \<or> pkt_has m TCP_SYN)"
  define k where "k = (if due c n R a m then pkt_stop a m else n)"
  have fr: "from_ip m" using m by (simp add: packet_of_def)
  have "\<exists>c'. tcp_rx_conn now c m = Some (Inr c') \<and> rx_outcome st isn (2 ^ 16) r n k R rs (state (pcb c)) None c'"
  proof (rule disjE [OF tcp_rx_conn_cases [OF fr, of now c]])
    assume "\<exists>m'. tcp_rx_conn now c m = Some (Inr (emit_c [Release m'] c)) \<and>
      \<not> (well_formed m \<and> length (pkt_text m) \<le> unat (rcv_mss (pcb c)))"
    then obtain m' where e: "tcp_rx_conn now c m = Some (Inr (emit_c [Release m'] c))"
      and nd: "\<not> (well_formed m \<and> length (pkt_text m) \<le> unat (rcv_mss (pcb c)))" by blast
    have "\<not> due c n R a m" using nd unfolding due_def by blast
    then have k: "k = n" by (simp add: k_def)
    have "rx_outcome st isn (2 ^ 16) r n n R rs (state (pcb c)) None c"
      using t f by (intro rx_outcome_stay [OF i]) (simp_all add: tx_held_ok_def)
    then have "rx_outcome st isn (2 ^ 16) r n n R rs (state (pcb c)) None (emit_c [Release m'] c)"
      by (rule rx_outcome_same) (simp_all add: rx_same_def tx_same_def)
    then show ?thesis using e unfolding k by blast
  next
    assume w: "well_formed m \<and> tcp_rx_conn now c m =
      (let m1 = pkt_seg m; h = pkt_hdr m; nxt = snd_nxt (pcb c); len = of_nat (length (pkt_text m));
           win = push_bit (unat (snd_wscale (pcb c))) (ucast (hwin h)); n = pkt_hlen m - TCP_HDR_LEN
       in if rx_is_slow c m1 (hack h) nxt len
          then tcp_rx_conn_slow now c m1 (hack h) nxt win (drop (doff m + TCP_HDR_LEN) (bytes m)) (int n)
          else Some (tcp_rx_conn_fast now c m1 (hack h) win len))"
    show ?thesis
      unfolding conjunct2 [OF w] Let_def rs_def k_def by (rule tcp_rx_conn_taken [OF i t s f m conjunct1 [OF w]])
  qed
  then obtain c' where c': "tcp_rx_conn now c m = Some (Inr c')" "rx_outcome st isn (2 ^ 16) r n k R rs (state (pcb c)) None c'" by blast
  show ?thesis
  proof (rule disjE [OF rx_outcome_conn [OF c'(2) s]])
    assume "rs \<and> conn_reset c'"
    then show ?thesis using c'(1) unfolding rs_def by blast
  next
    assume "\<exists>n'. n \<le> n' \<and> k \<le> n' \<and> state (pcb c) \<le> state (pcb c') \<and> conn_inv st isn r n' R c'"
    then obtain n' where n': "n \<le> n'" "k \<le> n'" "state (pcb c) \<le> state (pcb c')" "conn_inv st isn r n' R c'" by blast
    then have "concat (map mbuf_data (rxq c')) = drop r (take n' st)" using rx_inv_data unfolding conn_inv_def by blast
    moreover have "due c n R a m \<longrightarrow> pkt_stop a m \<le> n'" using n'(2) by (auto simp: k_def split: if_splits)
    ultimately show ?thesis using c'(1) n'(1,3,4) by blast
  qed
qed

text \<open>
  C2. Whatever packet of the peer arrives at a connection past the first step of the handshake, the
  ingress path neither faults nor loops. A packet whose length fields do not fit together is dropped;
  one with RST or SYN may reset the connection; after any other the receive queue has exactly the next
  bytes of the stream, without gap, duplicate or reordering, the state never goes back, the state
  shows whether the FIN was received, and the text of a packet with the next bytes that fits into the
  window is all delivered.
\<close>

theorem tcp_rx_conn_stream:
  assumes c: "conn_inv st isn r n R c" and m: "packet_of st isn n R a m"
  shows "\<exists>c'. tcp_rx_conn now c m = Some (Inr c') \<and>
    ((pkt_has m TCP_RST \<or> pkt_has m TCP_SYN) \<and> conn_reset c' \<or>
     (\<exists>n'. n \<le> n' \<and> conn_inv st isn r n' R c' \<and> concat (map mbuf_data (rxq c')) = drop r (take n' st) \<and>
        state (pcb c) \<le> state (pcb c') \<and> (due c n R a m \<longrightarrow> pkt_stop a m \<le> n')))"
  by (rule tcp_rx_conn_keeps [OF assms])

text \<open>A packet with the first two bytes of a stream.\<close>

definition example_packet :: mbuf where
  "example_packet = \<lparr>bytes = [0x45, 0, 0, 42, 0, 0, 0, 0, 0, 0, 0, 0, 0, 0, 0, 0, 0, 0, 0, 0,
       0, 80, 0, 80, 0xFF, 0xFF, 0xFF, 0xFF, 0, 0, 0, 0, 0x50, 0x10, 0, 100, 0, 0, 0, 0, 7, 8],
     doff = 20, head_len = 2048, mlen = 22, network_off = 0, transport_off = 0,
     timestamp = 0, seg_seq = 0, seg_end = 0, mflags = 0, mref = 1, txflags = 0\<rparr>"

lemma example_packet_fields:
  "pkt_hdr example_packet = \<lparr>sport = 80, dport = 80, hseq = 0xFFFFFFFF, hack = 0, hoff = 5, hflags = 0x10, hwin = 100, hsum = 0\<rparr>"
  "ip_len example_packet = 42" "mbuf_data example_packet = drop 20 (bytes example_packet)"
  by (simp_all add: pkt_hdr_def example_packet_def mbuf_data_def tcp_hdr_of_def TCP_HDR_LEN_def ntoh16_def ntoh32_def load16_def
      ip_len_def drop_bit_eq_div)

lemma example_packet_flags:
  "\<not> pkt_has example_packet TCP_FIN" "\<not> pkt_has example_packet TCP_RST" "\<not> pkt_has example_packet TCP_SYN"
  "pkt_has example_packet TCP_ACK" "pkt_hlen example_packet = 20"
  by (simp_all add: pkt_has_def pkt_hlen_def example_packet_fields has_def tcp_flag_defs)

lemma example_packet_text: "pkt_text example_packet = [7, 8]"
  by (simp add: pkt_text_def example_packet_flags(5)) (simp add: mbuf_data_def example_packet_def)

lemma example_packet_from_ip: "from_ip example_packet"
  by (simp add: from_ip_def example_packet_fields mbuf_ok_def) (simp add: example_packet_def)

lemma example_conn_inv: "conn_inv [7, 8, 9] 0xFFFFFFFF 0 0 2 (example_conn [])"
  by (auto simp: conn_inv_def rx_inv_def window_ok_def ooo_ok_def rx_data_def example_conn_def example_pcb_def seq_of_def
      tx_side_ok_def world_ok_def MBUF_DEFAULT_HEADROOM_def fin_seen_def fin_state_def)

theorem tcp_rx_conn_stream_witness:
  "\<exists>c'. tcp_rx_conn 0 (example_conn []) example_packet = Some (Inr c') \<and> concat (map mbuf_data (rxq c')) = [7, 8]"
proof -
  define c where "c = example_conn []"
  define m where "m = example_packet"
  have fl: "\<not> pkt_has m TCP_FIN" "\<not> pkt_has m TCP_RST" "\<not> pkt_has m TCP_SYN" "pkt_has m TCP_ACK" "pkt_hlen m = 20"
    unfolding m_def by (rule example_packet_flags)+
  have tx: "pkt_text m = [7, 8]" unfolding m_def by (rule example_packet_text)
  have p: "packet_of [7, 8, 9] 0xFFFFFFFF 0 2 0 m"
    using tx fl(1) example_packet_from_ip unfolding packet_of_def by (simp add: m_def example_packet_fields seq_of_def)
  have c: "conn_inv [7, 8, 9] 0xFFFFFFFF 0 0 2 c" unfolding c_def by (rule example_conn_inv)
  have d: "due c 0 2 0 m" "pkt_stop 0 m = 2"
    using fl tx by (simp_all add: due_def pkt_stop_def well_formed_def TCP_HDR_LEN_def text_state_def)
      (simp_all add: c_def example_conn_def example_pcb_def m_def example_packet_fields wraps_gt_def wraps_lt_def, simp add: example_packet_def)
  obtain c' n' where c': "tcp_rx_conn 0 c m = Some (Inr c')" "conn_inv [7, 8, 9] 0xFFFFFFFF 0 n' 2 c'"
    "concat (map mbuf_data (rxq c')) = drop 0 (take n' [7, 8, 9])" "2 \<le> n'"
    using tcp_rx_conn_stream [OF c p, of 0] fl(2,3) d by auto
  have "n' = 2" using c'(2,4) by (auto simp: conn_inv_def rx_inv_def window_ok_def)
  then have "concat (map mbuf_data (rxq c')) = [7, 8]" using c'(3) by simp
  then show ?thesis using c'(1) unfolding c_def m_def by blast
qed

end
