(* ===== verification/Transport.thy ===== *)
theory Transport
  imports Tcp_In
begin

text \<open>
  The transport layer (\<open>runtime/net/transport.c\<close>, \<open>runtime/net/defs.h\<close>, \<open>inc/base/hash.h\<close>): the table
  that maps the addresses of an ingress packet to the socket that handles it.

  The table is an array of hash chains (\<open>rcu_hlist\<close>); an entry is named by its address, and a chain
  is the list of its entries. The CRC32 instruction of the processor is an argument of every
  operation that hashes. Operations run under \<open>trans_lock\<close> or in an RCU section.
\<close>

subsection \<open>Entries and hashing\<close>

datatype trans_match = TRANS_MATCH_3TUPLE | TRANS_MATCH_5TUPLE

record trans_entry =
  eid :: addr
  ematch :: trans_match
  eproto :: u8
  eladdr :: netaddr
  eraddr :: netaddr

definition trans_init_3tuple :: "addr \<Rightarrow> u8 \<Rightarrow> netaddr \<Rightarrow> trans_entry" where
  "trans_init_3tuple i p l = \<lparr>eid = i, ematch = TRANS_MATCH_3TUPLE, eproto = p, eladdr = l, eraddr = (0, 0)\<rparr>"

definition trans_init_5tuple :: "addr \<Rightarrow> u8 \<Rightarrow> netaddr \<Rightarrow> netaddr \<Rightarrow> trans_entry" where
  "trans_init_5tuple i p l r = \<lparr>eid = i, ematch = TRANS_MATCH_5TUPLE, eproto = p, eladdr = l, eraddr = r\<rparr>"

type_synonym crc = "u32 \<Rightarrow> u64 \<Rightarrow> u32"

definition hash_crc32c_one :: "crc \<Rightarrow> u32 \<Rightarrow> u64 \<Rightarrow> u32" where
  "hash_crc32c_one crc seed v = crc seed v"

definition hash_crc32c_two :: "crc \<Rightarrow> u32 \<Rightarrow> u64 \<Rightarrow> u64 \<Rightarrow> u32" where
  "hash_crc32c_two crc seed a b = crc (crc seed a) b"

definition trans_hash_3tuple :: "crc \<Rightarrow> u32 \<Rightarrow> u8 \<Rightarrow> netaddr \<Rightarrow> u32" where
  "trans_hash_3tuple crc seed p l =
     hash_crc32c_one crc seed (ucast (fst l) OR push_bit 32 (ucast (snd l)) OR push_bit 48 (ucast p))"

definition trans_hash_5tuple :: "crc \<Rightarrow> u32 \<Rightarrow> u8 \<Rightarrow> netaddr \<Rightarrow> netaddr \<Rightarrow> u32" where
  "trans_hash_5tuple crc seed p l r =
     hash_crc32c_two crc seed (ucast (fst l) OR push_bit 32 (ucast (snd l)))
       (ucast (fst r) OR push_bit 32 (ucast (snd r)) OR push_bit 48 (ucast p))"

definition TRANS_TBL_SIZE :: u32 where "TRANS_TBL_SIZE = 16384"
definition MIN_EPHEMERAL :: nat where "MIN_EPHEMERAL = 49152"
definition MAX_EPHEMERAL :: nat where "MAX_EPHEMERAL = 65535"
definition EADDRINUSE :: int where "EADDRINUSE = 98"
definition EADDRNOTAVAIL :: int where "EADDRNOTAVAIL = 99"
definition EINVAL :: int where "EINVAL = 22"

record trans =
  trans_seed :: u32
  ephemeral_offset :: u32
  trans_tbl :: "nat \<Rightarrow> trans_entry list"

definition trans_init :: "u32 \<Rightarrow> trans" where
  "trans_init seed = \<lparr>trans_seed = seed, ephemeral_offset = 0, trans_tbl = (\<lambda>_. [])\<rparr>"

definition entry_hash :: "crc \<Rightarrow> u32 \<Rightarrow> trans_entry \<Rightarrow> u32" where
  "entry_hash crc seed e =
     (case ematch e of
        TRANS_MATCH_3TUPLE \<Rightarrow> trans_hash_3tuple crc seed (eproto e) (eladdr e)
      | TRANS_MATCH_5TUPLE \<Rightarrow> trans_hash_5tuple crc seed (eproto e) (eladdr e) (eraddr e))"

definition trans_chain :: "u32 \<Rightarrow> nat" where
  "trans_chain h = unat (h mod TRANS_TBL_SIZE)"

subsection \<open>Adding and removing\<close>

definition entry_conflicts :: "trans_entry \<Rightarrow> trans_entry \<Rightarrow> bool" where
  "entry_conflicts e pos \<longleftrightarrow> ematch pos = ematch e \<and>
     (ematch e = TRANS_MATCH_3TUPLE \<and> eproto e = eproto pos \<and> eladdr e = eladdr pos \<or>
      eproto e = eproto pos \<and> eladdr e = eladdr pos \<and> eraddr e = eraddr pos)"

definition trans_table_add :: "crc \<Rightarrow> trans_entry \<Rightarrow> trans \<Rightarrow> int \<times> trans" where
  "trans_table_add crc e t =
     (if snd (eladdr e) = 0 then (- EINVAL, t)
      else let idx = trans_chain (entry_hash crc (trans_seed t) e)
           in if list_ex (entry_conflicts e) (trans_tbl t idx) then (- EADDRINUSE, t)
              else (0, t\<lparr>trans_tbl := (trans_tbl t)(idx := e # trans_tbl t idx),
                         ephemeral_offset := ephemeral_offset t + 1\<rparr>))"

definition num_ephemeral :: nat where
  "num_ephemeral = MAX_EPHEMERAL - MIN_EPHEMERAL + 1"

definition ephemeral_port :: "u16 \<Rightarrow> nat \<Rightarrow> u16" where
  "ephemeral_port offset k = of_nat (MIN_EPHEMERAL + (k + unat offset) mod num_ephemeral)"

text \<open>The results are the error, the entry with its port, and the table.\<close>

function ephemeral_loop :: "crc \<Rightarrow> u16 \<Rightarrow> nat \<Rightarrow> trans_entry \<Rightarrow> trans \<Rightarrow> int \<times> trans_entry \<times> trans" where
  "ephemeral_loop crc offset k e t =
     (if k < num_ephemeral
      then let e = e\<lparr>eladdr := (fst (eladdr e), ephemeral_port offset k)\<rparr>;
               (ret, t) = trans_table_add crc e t
           in if ret = 0 then (0, e, t) else ephemeral_loop crc offset (Suc k) e t
      else (- EADDRNOTAVAIL, e, t))"
  by pat_completeness auto
termination
  by (relation "measure (\<lambda>(_, _, k, _). num_ephemeral - k)") auto

declare ephemeral_loop.simps [simp del]

definition trans_table_add_with_ephemeral_port :: "crc \<Rightarrow> trans_entry \<Rightarrow> trans \<Rightarrow> int \<times> trans_entry \<times> trans" where
  "trans_table_add_with_ephemeral_port crc e t =
     (let e = e\<lparr>eladdr := (fst (eladdr e), 0)\<rparr>;
          offset = ucast (entry_hash crc (trans_seed t) e + ephemeral_offset t)
      in ephemeral_loop crc offset 0 e t)"

definition trans_table_remove :: "addr \<Rightarrow> trans \<Rightarrow> trans" where
  "trans_table_remove i t = t\<lparr>trans_tbl := (\<lambda>k. filter (\<lambda>e. eid e \<noteq> i) (trans_tbl t k))\<rparr>"

subsection \<open>Looking up\<close>

definition IPPROTO_UDP :: u8 where "IPPROTO_UDP = 17"

definition ip_proto :: "mbuf \<Rightarrow> u8" where
  "ip_proto m = bytes m ! (network_off m + 9)"

definition find_5tuple :: "crc \<Rightarrow> trans \<Rightarrow> u8 \<Rightarrow> netaddr \<Rightarrow> netaddr \<Rightarrow> trans_entry option" where
  "find_5tuple crc t p l r =
     find (\<lambda>e. ematch e = TRANS_MATCH_5TUPLE \<and> eproto e = p \<and> eladdr e = l \<and> eraddr e = r)
       (trans_tbl t (trans_chain (trans_hash_5tuple crc (trans_seed t) p l r)))"

definition find_3tuple :: "crc \<Rightarrow> trans \<Rightarrow> u8 \<Rightarrow> netaddr \<Rightarrow> trans_entry option" where
  "find_3tuple crc t p l =
     find (\<lambda>e. ematch e = TRANS_MATCH_3TUPLE \<and> eproto e = p \<and> eladdr e = l)
       (trans_tbl t (trans_chain (trans_hash_3tuple crc (trans_seed t) p l)))"

definition trans_lookup :: "crc \<Rightarrow> trans \<Rightarrow> mbuf \<Rightarrow> bool \<Rightarrow> trans_entry option" where
  "trans_lookup crc t m reverse =
     (if ip_proto m \<noteq> IPPROTO_UDP \<and> ip_proto m \<noteq> IPPROTO_TCP then None
      else if mbuf_length m < 4 then None
      else let l = (ip_daddr m, ntoh16 (drop 2 (mbuf_data m)));
               r = (ip_saddr m, ntoh16 (mbuf_data m));
               (l, r) = (if reverse then (r, l) else (l, r))
           in case find_5tuple crc t (ip_proto m) l r of
                Some e \<Rightarrow> Some e
              | None \<Rightarrow> find_3tuple crc t (ip_proto m) l)"

text \<open>
  The packet is handed to the receive operation of the entry it finds, which is the result.
\<close>

definition net_rx_trans :: "crc \<Rightarrow> trans \<Rightarrow> mbuf \<Rightarrow> world \<Rightarrow> ((trans_entry \<times> mbuf) option \<times> world) exec" where
  "net_rx_trans crc t m w =
     (let m = mbuf_mark_transport_offset m
      in case trans_lookup crc t m False of
           None \<Rightarrow>
             bind_exec (if ip_proto m = IPPROTO_TCP then tcp_rx_closed m w else Inr w) (\<lambda>w.
               Inr (None, emit [Release m] w))
         | Some e \<Rightarrow> Inr (Some (e, m), w))"

definition trans_error :: "crc \<Rightarrow> trans \<Rightarrow> mbuf \<Rightarrow> trans_entry option" where
  "trans_error crc t m = trans_lookup crc t m True"

subsection \<open>The table as a map\<close>

type_synonym trans_key = "trans_match \<times> u8 \<times> netaddr \<times> netaddr"

definition key_of :: "trans_entry \<Rightarrow> trans_key" where
  "key_of e = (ematch e, eproto e, eladdr e, eraddr e)"

definition entry_wf :: "trans_entry \<Rightarrow> bool" where
  "entry_wf e \<longleftrightarrow> (ematch e = TRANS_MATCH_3TUPLE \<longrightarrow> eraddr e = (0, 0))"

definition trans_wf :: "crc \<Rightarrow> trans \<Rightarrow> bool" where
  "trans_wf crc t \<longleftrightarrow>
     (\<forall>k. \<forall>e \<in> set (trans_tbl t k). entry_wf e \<and> snd (eladdr e) \<noteq> 0 \<and> trans_chain (entry_hash crc (trans_seed t) e) = k) \<and>
     (\<forall>k. distinct (map key_of (trans_tbl t k)))"

definition key_hash :: "crc \<Rightarrow> u32 \<Rightarrow> trans_key \<Rightarrow> u32" where
  "key_hash crc seed = (\<lambda>(m, p, l, r).
     case m of TRANS_MATCH_3TUPLE \<Rightarrow> trans_hash_3tuple crc seed p l | TRANS_MATCH_5TUPLE \<Rightarrow> trans_hash_5tuple crc seed p l r)"

definition trans_map :: "crc \<Rightarrow> trans \<Rightarrow> trans_key \<Rightarrow> trans_entry option" where
  "trans_map crc t key = find (\<lambda>e. key_of e = key) (trans_tbl t (trans_chain (key_hash crc (trans_seed t) key)))"

lemma entry_hash_key: "entry_hash crc seed e = key_hash crc seed (key_of e)"
  by (simp add: entry_hash_def key_hash_def key_of_def split: trans_match.split)

lemma trans_wf_init: "trans_wf crc (trans_init seed)"
  by (simp add: trans_wf_def trans_init_def)

lemma trans_map_init: "trans_map crc (trans_init seed) = Map.empty"
  by (rule ext) (simp add: trans_map_def trans_init_def)

lemma find_None_iff_key: "trans_map crc t key = None \<longleftrightarrow> (\<forall>e \<in> set (trans_tbl t (trans_chain (key_hash crc (trans_seed t) key))). key_of e \<noteq> key)"
  by (auto simp: trans_map_def find_None_iff)

lemma conflicts_key: "entry_wf e \<Longrightarrow> entry_wf pos \<Longrightarrow> entry_conflicts e pos \<longleftrightarrow> key_of pos = key_of e"
  by (auto simp: entry_conflicts_def key_of_def entry_wf_def)

lemma conflict_iff:
  assumes "trans_wf crc t" "entry_wf e"
  shows "list_ex (entry_conflicts e) (trans_tbl t (trans_chain (entry_hash crc (trans_seed t) e))) \<longleftrightarrow> trans_map crc t (key_of e) \<noteq> None"
proof -
  let ?b = "trans_tbl t (trans_chain (entry_hash crc (trans_seed t) e))"
  have "entry_conflicts e pos \<longleftrightarrow> key_of pos = key_of e" if "pos \<in> set ?b" for pos
    using that assms conflicts_key unfolding trans_wf_def by blast
  then have "list_ex (entry_conflicts e) ?b \<longleftrightarrow> (\<exists>pos \<in> set ?b. key_of pos = key_of e)" by (auto simp: list_ex_iff)
  then show ?thesis by (auto simp: find_None_iff_key entry_hash_key)
qed

lemma trans_table_add_map:
  assumes t: "trans_wf crc t" and e: "entry_wf e" "snd (eladdr e) \<noteq> 0"
  shows "(trans_map crc t (key_of e) \<noteq> None \<longrightarrow> trans_table_add crc e t = (- EADDRINUSE, t)) \<and>
    (trans_map crc t (key_of e) = None \<longrightarrow> (\<exists>t'. trans_table_add crc e t = (0, t') \<and> trans_wf crc t' \<and> trans_seed t' = trans_seed t \<and>
       trans_map crc t' = (trans_map crc t)(key_of e \<mapsto> e)))"
proof (intro conjI impI)
  assume "trans_map crc t (key_of e) \<noteq> None"
  then show "trans_table_add crc e t = (- EADDRINUSE, t)"
    using conflict_iff [OF t e(1)] e(2) by (simp add: trans_table_add_def Let_def)
next
  assume n: "trans_map crc t (key_of e) = None"
  define idx where "idx = trans_chain (entry_hash crc (trans_seed t) e)"
  define t' where "t' = t\<lparr>trans_tbl := (trans_tbl t)(idx := e # trans_tbl t idx), ephemeral_offset := ephemeral_offset t + 1\<rparr>"
  have a: "trans_table_add crc e t = (0, t')"
    using conflict_iff [OF t e(1)] n e(2) by (simp add: trans_table_add_def Let_def t'_def idx_def)
  have b: "trans_seed t' = trans_seed t" "trans_tbl t' k = (if k = idx then e # trans_tbl t idx else trans_tbl t k)" for k
    by (simp_all add: t'_def)
  have "trans_wf crc t'"
    using t e n unfolding trans_wf_def b by (auto simp: idx_def find_None_iff_key entry_hash_key)
  moreover have "trans_map crc t' key = ((trans_map crc t)(key_of e \<mapsto> e)) key" for key
    unfolding trans_map_def b by (auto simp: idx_def entry_hash_key)
  ultimately show "\<exists>t'. trans_table_add crc e t = (0, t') \<and> trans_wf crc t' \<and> trans_seed t' = trans_seed t \<and>
       trans_map crc t' = (trans_map crc t)(key_of e \<mapsto> e)"
    using a b(1) by blast
qed

definition without :: "addr \<Rightarrow> (trans_key \<rightharpoonup> trans_entry) \<Rightarrow> trans_key \<rightharpoonup> trans_entry" where
  "without i f = (\<lambda>k. case f k of None \<Rightarrow> None | Some e \<Rightarrow> if eid e = i then None else Some e)"

lemma find_filter_key:
  "distinct (map key_of es) \<Longrightarrow> find (\<lambda>e. key_of e = key) (filter (\<lambda>e. eid e \<noteq> i) es) =
   (case find (\<lambda>e. key_of e = key) es of None \<Rightarrow> None | Some e \<Rightarrow> if eid e = i then None else Some e)"
proof (induction es)
  case (Cons a es)
  have "find (\<lambda>e. key_of e = key_of a) es = None" using Cons.prems by (auto simp: find_None_iff image_iff)
  then show ?case using Cons by (cases "key_of a = key") auto
qed simp

lemma trans_table_remove_map:
  assumes "trans_wf crc t"
  shows "trans_wf crc (trans_table_remove i t) \<and> trans_map crc (trans_table_remove i t) = without i (trans_map crc t)"
proof
  have r: "trans_tbl (trans_table_remove i t) k = filter (\<lambda>e. eid e \<noteq> i) (trans_tbl t k)"
    "trans_seed (trans_table_remove i t) = trans_seed t" for k
    by (simp_all add: trans_table_remove_def)
  show "trans_wf crc (trans_table_remove i t)"
    using assms unfolding trans_wf_def r by (auto simp: distinct_map_filter)
  show "trans_map crc (trans_table_remove i t) = without i (trans_map crc t)"
    using assms unfolding trans_map_def without_def r by (intro ext find_filter_key) (simp add: trans_wf_def)
qed

lemma find_5tuple_map: "find_5tuple crc t p l r = trans_map crc t (TRANS_MATCH_5TUPLE, p, l, r)"
  by (simp add: find_5tuple_def trans_map_def key_hash_def key_of_def)

lemma find_3tuple_map:
  assumes "trans_wf crc t"
  shows "find_3tuple crc t p l = trans_map crc t (TRANS_MATCH_3TUPLE, p, l, (0, 0))"
proof -
  have "find (\<lambda>e. ematch e = TRANS_MATCH_3TUPLE \<and> eproto e = p \<and> eladdr e = l) es =
      find (\<lambda>e. key_of e = (TRANS_MATCH_3TUPLE, p, l, (0, 0))) es" if "\<forall>e \<in> set es. entry_wf e" for es
    using that by (induction es) (auto simp: key_of_def entry_wf_def)
  then show ?thesis
    using assms by (simp add: find_3tuple_def trans_map_def key_hash_def trans_wf_def)
qed

lemma trans_lookup_map:
  assumes "trans_wf crc t"
  shows "trans_lookup crc t m reverse =
    (if ip_proto m \<noteq> IPPROTO_UDP \<and> ip_proto m \<noteq> IPPROTO_TCP \<or> mbuf_length m < 4 then None
     else let src = (ip_saddr m, ntoh16 (mbuf_data m)); dst = (ip_daddr m, ntoh16 (drop 2 (mbuf_data m)));
              l = (if reverse then src else dst); r = (if reverse then dst else src)
          in case trans_map crc t (TRANS_MATCH_5TUPLE, ip_proto m, l, r) of
               Some e \<Rightarrow> Some e
             | None \<Rightarrow> trans_map crc t (TRANS_MATCH_3TUPLE, ip_proto m, l, (0, 0)))"
  by (simp add: trans_lookup_def Let_def find_5tuple_map find_3tuple_map [OF assms] split: option.split)

subsection \<open>A socket stays reachable\<close>

text \<open>
  What the protocols rely on: an entry added under a free key is found under it, whatever else is
  added and removed, until it is itself removed.
\<close>

datatype 'e table_op = Table_add 'e | Table_remove addr

locale socket_table =
  fixes inv :: "'t \<Rightarrow> bool" and sockets :: "'t \<Rightarrow> 'k \<rightharpoonup> 'e" and add :: "'e \<Rightarrow> 't \<Rightarrow> int \<times> 't"
    and del :: "addr \<Rightarrow> 't \<Rightarrow> 't" and key :: "'e \<Rightarrow> 'k" and ident :: "'e \<Rightarrow> addr" and ok :: "'e \<Rightarrow> bool"
  assumes add_free: "inv t \<Longrightarrow> ok e \<Longrightarrow> sockets t (key e) = None \<Longrightarrow>
      fst (add e t) = 0 \<and> inv (snd (add e t)) \<and> sockets (snd (add e t)) = (sockets t)(key e \<mapsto> e)"
    and add_taken: "inv t \<Longrightarrow> ok e \<Longrightarrow> sockets t (key e) \<noteq> None \<Longrightarrow> fst (add e t) \<noteq> 0 \<and> snd (add e t) = t"
    and del_inv: "inv t \<Longrightarrow> inv (del i t)"
    and del_sockets: "inv t \<Longrightarrow> sockets t k = Some e \<Longrightarrow> ident e \<noteq> i \<Longrightarrow> sockets (del i t) k = Some e"
begin

lemma add_inv: "inv t \<Longrightarrow> ok e \<Longrightarrow> inv (snd (add e t))"
  using add_free add_taken by (cases "sockets t (key e)") auto

lemma add_keeps: "inv t \<Longrightarrow> ok e' \<Longrightarrow> sockets t k = Some e \<Longrightarrow> sockets (snd (add e' t)) k = Some e"
  using add_free [of t e'] add_taken [of t e'] by (cases "sockets t (key e')") auto

lemma stays:
  "inv t \<Longrightarrow> sockets t k = Some e \<Longrightarrow>
   \<forall>op \<in> set ops. case op of Table_add e' \<Rightarrow> ok e' | Table_remove i \<Rightarrow> i \<noteq> ident e \<Longrightarrow>
   let t' = fold (\<lambda>op t. case op of Table_add e' \<Rightarrow> snd (add e' t) | Table_remove i \<Rightarrow> del i t) ops t
   in inv t' \<and> sockets t' k = Some e"
proof (induction ops arbitrary: t)
  case (Cons op ops)
  show ?case
  proof (cases op)
    case (Table_add e')
    then show ?thesis using Cons add_inv add_keeps by (simp add: Let_def)
  next
    case (Table_remove i)
    then show ?thesis using Cons del_inv del_sockets by (simp add: Let_def)
  qed
qed simp

end

definition entry_ok :: "trans_entry \<Rightarrow> bool" where
  "entry_ok e \<longleftrightarrow> entry_wf e \<and> snd (eladdr e) \<noteq> 0"

definition trans_run :: "crc \<Rightarrow> trans_entry table_op list \<Rightarrow> trans \<Rightarrow> trans" where
  "trans_run crc ops t =
     fold (\<lambda>op t. case op of Table_add e \<Rightarrow> snd (trans_table_add crc e t) | Table_remove i \<Rightarrow> trans_table_remove i t) ops t"

interpretation tt: socket_table "trans_wf crc" "trans_map crc" "trans_table_add crc" trans_table_remove key_of eid entry_ok
  for crc
proof
  fix t e
  assume a: "trans_wf crc t" "entry_ok e"
  show "trans_map crc t (key_of e) = None \<Longrightarrow> fst (trans_table_add crc e t) = 0 \<and> trans_wf crc (snd (trans_table_add crc e t)) \<and>
      trans_map crc (snd (trans_table_add crc e t)) = (trans_map crc t)(key_of e \<mapsto> e)"
    using trans_table_add_map [of crc t e] a by (auto simp: entry_ok_def)
  show "trans_map crc t (key_of e) \<noteq> None \<Longrightarrow> fst (trans_table_add crc e t) \<noteq> 0 \<and> snd (trans_table_add crc e t) = t"
    using trans_table_add_map [of crc t e] a by (auto simp: entry_ok_def EADDRINUSE_def)
next
  fix t i
  assume a: "trans_wf crc t"
  show "trans_wf crc (trans_table_remove i t)" using trans_table_remove_map [OF a] by blast
  fix k e
  show "trans_map crc t k = Some e \<Longrightarrow> eid e \<noteq> i \<Longrightarrow> trans_map crc (trans_table_remove i t) k = Some e"
    using trans_table_remove_map [OF a, of i] by (simp add: without_def)
qed

subsection \<open>Ephemeral ports\<close>

lemma num_ephemeral: "num_ephemeral = 16384"
  by (simp add: num_ephemeral_def MAX_EPHEMERAL_def MIN_EPHEMERAL_def)

lemma unat_ephemeral_port: "unat (ephemeral_port off k) = MIN_EPHEMERAL + (k + unat off) mod num_ephemeral"
proof -
  have "49152 + (k + unat off) mod 16384 < 65536" using mod_less_divisor [of 16384 "k + unat off"] by simp
  then show ?thesis by (simp only: ephemeral_port_def num_ephemeral MIN_EPHEMERAL_def unat_of_nat) (simp add: take_bit_nat_eq_self)
qed

lemma wrap_back: "((q + (n - x mod n)) mod n + x) mod n = q mod n" if "0 < n" for q x n :: nat
proof -
  have "x mod n < n" using that by simp
  then have e: "q + (n - x mod n) + x = q + (n * (x div n) + n)" using mult_div_mod_eq [of n x] by linarith
  have "q + (n * (x div n) + n) = q + n * (x div n + 1)" by (simp only: distrib_left mult_1_right)
  then have "(q + (n - x mod n) + x) mod n = q mod n" by (simp only: e mod_mult_self2)
  then show ?thesis by (simp only: mod_add_left_eq)
qed

lemma ephemeral_port_all:
  assumes "MIN_EPHEMERAL \<le> unat (p :: u16)"
  shows "\<exists>k < num_ephemeral. ephemeral_port off k = p"
proof -
  have b: "unat p < 65536" using unsigned_less [of p, where ?'a = nat] by simp
  define q where "q = unat p - 49152"
  define k where "k = (q + (16384 - unat off mod 16384)) mod 16384"
  have "(k + unat off) mod 16384 = q mod 16384" unfolding k_def by (rule wrap_back) simp
  also have "\<dots> = q" using b by (simp add: q_def)
  finally have "unat (ephemeral_port off k) = unat p"
    using assms by (simp add: unat_ephemeral_port num_ephemeral MIN_EPHEMERAL_def q_def)
  then have "ephemeral_port off k = p" by (simp add: word_unat_eq_iff)
  moreover have "k < num_ephemeral" by (simp add: k_def num_ephemeral)
  ultimately show ?thesis by blast
qed

abbreviation with_port :: "trans_entry \<Rightarrow> u16 \<Rightarrow> trans_entry" where
  "with_port e p \<equiv> e\<lparr>eladdr := (fst (eladdr e), p)\<rparr>"

lemma ephemeral_loop_spec:
  assumes t: "trans_wf crc t" and e: "entry_wf e"
  shows "(\<exists>j t'. k \<le> j \<and> j < num_ephemeral \<and> trans_map crc t (key_of (with_port e (ephemeral_port off j))) = None \<and>
       ephemeral_loop crc off k e t = (0, with_port e (ephemeral_port off j), t') \<and> trans_wf crc t' \<and>
       trans_map crc t' = (trans_map crc t)(key_of (with_port e (ephemeral_port off j)) \<mapsto> with_port e (ephemeral_port off j))) \<or>
    (\<forall>j. k \<le> j \<and> j < num_ephemeral \<longrightarrow> trans_map crc t (key_of (with_port e (ephemeral_port off j))) \<noteq> None) \<and>
       (\<exists>e'. ephemeral_loop crc off k e t = (- EADDRNOTAVAIL, e', t))"
  using e
proof (induction "num_ephemeral - k" arbitrary: k e)
  case 0
  then have "ephemeral_loop crc off k e t = (- EADDRNOTAVAIL, e, t)" by (subst ephemeral_loop.simps) simp
  then show ?case using 0 by auto
next
  case (Suc n)
  then have k: "k < num_ephemeral" by simp
  define e1 where "e1 = with_port e (ephemeral_port off k)"
  have w: "entry_wf e1" "snd (eladdr e1) \<noteq> 0"
    using Suc.prems unat_ephemeral_port [of off k] by (auto simp: e1_def entry_wf_def MIN_EPHEMERAL_def)
  have wp: "with_port e1 p = with_port e p" for p by (simp add: e1_def)
  show ?case
  proof (cases "trans_map crc t (key_of e1)")
    case None
    then obtain t' where "trans_table_add crc e1 t = (0, t')" "trans_wf crc t'" "trans_map crc t' = (trans_map crc t)(key_of e1 \<mapsto> e1)"
      using trans_table_add_map [OF t w] by blast
    moreover then have "ephemeral_loop crc off k e t = (0, e1, t')"
      using k by (subst ephemeral_loop.simps) (simp add: Let_def flip: e1_def)
    ultimately show ?thesis using None k unfolding e1_def by blast
  next
    case (Some x)
    then have "trans_table_add crc e1 t = (- EADDRINUSE, t)" using trans_table_add_map [OF t w] by blast
    then have l: "ephemeral_loop crc off k e t = ephemeral_loop crc off (Suc k) e1 t"
      using k by (subst ephemeral_loop.simps) (simp add: Let_def EADDRINUSE_def flip: e1_def)
    have all: "(\<forall>j. Suc k \<le> j \<and> j < num_ephemeral \<longrightarrow> trans_map crc t (key_of (with_port e (ephemeral_port off j))) \<noteq> None) \<Longrightarrow>
        \<forall>j. k \<le> j \<and> j < num_ephemeral \<longrightarrow> trans_map crc t (key_of (with_port e (ephemeral_port off j))) \<noteq> None"
      using Some unfolding e1_def by (metis le_antisym not_less_eq_eq option.distinct(1))
    have "n = num_ephemeral - Suc k" using Suc.hyps(2) by simp
    from Suc.hyps(1) [OF this w(1)] show ?thesis
      unfolding l wp using all Suc_leD by meson
  qed
qed

subsection \<open>Properties\<close>

text \<open>
  C6. The hashed table behaves as a map from keys to sockets, whatever the hash function. Adding
  succeeds exactly if the key is free and then binds it, and otherwise changes nothing. Removing unbinds
  exactly the given socket. A packet goes to the socket of its full address pair, else to the listener on its
  destination address, else to nobody. A socket that is bound stays bound through any sequence of
  additions and removals of other sockets.
\<close>

theorem trans_table_refines_map:
  assumes t: "trans_wf crc t" and e: "entry_ok e"
  shows "(if trans_map crc t (key_of e) = None
      then \<exists>t'. trans_table_add crc e t = (0, t') \<and> trans_wf crc t' \<and> trans_map crc t' = (trans_map crc t)(key_of e \<mapsto> e)
      else trans_table_add crc e t = (- EADDRINUSE, t)) \<and>
    trans_wf crc (trans_table_remove i t) \<and> trans_map crc (trans_table_remove i t) = without i (trans_map crc t) \<and>
    trans_lookup crc t m reverse =
      (if ip_proto m \<noteq> IPPROTO_UDP \<and> ip_proto m \<noteq> IPPROTO_TCP \<or> mbuf_length m < 4 then None
       else let src = (ip_saddr m, ntoh16 (mbuf_data m)); dst = (ip_daddr m, ntoh16 (drop 2 (mbuf_data m)));
                l = (if reverse then src else dst); r = (if reverse then dst else src)
            in case trans_map crc t (TRANS_MATCH_5TUPLE, ip_proto m, l, r) of
                 Some e \<Rightarrow> Some e
               | None \<Rightarrow> trans_map crc t (TRANS_MATCH_3TUPLE, ip_proto m, l, (0, 0))) \<and>
    (trans_map crc t k = Some x \<longrightarrow>
     (\<forall>op \<in> set ops. case op of Table_add e' \<Rightarrow> entry_ok e' | Table_remove i \<Rightarrow> i \<noteq> eid x) \<longrightarrow>
     trans_map crc (trans_run crc ops t) k = Some x)"
proof -
  have "if trans_map crc t (key_of e) = None
      then \<exists>t'. trans_table_add crc e t = (0, t') \<and> trans_wf crc t' \<and> trans_map crc t' = (trans_map crc t)(key_of e \<mapsto> e)
      else trans_table_add crc e t = (- EADDRINUSE, t)"
    using trans_table_add_map [OF t, of e] e by (auto simp: entry_ok_def)
  moreover have "trans_map crc t k = Some x \<longrightarrow>
     (\<forall>op \<in> set ops. case op of Table_add e' \<Rightarrow> entry_ok e' | Table_remove i \<Rightarrow> i \<noteq> eid x) \<longrightarrow>
     trans_map crc (trans_run crc ops t) k = Some x"
    using tt.stays [OF t, of k x ops] unfolding trans_run_def Let_def by blast
  ultimately show ?thesis using trans_table_remove_map [OF t, of i] trans_lookup_map [OF t, of m reverse] by simp
qed

theorem trans_table_refines_map_witness:
  "let crc = (\<lambda>s v. s + ucast v); t = trans_init 7; e = trans_init_3tuple 1 IPPROTO_TCP (10, 80)
   in trans_map crc (snd (trans_table_add crc e t)) = [key_of e \<mapsto> e]"
proof -
  define crc :: crc where "crc = (\<lambda>s v. s + ucast v)"
  define e where "e = trans_init_3tuple 1 IPPROTO_TCP (10, 80)"
  have "entry_ok e" by (simp add: e_def trans_init_3tuple_def entry_ok_def entry_wf_def)
  moreover have "trans_map crc (trans_init 7) (key_of e) = None" by (simp add: trans_map_init)
  ultimately have "\<exists>t'. trans_table_add crc e (trans_init 7) = (0, t') \<and> trans_map crc t' = (trans_map crc (trans_init 7))(key_of e \<mapsto> e)"
    using conjunct1 [OF trans_table_refines_map [OF trans_wf_init [of crc 7], of e]] by (auto split: if_splits)
  then show ?thesis by (auto simp: Let_def trans_map_init crc_def e_def)
qed

text \<open>
  C36. The search for an ephemeral port always ends. It takes a port of the range 49152 to 65535 that no
  other socket uses with the same addresses and binds it, and reports that no port is available only
  if every port of the range is taken, in which case the table is unchanged.
\<close>

theorem ephemeral_port_search:
  assumes t: "trans_wf crc t" and e: "entry_wf e"
  shows "(\<exists>p t'. trans_table_add_with_ephemeral_port crc e t = (0, with_port e p, t') \<and> MIN_EPHEMERAL \<le> unat p \<and>
       unat p \<le> MAX_EPHEMERAL \<and> trans_map crc t (key_of (with_port e p)) = None \<and> trans_wf crc t' \<and>
       trans_map crc t' = (trans_map crc t)(key_of (with_port e p) \<mapsto> with_port e p)) \<or>
    (\<forall>p. MIN_EPHEMERAL \<le> unat p \<longrightarrow> trans_map crc t (key_of (with_port e p)) \<noteq> None) \<and>
       (\<exists>e'. trans_table_add_with_ephemeral_port crc e t = (- EADDRNOTAVAIL, e', t))"
proof -
  define e0 where "e0 = with_port e 0"
  define off :: u16 where "off = ucast (entry_hash crc (trans_seed t) e0 + ephemeral_offset t)"
  have d: "trans_table_add_with_ephemeral_port crc e t = ephemeral_loop crc off 0 e0 t"
    by (simp add: trans_table_add_with_ephemeral_port_def Let_def off_def e0_def)
  have w: "entry_wf e0" "with_port e0 p = with_port e p" for p using e by (simp_all add: e0_def entry_wf_def)
  have r: "MIN_EPHEMERAL \<le> unat (ephemeral_port off j)" "unat (ephemeral_port off j) \<le> MAX_EPHEMERAL" for j
    using mod_less_divisor [of 16384 "j + unat off"]
    by (simp_all add: unat_ephemeral_port num_ephemeral MAX_EPHEMERAL_def MIN_EPHEMERAL_def)
  from ephemeral_loop_spec [OF t w(1), of 0 off, unfolded w(2)] show ?thesis
  proof
    assume "\<exists>j t'. 0 \<le> j \<and> j < num_ephemeral \<and> trans_map crc t (key_of (with_port e (ephemeral_port off j))) = None \<and>
       ephemeral_loop crc off 0 e0 t = (0, with_port e (ephemeral_port off j), t') \<and> trans_wf crc t' \<and>
       trans_map crc t' = (trans_map crc t)(key_of (with_port e (ephemeral_port off j)) \<mapsto> with_port e (ephemeral_port off j))"
    then show ?thesis unfolding d using r by blast
  next
    assume "(\<forall>j. 0 \<le> j \<and> j < num_ephemeral \<longrightarrow> trans_map crc t (key_of (with_port e (ephemeral_port off j))) \<noteq> None) \<and>
       (\<exists>e'. ephemeral_loop crc off 0 e0 t = (- EADDRNOTAVAIL, e', t))"
    then show ?thesis unfolding d using ephemeral_port_all [of _ off] by (metis le0)
  qed
qed

theorem ephemeral_port_search_witness:
  "let crc = (\<lambda>s v. s + ucast v); e = trans_init_5tuple 1 IPPROTO_TCP (10, 0) (11, 80)
   in \<exists>p t'. trans_table_add_with_ephemeral_port crc e (trans_init 7) = (0, with_port e p, t') \<and> 49152 \<le> unat p"
proof -
  define crc :: crc where "crc = (\<lambda>s v. s + ucast v)"
  define e where "e = trans_init_5tuple 1 IPPROTO_TCP (10, 0) (11, 80)"
  have w: "entry_wf e" by (simp add: e_def trans_init_5tuple_def entry_wf_def)
  have "MIN_EPHEMERAL \<le> unat (50000 :: u16)" "trans_map crc (trans_init 7) (key_of (with_port e 50000)) = None"
    by (simp_all add: trans_map_init MIN_EPHEMERAL_def)
  then show ?thesis
    using ephemeral_port_search [OF trans_wf_init [of crc 7] w] unfolding Let_def crc_def [symmetric] e_def [symmetric] MIN_EPHEMERAL_def by blast
qed

end
