(* ===== verification/Tcp_Conn.thy ===== *)
theory Tcp_Conn
  imports Transport
begin

text \<open>
  TCP sockets (\<open>runtime/net/tcp.c\<close>, the listener of \<open>runtime/net/tcp_in.c\<close>): timeouts, creating,
  listening, accepting, dialling, reading, writing, shutting down and closing.

  An operation that may sleep is modelled by its turns: a turn ends with \<open>Blocked\<close> after the thread has
  queued itself on the wait queue, and is run again when the thread is woken, as the \<open>while\<close> loop around
  \<open>waitq_wait\<close> does. Memory from \<open>smalloc\<close>, random numbers and the answers of \<open>preempt_needed\<close> are
  arguments. The other conventions are those of theory \<open>Tcp\<close>.
\<close>

datatype 'a attempt = Blocked | Ret 'a

definition EAGAIN :: int where "EAGAIN = 11"
definition EPIPE :: int where "EPIPE = 32"
definition ECONNABORTED :: int where "ECONNABORTED = 103"
definition ETIMEDOUT :: int where "ETIMEDOUT = 110"
definition EINPROGRESS :: int where "EINPROGRESS = 115"

subsection \<open>Timeouts and errors\<close>

text \<open>The part after the checks of the state: acknowledgements, window probes, retransmissions.\<close>

definition timeout_work :: "u64 \<Rightarrow> tcpconn \<Rightarrow> tcpconn exec" where
  "timeout_work now c =
     (let ack = (ack_delayed c \<and> now - ack_ts c \<ge> TCP_ACK_TIMEOUT);
          c = (if ack then c\<lparr>ack_delayed := False\<rparr> else c);
          probe = (zero_wnd c \<and> now - zero_wnd_ts c \<ge> TCP_ZERO_WND_TIMEOUT);
          c = (if probe then c\<lparr>zero_wnd_ts := now\<rparr> else c);
          retransmit = (\<not> tx_exclusive c \<and> (case txq c of [] \<Rightarrow> False | m # _ \<Rightarrow> now - timestamp m \<ge> TCP_RETRANSMIT_TIMEOUT))
      in bind_exec (if retransmit then tcp_conn_get c else Inr c) (\<lambda>c.
           let ack = (ack \<or> rxq_ooo c \<noteq> []); c = tcp_timer_update now c
           in bind_exec (if ack then bind_exec (tcp_tx_ack c) (\<lambda>(_, c). Inr c) else Inr c) (\<lambda>c.
              bind_exec (if probe then bind_exec (tcp_tx_probe_window c) (\<lambda>(_, c). Inr c) else Inr c) (\<lambda>c.
                Inr (if retransmit then emit_c [Spawn_retransmit] c else c)))))"

definition tcp_handle_timeouts :: "u64 \<Rightarrow> tcpconn \<Rightarrow> tcpconn exec" where
  "tcp_handle_timeouts now c =
     (if state (pcb c) = CLOSED then Inr c
      else if state (pcb c) < ESTABLISHED \<and> now - time_wait_ts c \<ge> TCP_CONNECT_TIMEOUT then tcp_conn_fail now c ETIMEDOUT
      else if state (pcb c) = TIME_WAIT \<and> now - time_wait_ts c \<ge> TCP_TIME_WAIT_TIMEOUT
      then bind_exec (tcp_conn_set_state now c CLOSED) tcp_conn_put
      else timeout_work now c)"

text \<open>
  A pass of the worker over all connections; \<open>ps\<close> are the answers of \<open>preempt_needed\<close>, no more answers
  mean no preemption. The first result is whether to start again at once.
\<close>

fun tcp_worker_pass :: "u64 \<Rightarrow> bool list \<Rightarrow> tcpconn list \<Rightarrow> (bool \<times> tcpconn list) exec" where
  "tcp_worker_pass now ps [] = Inr (False, [])"
| "tcp_worker_pass now ps (c # cs) =
     (if ps \<noteq> [] \<and> List.hd ps then Inr (True, c # cs)
      else bind_exec (if next_timeout c \<le> now then tcp_handle_timeouts now c else Inr c) (\<lambda>c.
           bind_exec (tcp_worker_pass now (tl ps) cs) (\<lambda>(again, cs). Inr (again, c # cs))))"

definition tcp_conn_err :: "u64 \<Rightarrow> tcpconn \<Rightarrow> int \<Rightarrow> tcpconn exec" where
  "tcp_conn_err now c e = tcp_conn_fail now c e"

definition tcp_get_status :: "tcpconn \<Rightarrow> int" where
  "tcp_get_status c =
     (if state (pcb c) < ESTABLISHED then - EINPROGRESS
      else if tx_closed c then (if err c \<noteq> 0 then - err c else - EPIPE)
      else 0)"

subsection \<open>Creating connections\<close>

function scale_loop :: "u32 \<Rightarrow> u32 \<Rightarrow> u32" where
  "scale_loop maxwin wscale =
     (if maxwin > 0xFFFF \<and> wscale < 14 then scale_loop (drop_bit 1 maxwin) (wscale + 1) else wscale)"
  by pat_completeness auto
termination
proof (relation "measure (\<lambda>(_, w). 14 - unat w)")
  fix maxwin wscale :: u32
  assume "0xFFFF < maxwin \<and> wscale < 14"
  then have "unat wscale < 14" by (simp add: word_less_nat_alt)
  moreover from this have "unat (wscale + 1) = unat wscale + 1" by (simp add: unat_word_ariths)
  ultimately show "((drop_bit 1 maxwin, wscale + 1), maxwin, wscale) \<in> measure (\<lambda>(_, w). 14 - unat w)" by simp
qed simp

declare scale_loop.simps [simp del]

definition tcp_scale_window :: "u32 \<Rightarrow> u32" where
  "tcp_scale_window maxwin = scale_loop maxwin 0"

text \<open>\<open>mem\<close> is the memory that \<open>smalloc\<close> gives; its other fields keep what is in it.\<close>

definition tcp_conn_alloc :: "tcpconn option \<Rightarrow> u32 \<Rightarrow> tcpconn option" where
  "tcp_conn_alloc mem rnd =
     map_option (\<lambda>c. c
       \<lparr>pcb := \<lparr>state = CLOSED, snd_una = rnd, snd_nxt = rnd, snd_wnd = 0, snd_wl1 = 0, snd_wl2 = 0, iss = rnd, snd_wscale = 0,
          snd_mss = 0, rcv_nxt = 0, rcv_wnd = TCP_WIN, irs = 0, rcv_wscale = tcp_scale_window TCP_WIN,
          rcv_mss = tcp_calculate_mss (mtu (wd c))\<rparr>,
        nonblocking := False, cref := kref_init, err := 0, winmax := TCP_WIN,
        rx_closed := False, rx_exclusive := False, rx_wq := [], rxq_ooo_len := 0, rxq_ooo := [], rxq := [],
        tx_closed := False, tx_exclusive := False, tx_wq := [], tx_last_ack := 0, tx_last_win := 0, tx_pending := None,
        txq := [], do_fast_retransmit := False, next_timeout := - 1, ack_delayed := False, ack_ts := 0, time_wait_ts := 0,
        rep_acks := 0, acks_delayed_cnt := 0, zero_wnd := False\<rparr>) mem"

text \<open>
  What TCP shares: the address of the host, the table of the transport layer, the list of connections
  that the worker visits, and the worker when it sleeps.
\<close>

record tcp_global =
  netcfg_addr :: u32
  table :: trans
  tcp_conns :: "addr list"
  tcp_worker_th :: "tid option"

definition tcp_conn_attach :: "crc \<Rightarrow> u64 \<Rightarrow> addr \<Rightarrow> netaddr \<Rightarrow> netaddr \<Rightarrow> tcp_global \<Rightarrow> tcpconn \<Rightarrow> int \<times> tcp_global \<times> tcpconn" where
  "tcp_conn_attach crc now i l r g c =
     (if fst l \<noteq> 0 \<and> fst l \<noteq> netcfg_addr g then (- EINVAL, g, c)
      else let l = (netcfg_addr g, snd l);
               e = trans_init_5tuple i IPPROTO_TCP l r;
               (ret, e, t) = (if snd l = 0 then trans_table_add_with_ephemeral_port crc e (table g)
                              else (let (ret, t) = trans_table_add crc e (table g) in (ret, e, t)));
               g = g\<lparr>table := t\<rparr>; c = c\<lparr>laddr := eladdr e, raddr := eraddr e\<rparr>
           in if ret \<noteq> 0 then (ret, g, c)
              else let c = (case tcp_worker_th g of None \<Rightarrow> c | Some th \<Rightarrow> emit_c [Ready th] c)
                   in (0, g\<lparr>tcp_worker_th := None, tcp_conns := tcp_conns g @ [i]\<rparr>, c\<lparr>time_wait_ts := now\<rparr>))"

definition tcp_conn_destroy :: "addr \<Rightarrow> tcp_global \<Rightarrow> tcpconn \<Rightarrow> tcp_global \<times> tcpconn" where
  "tcp_conn_destroy i g c = (g\<lparr>table := trans_table_remove i (table g)\<rparr>, emit_c [Destroy] c)"

text \<open>The release after the RCU period: the connection leaves the list and its buffers are freed.\<close>

definition tcp_conn_release :: "addr \<Rightarrow> tcp_global \<Rightarrow> tcpconn \<Rightarrow> tcp_global \<times> world" where
  "tcp_conn_release i g c =
     (g\<lparr>tcp_conns := remove1 i (tcp_conns g)\<rparr>,
      mbuf_list_free ((case tx_pending c of None \<Rightarrow> [] | Some m \<Rightarrow> [m]) @ rxq_ooo c @ rxq c @ txq c) (wd c))"

subsection \<open>Listening\<close>

text \<open>
  \<open>mem\<close> is the address and the memory for the new connection. The connection takes over the world of
  the call. Not returning is the outer \<open>None\<close>; the result is the new connection, if there is one.
\<close>

definition listener_syn :: "crc \<Rightarrow> u64 \<Rightarrow> addr \<Rightarrow> tcpconn \<Rightarrow> u32 \<Rightarrow> netaddr \<Rightarrow> netaddr \<Rightarrow> u32 \<Rightarrow> u8 list \<Rightarrow> int \<Rightarrow> tcp_global \<Rightarrow>
    ((addr \<times> tcpconn) option \<times> tcp_global \<times> world) exec option" where
  "listener_syn crc now i c rnd l r sq optp optlen g =
     (case tcp_conn_alloc (Some c) rnd of
        None \<Rightarrow> Some (Inr (None, g, wd c))
      | Some c \<Rightarrow>
          map_option (\<lambda>p. bind_exec p (\<lambda>(os, c).
            let opts = answer_options os c; (ret, g, c) = tcp_conn_attach crc now i l r g c
            in if ret \<noteq> 0 then Inr (None, g, wd c)
               else bind_exec (tcp_tx_ctl now c (TCP_SYN OR TCP_ACK) (Some opts)) (\<lambda>(ret, c).
                      if ret \<noteq> 0 then (let (g, c) = tcp_conn_destroy i g c in Inr (None, g, wd c))
                      else bind_exec (tcp_conn_get c) (\<lambda>c.
                           bind_exec (tcp_conn_set_state now c SYN_RECEIVED) (\<lambda>c. Inr (Some (i, c), g, wd c))))))
            (tcp_parse_options (upd_pcb (\<lambda>p. p\<lparr>irs := sq, rcv_nxt := sq + 1\<rparr>) c) optp optlen))"

definition tcp_rx_listener :: "crc \<Rightarrow> u64 \<Rightarrow> (addr \<times> tcpconn) option \<Rightarrow> u32 \<Rightarrow> netaddr \<Rightarrow> mbuf \<Rightarrow> tcp_global \<Rightarrow> world \<Rightarrow>
    ((addr \<times> tcpconn) option \<times> tcp_global \<times> world) exec option" where
  "tcp_rx_listener crc now mem rnd l m g w =
     (let none = Some (Inr (None, g, w))
      in case mbuf_pull_or_null m TCP_HDR_LEN of
           None \<Rightarrow> none
         | Some (bs, m) \<Rightarrow>
             let h = tcp_hdr_of bs; r = (ip_saddr m, sport h); hdr_len = ucast (hoff h) * 4 :: u32
             in if has (hflags h) TCP_RST then none
                else if has (hflags h) TCP_ACK then Some (bind_exec (tcp_tx_raw_rst l r (hack h) w) (\<lambda>(_, w). Inr (None, g, w)))
                else if \<not> has (hflags h) TCP_SYN then none
                else if (ucast (ip_len m) - 20 :: u64) \<noteq> ucast hdr_len then none
                else if hdr_len < 20 then none
                else case mbuf_pull_or_null m (unat hdr_len - TCP_HDR_LEN) of
                       None \<Rightarrow> none
                     | Some (_, m') \<Rightarrow>
                         (case mem of
                            None \<Rightarrow> none
                          | Some (i, c) \<Rightarrow>
                              listener_syn crc now i (c\<lparr>wd := w\<rparr>) rnd l r (hseq h) (drop (doff m) (bytes m))
                                (int (unat hdr_len) - int TCP_HDR_LEN) g))"

record tcpqueue =
  q_addr :: addr
  q_laddr :: netaddr
  q_wq :: "tid list"
  q_conns :: "addr list"
  q_backlog :: int
  q_shutdown :: bool
  q_nonblocking :: bool
  q_ref :: u32

text \<open>The handler of a packet takes the lock of the queue twice; these are the locked sections.\<close>

definition recv_reserve :: "tcpqueue \<Rightarrow> tcpqueue option" where
  "recv_reserve q = (if q_backlog q = 0 \<or> q_shutdown q then None else Some (q\<lparr>q_backlog := q_backlog q - 1\<rparr>))"

definition recv_unreserve :: "tcpqueue \<Rightarrow> tcpqueue" where
  "recv_unreserve q = q\<lparr>q_backlog := q_backlog q + 1\<rparr>"

definition recv_enqueue :: "addr \<Rightarrow> tcpqueue \<Rightarrow> tid option \<times> tcpqueue" where
  "recv_enqueue i q = (let (th, wq) = waitq_signal (q_wq q) in (th, q\<lparr>q_conns := q_conns q @ [i], q_wq := wq\<rparr>))"

text \<open>The first result is the connection that was created.\<close>

definition tcp_queue_recv :: "crc \<Rightarrow> u64 \<Rightarrow> (addr \<times> tcpconn) option \<Rightarrow> u32 \<Rightarrow> tcpqueue \<Rightarrow> mbuf \<Rightarrow> tcp_global \<Rightarrow> world \<Rightarrow>
    ((addr \<times> tcpconn) option \<times> tcpqueue \<times> tcp_global \<times> world) exec option" where
  "tcp_queue_recv crc now mem rnd q m g w =
     (case recv_reserve q of
        None \<Rightarrow> Some (Inr (None, q, g, emit [Release m] w))
      | Some q \<Rightarrow>
          map_option (\<lambda>r. bind_exec r (\<lambda>(co, g, w).
            case co of
              None \<Rightarrow> Inr (None, recv_unreserve q, g, emit [Release m] w)
            | Some (i, c) \<Rightarrow>
                let (th, q) = recv_enqueue i q in Inr (Some (i, c), q, g, emit [Release m] (waitq_signal_finish th w))))
            (tcp_rx_listener crc now mem rnd (q_laddr q) m g w))"

definition LOOPBACK :: u32 where "LOOPBACK = 0x7F000001"

definition tcp_listen :: "crc \<Rightarrow> addr option \<Rightarrow> netaddr \<Rightarrow> int \<Rightarrow> tcp_global \<Rightarrow> int \<times> tcpqueue option \<times> tcp_global" where
  "tcp_listen crc mem l backlog g =
     (if backlog < 1 then (- EINVAL, None, g)
      else if fst l \<noteq> 0 \<and> fst l \<noteq> LOOPBACK \<and> fst l \<noteq> netcfg_addr g then (- EINVAL, None, g)
      else case mem of
             None \<Rightarrow> (- ENOMEM, None, g)
           | Some i \<Rightarrow>
               let l = (netcfg_addr g, snd l);
                   e = trans_init_3tuple i IPPROTO_TCP l;
                   (ret, e, t) = (if snd l = 0 then trans_table_add_with_ephemeral_port crc e (table g)
                                  else (let (ret, t) = trans_table_add crc e (table g) in (ret, e, t)));
                   g = g\<lparr>table := t\<rparr>
               in if ret \<noteq> 0 then (ret, None, g)
                  else (0, Some \<lparr>q_addr = i, q_laddr = eladdr e, q_wq = [], q_conns = [], q_backlog = backlog, q_shutdown = False,
                          q_nonblocking = False, q_ref = kref_init\<rparr>, g))"

definition tcp_accept :: "tid \<Rightarrow> tcpqueue \<Rightarrow> (int \<times> addr option) attempt \<times> tcpqueue" where
  "tcp_accept th q =
     (case q_conns q of
        [] \<Rightarrow> if q_shutdown q then (Ret (- EPIPE, None), q)
              else if q_nonblocking q then (Ret (- EAGAIN, None), q)
              else (Blocked, q\<lparr>q_wq := q_wq q @ [th]\<rparr>)
      | i # is \<Rightarrow> (Ret (0, Some i), q\<lparr>q_backlog := q_backlog q + 1, q_conns := is\<rparr>))"

definition tcp_qshutdown_mark :: "tcpqueue \<Rightarrow> tcp_global \<Rightarrow> (tcpqueue \<times> tcp_global) exec" where
  "tcp_qshutdown_mark q g =
     (if q_shutdown q then Inl Bug_on
      else Inr (q\<lparr>q_shutdown := True\<rparr>, g\<lparr>table := trans_table_remove (q_addr q) (table g)\<rparr>))"

text \<open>The threads made ready are the first result.\<close>

definition tcp_qshutdown :: "tcpqueue \<Rightarrow> tcp_global \<Rightarrow> (tid list \<times> tcpqueue \<times> tcp_global) exec" where
  "tcp_qshutdown q g = bind_exec (tcp_qshutdown_mark q g) (\<lambda>(q, g). Inr (q_wq q, q\<lparr>q_wq := []\<rparr>, g))"

text \<open>The results: the connections destroyed, whether the queue itself is freed.\<close>

definition tcp_qclose :: "tcpqueue \<Rightarrow> tcp_global \<Rightarrow> (addr list \<times> bool \<times> tcpqueue \<times> tcp_global) exec" where
  "tcp_qclose q g =
     bind_exec (if q_shutdown q then Inr (q, g) else tcp_qshutdown_mark q g) (\<lambda>(q, g).
       if q_wq q \<noteq> [] then Inl Bug_on
       else let g = g\<lparr>table := fold trans_table_remove (q_conns q) (table g)\<rparr>; (rf, z) = kref_put (q_ref q)
            in Inr (q_conns q, z, q\<lparr>q_conns := [], q_ref := rf\<rparr>, g))"

definition tcpq_set_nonblocking :: "tcpqueue \<Rightarrow> bool \<Rightarrow> tid list \<times> tcpqueue" where
  "tcpq_set_nonblocking q nb =
     (if nb then (q_wq q, q\<lparr>q_nonblocking := nb, q_wq := []\<rparr>) else ([], q\<lparr>q_nonblocking := nb\<rparr>))"

subsection \<open>Dialling\<close>

text \<open>Up to the wait: the SYN is sent. The results are the error and the connection.\<close>

definition tcp_dial_start :: "crc \<Rightarrow> u64 \<Rightarrow> (addr \<times> tcpconn) option \<Rightarrow> u32 \<Rightarrow> netaddr \<Rightarrow> netaddr \<Rightarrow> bool \<Rightarrow> tcp_global \<Rightarrow>
    (int \<times> (addr \<times> tcpconn) option \<times> tcp_global) exec" where
  "tcp_dial_start crc now mem rnd l r nb g =
     (case mem of
        None \<Rightarrow> Inr (- ENOMEM, None, g)
      | Some (i, c) \<Rightarrow>
          (case tcp_conn_alloc (Some c) rnd of
             None \<Rightarrow> Inr (- ENOMEM, None, g)
           | Some c \<Rightarrow>
               let c = c\<lparr>nonblocking := nb\<rparr>;
                   r = (if fst r = LOOPBACK then (netcfg_addr g, snd r) else r);
                   (ret, g, c) = tcp_conn_attach crc now i l r g c
               in if ret \<noteq> 0 then Inr (ret, None, g)
                  else let opts = \<lparr>en_mss = True, en_wscale = True, omss = ucast (rcv_mss (pcb c)), owscale = ucast (rcv_wscale (pcb c))\<rparr>
                       in bind_exec (tcp_tx_ctl now c TCP_SYN (Some opts)) (\<lambda>(ret, c).
                            if ret \<noteq> 0 then (let (g, c) = tcp_conn_destroy i g c in Inr (ret, None, g))
                            else bind_exec (tcp_conn_get c) (\<lambda>c.
                                 bind_exec (tcp_conn_set_state now c SYN_SENT) (\<lambda>c.
                                   Inr (if nb then - EINPROGRESS else 0, Some (i, c), g))))))"

text \<open>A turn of the wait for the connection to be established.\<close>

definition tcp_dial_wait :: "tid \<Rightarrow> addr \<Rightarrow> tcp_global \<Rightarrow> tcpconn \<Rightarrow> int attempt \<times> tcp_global \<times> tcpconn" where
  "tcp_dial_wait th i g c =
     (if \<not> tx_closed c \<and> state (pcb c) < ESTABLISHED then (Blocked, g, c\<lparr>tx_wq := tx_wq c @ [th]\<rparr>)
      else if tx_closed c then (let (g, c') = tcp_conn_destroy i g c in (Ret (- err c), g, c'))
      else (Ret 0, g, c))"

subsection \<open>Reading\<close>

text \<open>
  Taking buffers off the receive queue: the result is the bytes counted, the buffers taken, whether the
  first remaining buffer is read in part, and the connection.
\<close>

fun read_pop :: "tcpconn \<Rightarrow> mbuf list \<Rightarrow> nat \<Rightarrow> nat \<Rightarrow> mbuf list \<Rightarrow> nat \<times> mbuf list \<times> bool \<times> tcpconn" where
  "read_pop c [] len readlen taken = (readlen, taken, False, c\<lparr>rxq := []\<rparr>)"
| "read_pop c (m # q) len readlen taken =
     (if \<not> readlen < len then (readlen, taken, False, c\<lparr>rxq := m # q\<rparr>)
      else let c = (if has (mflags m) TCP_FIN then tcp_conn_shutdown_rx c else c)
           in if has (mflags m) TCP_FIN \<and> mbuf_length m = 0 then (readlen, taken, False, c\<lparr>rxq := m # q\<rparr>)
              else if len - readlen < mbuf_length m then (len, taken, True, c\<lparr>rx_exclusive := True, rxq := m # q\<rparr>)
              else read_pop c q len (readlen + mbuf_length m) (taken @ [m]))"

definition tcp_read_wait :: "tid \<Rightarrow> tcpconn \<Rightarrow> nat \<Rightarrow> ((int \<times> mbuf list \<times> bool) attempt \<times> tcpconn) exec" where
  "tcp_read_wait th c len =
     (if \<not> rx_closed c \<and> (rx_exclusive c \<or> rxq c = [])
      then Inr (if nonblocking c then (Ret (- EAGAIN, [], False), c) else (Blocked, c\<lparr>rx_wq := rx_wq c @ [th]\<rparr>))
      else if rx_closed c then Inr (Ret (- err c, [], False), c)
      else let (readlen, taken, part, c) = read_pop c (rxq c) len 0 [];
               c = upd_pcb (\<lambda>p. p\<lparr>rcv_wnd := rcv_wnd p + of_nat readlen\<rparr>) c;
               do_ack = wraps_gte (rcv_nxt (pcb c) + rcv_wnd (pcb c)) (tx_last_ack c + tx_last_win c + winmax c div 4)
           in bind_exec (if do_ack then bind_exec (tcp_tx_ack c) (\<lambda>(_, c). Inr c) else Inr c) (\<lambda>c.
                Inr (Ret (int readlen, taken, part), c)))"

definition tcp_read_finish :: "tcpconn \<Rightarrow> bool \<Rightarrow> tcpconn" where
  "tcp_read_finish c part =
     (if part then emit_c (map Ready (rx_wq c)) (c\<lparr>rx_exclusive := False, rx_wq := []\<rparr>) else c)"

text \<open>The buffer read in part is still the first of the queue.\<close>

definition read_part :: "tcpconn \<Rightarrow> nat \<Rightarrow> (u8 list \<times> tcpconn) exec" where
  "read_part c n =
     (case rxq c of
        [] \<Rightarrow> Inl Null_deref
      | m # q \<Rightarrow>
          bind_exec (mbuf_pull m n) (\<lambda>(bs, m). Inr (bs, c\<lparr>rxq := m\<lparr>seg_seq := seg_seq m + of_nat n\<rparr> # q\<rparr>)))"

text \<open>The result: the number or the error, and the bytes stored at \<open>buf\<close>.\<close>

definition tcp_read :: "tid \<Rightarrow> tcpconn \<Rightarrow> nat \<Rightarrow> ((int \<times> u8 list) attempt \<times> tcpconn) exec" where
  "tcp_read th c len =
     bind_exec (tcp_read_wait th c len) (\<lambda>(r, c).
       case r of
         Blocked \<Rightarrow> Inr (Blocked, c)
       | Ret (ret, taken, part) \<Rightarrow>
           if ret \<le> 0 then Inr (Ret (ret, []), c)
           else let bs = concat (map mbuf_data taken); c = emit_c (map Release taken) c
                in bind_exec (if part then read_part c (len - length bs) else Inr ([], c)) (\<lambda>(bs', c).
                     Inr (Ret (ret, bs @ bs'), tcp_read_finish c part)))"

text \<open>
  Copying to an I/O vector: the lengths of the vector, the index and the offset in it, and what has been
  stored in each element. The loop copies from one buffer until it is empty, or until the end of the
  vector when a buffer is read in part.
\<close>

definition iov_len :: "nat list \<Rightarrow> nat" where
  "iov_len iov = sum_list iov"

type_synonym iov_state = "nat \<times> nat \<times> u8 list list"

definition iov_copy :: "nat list \<Rightarrow> iov_state \<Rightarrow> mbuf \<Rightarrow> (iov_state \<times> nat \<times> mbuf) exec" where
  "iov_copy iov = (\<lambda>(i, off, out) m.
     if \<not> (i < length iov \<and> off \<le> iov ! i) then Inl Out_of_bounds
     else let n = min (iov ! i - off) (mbuf_length m)
          in bind_exec (mbuf_pull m n) (\<lambda>(bs, m).
               let out = out[i := out ! i @ bs]; off = off + n
               in Inr (if off = iov ! i then (Suc i, 0, out) else (i, off, out), n, m)))"

function readv_buf :: "nat list \<Rightarrow> iov_state \<Rightarrow> mbuf \<Rightarrow> iov_state exec" where
  "readv_buf iov s m =
     (case iov_copy iov s m of
        Inl e \<Rightarrow> Inl e
      | Inr (s, n, m) \<Rightarrow> if fst s \<le> length iov then (if mbuf_length m > 0 then readv_buf iov s m else Inr s) else Inl Bug_on)"
  by pat_completeness auto
termination
proof (relation "measure (\<lambda>(iov, s, m). mlen m + (length iov - fst s))")
  fix iov s m x2 s' p n m'
  assume a: "iov_copy iov s m = Inr x2" "(s', p) = x2" "(n, m') = p" "fst s' \<le> length iov"
  obtain i off out where s: "s = (i, off, out)" by (cases s)
  have i: "i < length iov" "off \<le> iov ! i" using a(1) by (auto simp: iov_copy_def s split: if_splits)
  have "iov_copy iov s m = Inr (s', n, m')" using a(1-3) by simp
  then have "n = min (iov ! i - off) (mlen m)" "mlen m' = mlen m - n" "fst s' = (if off + n = iov ! i then Suc i else i)"
    using i by (auto simp: iov_copy_def s Let_def mbuf_pull_def mbuf_pull_raw_def mbuf_length_def split: if_splits)
  then show "0 < mbuf_length m' \<Longrightarrow> ((iov, s', m'), iov, s, m) \<in> measure (\<lambda>(iov, s, m). mlen m + (length iov - fst s))"
    using i by (auto simp: s mbuf_length_def split: if_splits)
qed simp

declare readv_buf.simps [simp del]

text \<open>
  The loop for the buffer read in part, which asserts that the buffer never becomes empty. It goes on
  until the end of the vector.
\<close>

function readv_part :: "nat list \<Rightarrow> iov_state \<Rightarrow> mbuf \<Rightarrow> (iov_state \<times> mbuf) exec" where
  "readv_part iov s m =
     (case iov_copy iov s m of
        Inl e \<Rightarrow> Inl e
      | Inr (s, n, m) \<Rightarrow>
          let m = m\<lparr>seg_seq := seg_seq m + of_nat n\<rparr>
          in if mbuf_length m = 0 then Inl Bug_on
             else if fst s < length iov then readv_part iov s m else Inr (s, m))"
  by pat_completeness auto
termination
proof (relation "measure (\<lambda>(iov, s, m). mlen m + (length iov - fst s))")
  fix iov s m x2 s' p n m' m''
  assume a: "iov_copy iov s m = Inr x2" "(s', p) = x2" "(n, m') = p" "m'' = m'\<lparr>seg_seq := seg_seq m' + of_nat n\<rparr>"
    "mbuf_length m'' \<noteq> 0" "fst s' < length iov"
  obtain i off out where s: "s = (i, off, out)" by (cases s)
  have i: "i < length iov" "off \<le> iov ! i" using a(1) by (auto simp: iov_copy_def s split: if_splits)
  have "iov_copy iov s m = Inr (s', n, m')" using a(1-3) by simp
  then have "n = min (iov ! i - off) (mlen m)" "mlen m' = mlen m - n" "fst s' = (if off + n = iov ! i then Suc i else i)"
    using i by (auto simp: iov_copy_def s Let_def mbuf_pull_def mbuf_pull_raw_def mbuf_length_def split: if_splits)
  then show "((iov, s', m''), iov, s, m) \<in> measure (\<lambda>(iov, s, m). mlen m + (length iov - fst s))"
    using i a(4,5) by (auto simp: s mbuf_length_def split: if_splits)
qed simp

declare readv_part.simps [simp del]

fun readv_all :: "nat list \<Rightarrow> iov_state \<Rightarrow> mbuf list \<Rightarrow> iov_state exec" where
  "readv_all iov s [] = Inr s"
| "readv_all iov s (m # ms) = bind_exec (readv_buf iov s m) (\<lambda>s. readv_all iov s ms)"

definition tcp_readv :: "tid \<Rightarrow> tcpconn \<Rightarrow> nat list \<Rightarrow> ((int \<times> u8 list list) attempt \<times> tcpconn) exec" where
  "tcp_readv th c iov =
     bind_exec (tcp_read_wait th c (iov_len iov)) (\<lambda>(r, c).
       case r of
         Blocked \<Rightarrow> Inr (Blocked, c)
       | Ret (ret, taken, part) \<Rightarrow>
           if ret \<le> 0 then Inr (Ret (ret, []), c)
           else bind_exec (readv_all iov (0, 0, replicate (length iov) []) taken) (\<lambda>s.
                let c = emit_c (map Release taken) c
                in bind_exec (if part
                     then (case rxq c of
                             [] \<Rightarrow> Inl Null_deref
                           | m # q \<Rightarrow> bind_exec (readv_part iov s m) (\<lambda>(s, m). Inr (s, c\<lparr>rxq := m # q\<rparr>)))
                     else Inr (s, c)) (\<lambda>(s, c). Inr (Ret (ret, snd (snd s)), tcp_read_finish c part))))"

subsection \<open>Writing\<close>

text \<open>The result of the wait: an error, or the size of the open window.\<close>

definition tcp_write_wait :: "u64 \<Rightarrow> tid \<Rightarrow> tcpconn \<Rightarrow> (int \<times> nat) attempt \<times> tcpconn" where
  "tcp_write_wait now th c =
     (if \<not> tx_closed c \<and> (state (pcb c) < ESTABLISHED \<or> tx_exclusive c \<or> tcp_is_snd_full c)
      then let c = (if \<not> zero_wnd c \<and> tcp_is_snd_full c
                    then tcp_timer_update now (c\<lparr>zero_wnd := True, zero_wnd_ts := now\<rparr>) else c)
           in if nonblocking c then (Ret (- EAGAIN, 0), c) else (Blocked, c\<lparr>tx_wq := tx_wq c @ [th]\<rparr>)
      else let c = c\<lparr>zero_wnd := False\<rparr>
           in if tx_closed c then (Ret (if err c \<noteq> 0 then - err c else - EPIPE, 0), c)
              else (Ret (0, unat (snd_una (pcb c) + snd_wnd (pcb c) - snd_nxt (pcb c))),
                    c\<lparr>tx_exclusive := True, acks_delayed_cnt := 0, ack_delayed := False\<rparr>))"

text \<open>The buffers to free are gathered, then what is left for after the lock is done.\<close>

definition write_finish_locked :: "u64 \<Rightarrow> tcpconn \<Rightarrow> mbuf list \<times> mbuf option \<times> tcpconn" where
  "write_finish_locked now c =
     (let (q, c) = tcp_conn_ack (c\<lparr>tx_exclusive := False\<rparr>);
          c = (if rcv_nxt (pcb c) = tx_last_ack c then c\<lparr>ack_delayed := False\<rparr> else c\<lparr>ack_ts := now\<rparr>)
      in if state (pcb c) = CLOSED
         then (q @ txq c @ (case tx_pending c of None \<Rightarrow> [] | Some m \<Rightarrow> [m]), None, c\<lparr>txq := [], tx_pending := None\<rparr>)
         else if do_fast_retransmit c
         then (let c = c\<lparr>do_fast_retransmit := False\<rparr>
               in if fast_retransmit_last_ack c = snd_una (pcb c)
                  then (let (r, c) = tcp_tx_fast_retransmit_start now c in (q, r, c)) else (q, None, c))
         else (q, None, c))"

definition tcp_write_finish :: "u64 \<Rightarrow> tcpconn \<Rightarrow> tcpconn exec" where
  "tcp_write_finish now c =
     bind_exec (assert_that (tx_exclusive c)) (\<lambda>_.
       let (q, r, c) = write_finish_locked now c;
           c = tcp_timer_update now c;
           ws = tx_wq c; c = c\<lparr>tx_wq := []\<rparr>
       in bind_exec (tcp_tx_fast_retransmit_finish c r) (\<lambda>c.
            Inr (c\<lparr>wd := mbuf_list_free q (emit (map Ready ws) (wd c))\<rparr>)))"

definition tcp_write :: "u64 \<Rightarrow> tid \<Rightarrow> tcpconn \<Rightarrow> u8 list \<Rightarrow> (int attempt \<times> tcpconn) exec" where
  "tcp_write now th c buf =
     (case tcp_write_wait now th c of
        (Blocked, c) \<Rightarrow> Inr (Blocked, c)
      | (Ret (ret, winlen), c) \<Rightarrow>
          if ret \<noteq> 0 then Inr (Ret ret, c)
          else bind_exec (tcp_tx_send now c (take winlen buf) True) (\<lambda>(ret, c).
               bind_exec (tcp_write_finish now c) (\<lambda>c. Inr (Ret ret, c))))"

text \<open>The loop over the vector: what is left of it, the window, what was sent and the last result.\<close>

fun writev_loop :: "u64 \<Rightarrow> tcpconn \<Rightarrow> u8 list list \<Rightarrow> nat \<Rightarrow> int \<Rightarrow> int \<Rightarrow> (int \<times> int \<times> tcpconn) exec" where
  "writev_loop now c [] winlen sent ret = Inr (sent, ret, c)"
| "writev_loop now c (v # vs) winlen sent ret =
     (if winlen = 0 then Inr (sent, ret, c)
      else bind_exec (tcp_tx_send now c (take winlen v) (vs = [] \<and> length v \<le> winlen)) (\<lambda>(ret, c).
             if ret \<le> 0 then Inr (sent, ret, c)
             else writev_loop now c vs (winlen - nat ret) (sent + ret) ret))"

definition tcp_writev :: "u64 \<Rightarrow> tid \<Rightarrow> tcpconn \<Rightarrow> u8 list list \<Rightarrow> (int attempt \<times> tcpconn) exec" where
  "tcp_writev now th c iov =
     (case tcp_write_wait now th c of
        (Blocked, c) \<Rightarrow> Inr (Blocked, c)
      | (Ret (ret, winlen), c) \<Rightarrow>
          if ret \<noteq> 0 then Inr (Ret ret, c)
          else bind_exec (writev_loop now c iov winlen 0 0) (\<lambda>(sent, ret, c).
               bind_exec (tcp_write_finish now c) (\<lambda>c. Inr (Ret (if sent > 0 then sent else ret), c))))"

definition tcp_retransmit :: "u64 \<Rightarrow> tid \<Rightarrow> tcpconn \<Rightarrow> (unit attempt \<times> tcpconn) exec" where
  "tcp_retransmit now th c =
     (if tx_exclusive c \<and> state (pcb c) \<noteq> CLOSED then Inr (Blocked, c\<lparr>tx_wq := tx_wq c @ [th]\<rparr>)
      else bind_exec (if state (pcb c) \<noteq> CLOSED
                      then bind_exec (tcp_tx_retransmit now (c\<lparr>tx_exclusive := True\<rparr>)) (tcp_write_finish now)
                      else Inr c) (\<lambda>c. bind_exec (tcp_conn_put c) (\<lambda>c. Inr (Ret (), c))))"

subsection \<open>Shutting down and closing\<close>

definition shutdown_tx_turn :: "u64 \<Rightarrow> tid \<Rightarrow> tcpconn \<Rightarrow> (int attempt \<times> tcpconn) exec" where
  "shutdown_tx_turn now th c =
     (if tx_exclusive c then Inr (Blocked, c\<lparr>tx_wq := tx_wq c @ [th]\<rparr>)
      else bind_exec (tcp_tx_ctl now c (TCP_FIN OR TCP_ACK) None) (\<lambda>(ret, c).
             if ret \<noteq> 0 then Inr (Ret ret, c)
             else bind_exec (if state (pcb c) = ESTABLISHED then tcp_conn_set_state now c FIN_WAIT1
                             else if state (pcb c) = CLOSE_WAIT then tcp_conn_set_state now c LAST_ACK
                             else Inr c) (\<lambda>c. Inr (Ret 0, waitq_release_tx (c\<lparr>tx_closed := True\<rparr>)))))"

text \<open>The checks come before the first turn only.\<close>

definition tcp_conn_shutdown_tx :: "u64 \<Rightarrow> tid \<Rightarrow> tcpconn \<Rightarrow> (int attempt \<times> tcpconn) exec" where
  "tcp_conn_shutdown_tx now th c =
     (if tx_closed c then Inr (Ret 0, c)
      else bind_exec (assert_that (state (pcb c) \<ge> ESTABLISHED)) (\<lambda>_. shutdown_tx_turn now th c))"

definition SHUT_RD :: int where "SHUT_RD = 0"
definition SHUT_WR :: int where "SHUT_WR = 1"
definition SHUT_RDWR :: int where "SHUT_RDWR = 2"

definition tcp_shutdown_rest :: "int \<Rightarrow> int attempt \<Rightarrow> tcpconn \<Rightarrow> int attempt \<times> tcpconn" where
  "tcp_shutdown_rest how r c =
     (case r of
        Blocked \<Rightarrow> (Blocked, c)
      | Ret ret \<Rightarrow>
          if ret \<noteq> 0 then (Ret ret, c)
          else (Ret 0, if how = SHUT_RD \<or> how = SHUT_RDWR then tcp_conn_shutdown_rx c else c))"

definition tcp_shutdown :: "u64 \<Rightarrow> tid \<Rightarrow> tcpconn \<Rightarrow> int \<Rightarrow> (int attempt \<times> tcpconn) exec" where
  "tcp_shutdown now th c how =
     (if how \<noteq> SHUT_RD \<and> how \<noteq> SHUT_WR \<and> how \<noteq> SHUT_RDWR then Inr (Ret (- EINVAL), c)
      else bind_exec (if how = SHUT_WR \<or> how = SHUT_RDWR then tcp_conn_shutdown_tx now th c else Inr (Ret 0, c)) (\<lambda>(r, c).
             Inr (tcp_shutdown_rest how r c)))"

text \<open>A later turn, after the thread was woken.\<close>

definition tcp_shutdown_turn :: "u64 \<Rightarrow> tid \<Rightarrow> tcpconn \<Rightarrow> int \<Rightarrow> (int attempt \<times> tcpconn) exec" where
  "tcp_shutdown_turn now th c how = bind_exec (shutdown_tx_turn now th c) (\<lambda>(r, c). Inr (tcp_shutdown_rest how r c))"

text \<open>Closing the connection at once: up to the wait for a writer, and the turns of the wait.\<close>

definition tcp_abort_start :: "u64 \<Rightarrow> tcpconn \<Rightarrow> (bool \<times> tcpconn) exec" where
  "tcp_abort_start now c =
     (if state (pcb c) = CLOSED then Inr (False, c)
      else bind_exec (tcp_conn_fail now c ECONNABORTED) (\<lambda>c. Inr (True, c)))"

definition tcp_abort_turn :: "tid \<Rightarrow> tcpconn \<Rightarrow> (unit attempt \<times> tcpconn) exec" where
  "tcp_abort_turn th c =
     (if tx_exclusive c then Inr (Blocked, c\<lparr>tx_wq := tx_wq c @ [th]\<rparr>)
      else bind_exec (tcp_tx_raw_rst (laddr c) (raddr c) (snd_nxt (pcb c)) (wd c)) (\<lambda>(_, w). Inr (Ret (), c\<lparr>wd := w\<rparr>)))"

definition tcp_close_rest :: "u64 \<Rightarrow> int attempt \<Rightarrow> tcpconn \<Rightarrow> (unit attempt \<times> tcpconn) exec" where
  "tcp_close_rest now r c =
     (case r of
        Blocked \<Rightarrow> Inr (Blocked, c)
      | Ret ret \<Rightarrow>
          bind_exec (if ret \<noteq> 0 then tcp_conn_fail now c (- ret) else Inr c) (\<lambda>c.
          bind_exec (tcp_conn_put (tcp_conn_shutdown_rx c)) (\<lambda>c. Inr (Ret (), c))))"

definition tcp_close :: "u64 \<Rightarrow> tid \<Rightarrow> tcpconn \<Rightarrow> (unit attempt \<times> tcpconn) exec" where
  "tcp_close now th c =
     (if rx_wq c \<noteq> [] then Inl Bug_on
      else bind_exec (tcp_conn_shutdown_tx now th c) (\<lambda>(r, c). tcp_close_rest now r c))"

definition tcp_close_turn :: "u64 \<Rightarrow> tid \<Rightarrow> tcpconn \<Rightarrow> (unit attempt \<times> tcpconn) exec" where
  "tcp_close_turn now th c = bind_exec (shutdown_tx_turn now th c) (\<lambda>(r, c). tcp_close_rest now r c)"

definition tcp_set_nonblocking :: "tcpconn \<Rightarrow> bool \<Rightarrow> tcpconn" where
  "tcp_set_nonblocking c nb =
     (let c = c\<lparr>nonblocking := nb\<rparr> in if nb then waitq_release_rx (waitq_release_tx c) else c)"

end
