(* ===== verification/Tcp_Read.thy ===== *)
theory Tcp_Read
  imports Tcp_Stream Tcp_Conn
begin

text \<open>
  Reading from a connection (\<open>tcp_read\<close> of \<open>runtime/net/tcp.c\<close>): the bytes that the reader gets are the
  stream of the peer, in order, whatever packets arrive between the reads.
\<close>

subsection \<open>Taking buffers off the queue\<close>

lemma shutdown_rx_same:
  "pcb (tcp_conn_shutdown_rx c) = pcb c" "rxq (tcp_conn_shutdown_rx c) = rxq c" "rxq_ooo (tcp_conn_shutdown_rx c) = rxq_ooo c"
  "rxq_ooo_len (tcp_conn_shutdown_rx c) = rxq_ooo_len c" "tx_same c (tcp_conn_shutdown_rx c)" "err (tcp_conn_shutdown_rx c) = err c"
  by (simp_all add: tcp_conn_shutdown_rx_def waitq_release_rx_def tx_same_def)

text \<open>What taking buffers leaves alone.\<close>

definition pop_same :: "tcpconn \<Rightarrow> tcpconn \<Rightarrow> bool" where
  "pop_same c c' \<longleftrightarrow> pcb c' = pcb c \<and> rxq_ooo c' = rxq_ooo c \<and> rxq_ooo_len c' = rxq_ooo_len c \<and> tx_same c c' \<and> err c' = err c"

lemma pop_same_trans: "pop_same c c' \<Longrightarrow> pop_same c' c'' \<Longrightarrow> pop_same c c''"
  by (auto simp: pop_same_def intro: tx_same_trans)

lemma read_pop_spec:
  assumes "\<forall>m \<in> set q. mbuf_ok m" "readlen \<le> len" "read_pop c q len readlen taken = (n, taken', part, c')"
  shows "\<exists>qs. taken' = taken @ qs \<and> q = qs @ rxq c' \<and> pop_same c c' \<and> n \<le> len \<and>
    (if part then n = len \<and> rxq c' \<noteq> [] \<and> len - (readlen + length (concat (map mbuf_data qs))) < mlen (List.hd (rxq c')) \<and>
       readlen + length (concat (map mbuf_data qs)) \<le> len
     else n = readlen + length (concat (map mbuf_data qs)))"
  using assms
proof (induction c q len readlen taken rule: read_pop.induct)
  case (1 c len readlen taken)
  then show ?case by (auto simp: pop_same_def tx_same_def)
next
  case (2 c m q len readlen taken)
  define c1 where "c1 = (if has (mflags m) TCP_FIN then tcp_conn_shutdown_rx c else c)"
  have s1: "pop_same c c1" by (simp add: c1_def pop_same_def shutdown_rx_same)
  have ok: "mbuf_ok m" "\<forall>m \<in> set q. mbuf_ok m" using 2(2) by auto
  have lm: "length (mbuf_data m) = mbuf_length m" using length_mbuf_data [OF ok(1)] by (simp add: mbuf_length_def)
  consider (full) "\<not> readlen < len" | (fin) "readlen < len" "has (mflags m) TCP_FIN \<and> mbuf_length m = 0"
    | (part) "readlen < len" "\<not> (has (mflags m) TCP_FIN \<and> mbuf_length m = 0)" "len - readlen < mbuf_length m"
    | (go) "readlen < len" "\<not> (has (mflags m) TCP_FIN \<and> mbuf_length m = 0)" "\<not> len - readlen < mbuf_length m" by blast
  then show ?case
  proof cases
    case full
    then show ?thesis using 2(3,4) by (auto simp: pop_same_def tx_same_def)
  next
    case fin
    then have e: "n = readlen" "taken' = taken" "\<not> part" "c' = c1\<lparr>rxq := m # q\<rparr>"
      using 2(4) by (auto simp: Let_def c1_def split: if_splits)
    moreover have "pop_same c (c1\<lparr>rxq := m # q\<rparr>)" using s1 by (simp add: pop_same_def tx_same_def)
    ultimately show ?thesis using fin by auto
  next
    case part
    then have e: "n = len" "taken' = taken" "part" "c' = c1\<lparr>rx_exclusive := True, rxq := m # q\<rparr>"
      using 2(4) by (auto simp: Let_def c1_def split: if_splits)
    moreover have "pop_same c (c1\<lparr>rx_exclusive := True, rxq := m # q\<rparr>)" using s1 by (simp add: pop_same_def tx_same_def)
    ultimately show ?thesis using part by (auto simp: mbuf_length_def)
  next
    case go
    have r: "read_pop c1 q len (readlen + mbuf_length m) (taken @ [m]) = (n, taken', part, c')"
      using 2(4) go by (auto simp: Let_def c1_def split: if_splits)
    have "readlen + mbuf_length m \<le> len" using go by simp
    then obtain qs where qs: "taken' = (taken @ [m]) @ qs" "q = qs @ rxq c'" "pop_same c1 c'" "n \<le> len"
      "if part then n = len \<and> rxq c' \<noteq> [] \<and> len - (readlen + mbuf_length m + length (concat (map mbuf_data qs))) < mlen (List.hd (rxq c')) \<and>
         readlen + mbuf_length m + length (concat (map mbuf_data qs)) \<le> len
       else n = readlen + mbuf_length m + length (concat (map mbuf_data qs))"
      using 2(1) [OF _ c1_def _ _ ok(2) _ r] go by auto
    then show ?thesis
      using pop_same_trans [OF s1 qs(3)] lm by (intro exI [of _ "m # qs"]) (auto simp: add.assoc split: if_splits)
  qed
qed

lemma read_pop_ge: "readlen \<le> len \<Longrightarrow> read_pop c q len readlen taken = (n, taken', part, c') \<Longrightarrow> readlen \<le> n"
proof (induction c q len readlen taken rule: read_pop.induct)
  case (2 c m q len readlen taken)
  show ?case
  proof (cases "readlen < len \<and> \<not> (has (mflags m) TCP_FIN \<and> mbuf_length m = 0) \<and> \<not> len - readlen < mbuf_length m")
    case True
    then have "readlen + mbuf_length m \<le> n" using 2 by (auto simp: Let_def split: if_splits)
    then show ?thesis by simp
  next
    case False
    then show ?thesis using 2(2,3) by (auto simp: Let_def split: if_splits)
  qed
qed simp

lemma read_pop_pos:
  assumes "read_pop c q len 0 [] = (n, taken', part, c')" "q \<noteq> []" "0 < mlen (List.hd q)" "0 < len"
  shows "0 < n"
proof -
  obtain m q' where q: "q = m # q'" "0 < mbuf_length m" using assms(2,3) by (cases q) (auto simp: mbuf_length_def)
  define c1 where "c1 = (if has (mflags m) TCP_FIN then tcp_conn_shutdown_rx c else c)"
  show ?thesis
  proof (cases "len < mbuf_length m")
    case True
    have "read_pop c (m # q') len 0 [] = (len, [], True, c1\<lparr>rx_exclusive := True, rxq := m # q'\<rparr>)"
      unfolding read_pop.simps Let_def c1_def [symmetric] using True assms(4) q(2) by simp
    then have "(len, [], True, c1\<lparr>rx_exclusive := True, rxq := m # q'\<rparr>) = (n, taken', part, c')"
      by (rule trans [OF sym assms(1) [unfolded q(1)]])
    then show ?thesis using assms(4) by simp
  next
    case False
    have "read_pop c (m # q') len 0 [] = read_pop c1 q' len (mbuf_length m) [m]"
      unfolding read_pop.simps Let_def c1_def [symmetric] using False assms(4) q(2) by simp
    then have "read_pop c1 q' len (mbuf_length m) [m] = (n, taken', part, c')"
      by (rule trans [OF sym assms(1) [unfolded q(1)]])
    with False have "mbuf_length m \<le> n" by (intro read_pop_ge [OF leI])
    then show ?thesis using q(2) by simp
  qed
qed

lemma acked_from_refl: "acked_from c c"
  using acked_from_wd [of c "wd c"] by (simp add: world_later_def)

text \<open>When the wait is over, the buffers are taken and the window is opened for them; it may be announced.\<close>

lemma tcp_read_wait_pops:
  assumes p: "read_pop c (rxq c) len 0 [] = (k, taken, part, c1)" and w: "world_ok (wd c1)"
    and o: "\<not> rx_closed c" "\<not> rx_exclusive c" "rxq c \<noteq> []"
  shows "\<exists>c'. tcp_read_wait th c len = Inr (Ret (int k, taken, part), c') \<and>
    acked_from (upd_pcb (\<lambda>p. p\<lparr>rcv_wnd := rcv_wnd p + of_nat k\<rparr>) c1) c'"
proof -
  define c2 where "c2 = upd_pcb (\<lambda>p. p\<lparr>rcv_wnd := rcv_wnd p + of_nat k\<rparr>) c1"
  define ak where "ak = wraps_gte (rcv_nxt (pcb c2) + rcv_wnd (pcb c2)) (tx_last_ack c2 + tx_last_win c2 + winmax c2 div 4)"
  have "world_ok (wd c2)" using w by (simp add: c2_def)
  then obtain rt c3 where k3: "tcp_tx_ack c2 = Inr (rt, c3)" "acked_from c2 c3" using tcp_tx_ack_ok by blast
  have "tcp_read_wait th c len = Inr (Ret (int k, taken, part), if ak then c3 else c2)"
    unfolding tcp_read_wait_def Let_def p prod.case c2_def [symmetric] ak_def [symmetric] using o k3(1) by simp
  then show ?thesis using k3(2) acked_from_refl [of c2] unfolding c2_def [symmetric] by (cases ak) auto
qed

lemma ooo_ok_wider: "ooo_ok st isn L n R ps \<Longrightarrow> R \<le> R' \<Longrightarrow> ooo_ok st isn L n R' ps"
  by (auto simp: ooo_ok_def ooo_seg_def)

text \<open>
  The invariant while bytes are being read: \<open>taken\<close> are off the queue, \<open>k\<close> bytes have been counted, and the
  window is already open for them.
\<close>

definition reading :: "u8 list \<Rightarrow> u32 \<Rightarrow> nat \<Rightarrow> nat \<Rightarrow> nat \<Rightarrow> nat \<Rightarrow> mbuf list \<Rightarrow> tcpconn \<Rightarrow> bool" where
  "reading st isn r n W k taken c \<longleftrightarrow>
     (\<exists>ps. rx_inv st isn (2 ^ 16) r n (r + W + k) ps (c\<lparr>rxq := taken @ rxq c\<rparr>)) \<and> tx_side_ok c \<and> state (pcb c) \<noteq> SYN_SENT \<and>
     fin_seen st n (state (pcb c))"

lemma tcp_read_wait_spec:
  assumes c: "conn_inv st isn r n (r + W) c" and W: "W < 2 ^ 29"
  shows "(\<exists>c'. tcp_read_wait th c len = Inr (Blocked, c') \<and> conn_inv st isn r n (r + W) c' \<and> (rx_exclusive c \<or> rxq c = [])) \<or>
    (\<exists>ret. tcp_read_wait th c len = Inr (Ret (ret, [], False), c) \<and> (rx_closed c \<or> rx_exclusive c \<or> rxq c = [])) \<or>
    (\<exists>k taken part c'. tcp_read_wait th c len = Inr (Ret (int k, taken, part), c') \<and> reading st isn r n W k taken c' \<and>
       (if part then k = len \<and> length (concat (map mbuf_data taken)) \<le> len \<and> rxq c' \<noteq> [] \<and>
          len - length (concat (map mbuf_data taken)) < mlen (List.hd (rxq c'))
        else k = length (concat (map mbuf_data taken))) \<and> k \<le> len \<and> rxq c = taken @ rxq c' \<and>
       (0 < mlen (List.hd (rxq c)) \<and> 0 < len \<longrightarrow> 0 < k))"
proof (cases "rx_closed c \<or> rx_exclusive c \<or> rxq c = []")
  case True
  show ?thesis
  proof (cases "rx_closed c \<or> nonblocking c")
    case True
    then show ?thesis using \<open>rx_closed c \<or> rx_exclusive c \<or> rxq c = []\<close> by (auto simp: tcp_read_wait_def)
  next
    case False
    then have "tcp_read_wait th c len = Inr (Blocked, c\<lparr>rx_wq := rx_wq c @ [th]\<rparr>)"
      using True by (auto simp: tcp_read_wait_def)
    moreover have "conn_inv st isn r n (r + W) (c\<lparr>rx_wq := rx_wq c @ [th]\<rparr>)"
      using c by (simp add: conn_inv_def rx_inv_def tx_side_ok_def)
    ultimately show ?thesis using True False by blast
  qed
next
  case False
  obtain ps where i: "rx_inv st isn (2 ^ 16) r n (r + W) ps c" and t: "tx_side_ok c" and s: "state (pcb c) \<noteq> SYN_SENT"
    "fin_seen st n (state (pcb c))" using c by (auto simp: conn_inv_def)
  obtain k taken part c1 where p: "read_pop c (rxq c) len 0 [] = (k, taken, part, c1)" using prod_cases4 by blast
  have ok: "\<forall>m \<in> set (rxq c). mbuf_ok m" using i by (simp add: rx_inv_def rx_data_def)
  have q: "rxq c = taken @ rxq c1" "pop_same c c1" "k \<le> len"
    "if part then k = len \<and> rxq c1 \<noteq> [] \<and> len - length (concat (map mbuf_data taken)) < mlen (List.hd (rxq c1)) \<and>
       length (concat (map mbuf_data taken)) \<le> len
     else k = length (concat (map mbuf_data taken))"
    using read_pop_spec [OF ok _ p] by auto
  define c2 where "c2 = upd_pcb (\<lambda>p. p\<lparr>rcv_wnd := rcv_wnd p + of_nat k\<rparr>) c1"
  have kn: "k \<le> length (concat (map mbuf_data (rxq c)))"
  proof (cases part)
    case True
    then have h: "rxq c1 = List.hd (rxq c1) # tl (rxq c1)" "k = len" using q(4) by auto
    have "mbuf_ok (List.hd (rxq c1))" using ok q(1) h(1) by (metis in_set_conv_decomp)
    then have "length (concat (map mbuf_data (rxq c1))) \<ge> mlen (List.hd (rxq c1))"
      by (subst h(1)) (simp add: length_mbuf_data)
    moreover have "len - length (concat (map mbuf_data taken)) < mlen (List.hd (rxq c1))" using q(4) True by simp
    ultimately have "len \<le> length (concat (map mbuf_data taken)) + length (concat (map mbuf_data (rxq c1)))" by linarith
    then show ?thesis unfolding q(1) h(2) by simp
  qed (use q(1,4) in simp)
  have data: "concat (map mbuf_data (rxq c)) = drop r (take n st)" "r \<le> n" "r \<le> length st" "n \<le> r + W"
    using i by (auto simp: rx_inv_def rx_data_def window_ok_def)
  have le: "r + k \<le> n" using kn data by simp
  have w: "window_ok (2 ^ 16) n (r + W + k)" using le W data(4) by (simp add: window_ok_def)
  have wn: "(of_nat (r + W - n) :: u32) + of_nat k = of_nat (r + W + k - n)" using data(4) by (simp add: of_nat_diff)
  have e2: "rcv_wnd (pcb c2) = rcv_wnd (pcb c) + of_nat k" "rcv_nxt (pcb c2) = rcv_nxt (pcb c)" "rxq_ooo c2 = rxq_ooo c"
    "rxq_ooo_len c2 = rxq_ooo_len c" "rxq c2 = rxq c1" "state (pcb c2) = state (pcb c)" "tx_same c c2" "err c2 = err c"
    using q(2) by (simp_all add: c2_def pop_same_def tx_same_def)
  have i2: "rx_inv st isn (2 ^ 16) r n (r + W + k) ps (c2\<lparr>rxq := taken @ rxq c2\<rparr>)"
  proof -
    have f: "rcv_nxt (pcb c) = seq_of isn n" "rcv_wnd (pcb c) = of_nat (r + W - n)" "ooo_ok st isn (2 ^ 16) n (r + W) ps" "rxq_ooo c = map snd ps"
      "rxq_ooo_len c = of_nat (length ps)" "length ps \<le> 2048" "rx_data st r n (rxq c)"
      using i by (auto simp: rx_inv_def)
    have o: "ooo_ok st isn (2 ^ 16) n (r + W + k) ps" by (rule ooo_ok_wider [OF f(3)]) simp
    have "rxq c = taken @ rxq c2" using q(1) e2(5) by simp
    then show ?thesis
      unfolding rx_inv_def using w o f data(2,3) wn e2(1-4) by simp
  qed
  have t2: "tx_side_ok c2" by (rule tx_side_ok_same [OF t e2(7)])
  then have "world_ok (wd c1)" by (simp add: tx_side_ok_def c2_def)
  then obtain c4 where e: "tcp_read_wait th c len = Inr (Ret (int k, taken, part), c4)" and "acked_from c2 c4"
    using tcp_read_wait_pops [OF p] False unfolding c2_def by blast
  then have a4: "all_same c2 c4" using acked_from_same by blast
  have r4: "rxq c4 = rxq c1" using a4 e2(5) by (simp add: all_same_def rx_same_def)
  have "rx_same (c2\<lparr>rxq := taken @ rxq c2\<rparr>) (c4\<lparr>rxq := taken @ rxq c4\<rparr>)" using a4 by (simp add: all_same_def rx_same_def)
  then have g: "reading st isn r n W k taken c4"
    unfolding reading_def using rx_inv_same [OF i2] tx_side_ok_same [OF t2] a4 s e2(6) by (auto simp: all_same_def)
  have pos: "0 < mlen (List.hd (rxq c)) \<and> 0 < len \<longrightarrow> 0 < k" using read_pop_pos [OF p] False by blast
  have q4: "if part then k = len \<and> length (concat (map mbuf_data taken)) \<le> len \<and> rxq c4 \<noteq> [] \<and>
          len - length (concat (map mbuf_data taken)) < mlen (List.hd (rxq c4))
        else k = length (concat (map mbuf_data taken))" using q(4) unfolding r4 by (cases part) simp_all
  have q1: "rxq c = taken @ rxq c4" using q(1) unfolding r4 .
  show ?thesis by (intro disjI2 exI conjI) (rule e g q4 q(3) q1 pos)+
qed

text \<open>The end of a read: the bytes handed out are the next ones of the stream.\<close>

lemma reading_done:
  assumes i: "reading st isn r n W (length bs) taken c" and b: "bs @ concat (map mbuf_data q) = concat (map mbuf_data (taken @ rxq c))"
    and q: "\<forall>m \<in> set q. mbuf_ok m" and c': "c' = c\<lparr>rxq := q\<rparr>"
  shows "bs = take (length bs) (drop r st) \<and> conn_inv st isn (r + length bs) n (r + length bs + W) c'"
proof -
  obtain ps where p: "rx_inv st isn (2 ^ 16) r n (r + W + length bs) ps (c\<lparr>rxq := taken @ rxq c\<rparr>)"
    and t: "tx_side_ok c" "state (pcb c) \<noteq> SYN_SENT" "fin_seen st n (state (pcb c))" using i by (auto simp: reading_def)
  have d: "concat (map mbuf_data (taken @ rxq c)) = drop r (take n st)" "r \<le> n" "r \<le> length st"
    using p by (auto simp: rx_inv_def rx_data_def)
  have e: "bs @ concat (map mbuf_data q) = drop r (take n st)" using b d(1) by simp
  then have l: "length bs + length (concat (map mbuf_data q)) = min (length st) n - r"
    by (metis length_append length_drop length_take)
  have k: "r + length bs \<le> n" "r + length bs \<le> length st" using l d(2,3) by linarith+
  have "bs = take (length bs) (drop r (take n st))" using arg_cong [OF e, of "take (length bs)"] by simp
  also have "\<dots> = take (length bs) (drop r st)" using k by (simp add: drop_take min_def)
  finally have s: "bs = take (length bs) (drop r st)" .
  have "concat (map mbuf_data q) = drop (length bs) (drop r (take n st))" using arg_cong [OF e, of "drop (length bs)"] by simp
  then have "concat (map mbuf_data q) = drop (r + length bs) (take n st)" by (simp add: add.commute)
  then have "rx_data st (r + length bs) n q" using q by (simp add: rx_data_def)
  then have "rx_inv st isn (2 ^ 16) (r + length bs) n (r + length bs + W) ps c'"
    using p k unfolding rx_inv_def c' by (simp add: ac_simps)
  then have "conn_inv st isn (r + length bs) n (r + length bs + W) c'"
    using t unfolding conn_inv_def c' by (auto simp: tx_side_ok_def)
  then show ?thesis using s by blast
qed

lemma conn_inv_same:
  "conn_inv st isn r n R c \<Longrightarrow> rx_same c c' \<Longrightarrow> tx_same c c' \<Longrightarrow> state (pcb c') = state (pcb c) \<Longrightarrow> conn_inv st isn r n R c'"
  unfolding conn_inv_def using rx_inv_same tx_side_ok_same by metis

lemma tcp_read_finish_same:
  "rx_same c (tcp_read_finish c part)" "tx_same c (tcp_read_finish c part)" "pcb (tcp_read_finish c part) = pcb c"
  by (simp_all add: tcp_read_finish_def rx_same_def tx_same_def)

definition read_result :: "u8 list \<Rightarrow> u32 \<Rightarrow> nat \<Rightarrow> nat \<Rightarrow> nat \<Rightarrow> nat \<Rightarrow> (int \<times> u8 list) attempt \<Rightarrow> tcpconn \<Rightarrow> bool" where
  "read_result st isn r n W len res c \<longleftrightarrow>
     (case res of
        Blocked \<Rightarrow> conn_inv st isn r n (r + W) c
      | Ret (ret, bs) \<Rightarrow> (bs \<noteq> [] \<longrightarrow> ret = int (length bs)) \<and> length bs \<le> len \<and> bs = take (length bs) (drop r st) \<and>
          conn_inv st isn (r + length bs) n (r + length bs + W) c)"

lemma read_taken:
  assumes w: "tcp_read_wait th c len = Inr (Ret (int k, taken, part), c')" and i: "reading st isn r n W k taken c'"
    and p: "if part then k = len \<and> length (concat (map mbuf_data taken)) \<le> len \<and> rxq c' \<noteq> [] \<and>
          len - length (concat (map mbuf_data taken)) < mlen (List.hd (rxq c'))
        else k = length (concat (map mbuf_data taken))" and k: "k \<le> len" and q: "rxq c = taken @ rxq c'"
    and pos: "0 < mlen (List.hd (rxq c)) \<and> 0 < len \<longrightarrow> 0 < k"
  shows "\<exists>res c'. tcp_read th c len = Inr (res, c') \<and> read_result st isn r n W len res c' \<and>
    (\<not> rx_closed c \<and> \<not> rx_exclusive c \<and> rxq c \<noteq> [] \<and> 0 < mlen (List.hd (rxq c)) \<and> 0 < len \<longrightarrow> (\<exists>ret bs. res = Ret (ret, bs) \<and> bs \<noteq> []))"
proof -
  define t where "t = concat (map mbuf_data taken)"
  have ok: "\<forall>m \<in> set (taken @ rxq c'). mbuf_ok m" using i by (auto simp: reading_def rx_inv_def rx_data_def)
  define c1 where "c1 = emit_c (map Release taken) c'"
  have i1: "reading st isn r n W k taken c1"
    using i by (auto simp: reading_def c1_def rx_inv_def tx_side_ok_def intro: world_ok_later seg_ready_later)
  show ?thesis
  proof (cases "part \<and> 0 < k")
    case False
    define c2 where "c2 = (if k = 0 then c' else tcp_read_finish c1 part)"
    have np: "k = length t" using p False by (auto simp: t_def split: if_splits)
    have "k = 0 \<or> \<not> part" using False by auto
    then have e: "tcp_read th c len = Inr (Ret (int k, if k = 0 then [] else t), c2)"
      using w by (auto simp: tcp_read_def t_def c2_def c1_def tcp_read_finish_def)
    have bs: "(if k = 0 then [] else t) = t" using np by simp
    have d: "t @ concat (map mbuf_data (rxq c1)) = concat (map mbuf_data (taken @ rxq c1))" by (simp add: t_def)
    have c1q: "c1 = c1\<lparr>rxq := rxq c1\<rparr>" "\<forall>m \<in> set (rxq c1). mbuf_ok m" using ok by (simp_all add: c1_def)
    have r: "t = take (length t) (drop r st)" "conn_inv st isn (r + length t) n (r + length t + W) c1"
      using reading_done [OF i1 [unfolded np] d c1q(2,1)] by auto
    have "rx_same c1 c2" "tx_same c1 c2" "state (pcb c2) = state (pcb c1)"
      using tcp_read_finish_same [of c1 part] by (simp_all add: c2_def c1_def rx_same_def tx_same_def world_later_def emit_def)
    then have "conn_inv st isn (r + length t) n (r + length t + W) c2" using conn_inv_same [OF r(2)] by blast
    then have rr: "read_result st isn r n W len (Ret (int k, t)) c2"
      using r(1) np k by (simp add: read_result_def)
    have "tcp_read th c len = Inr (Ret (int k, t), c2)" using e bs by simp
    moreover have "0 < mlen (List.hd (rxq c)) \<and> 0 < len \<longrightarrow> t \<noteq> []" using pos np by auto
    ultimately show ?thesis using rr by blast
  next
    case True
    then have pt: "k = len" "length t \<le> len" "rxq c' \<noteq> []" "len - length t < mlen (List.hd (rxq c'))" using p by (auto simp: t_def)
    obtain m q' where m: "rxq c' = m # q'" using pt(3) by (cases "rxq c'") auto
    define z where "z = len - length t"
    have "mbuf_ok m" "z \<le> mlen m" using ok m pt(4) by (simp_all add: z_def)
    then obtain m1 where m1: "mbuf_pull m z = Inr (take z (mbuf_data m), m1)" "mbuf_ok m1" "mbuf_data m1 = drop z (mbuf_data m)"
      using mbuf_pull_data by blast
    define m2 where "m2 = m1\<lparr>seg_seq := seg_seq m1 + of_nat z\<rparr>"
    define bs where "bs = t @ take z (mbuf_data m)"
    have lb: "length bs = k" using pt(1,2,4) m length_mbuf_data [OF \<open>mbuf_ok m\<close>] by (simp add: bs_def z_def)
    define c2 where "c2 = c1\<lparr>rxq := m2 # q'\<rparr>"
    have "read_part c1 z = Inr (take z (mbuf_data m), c2)" using m m1(1) by (simp add: read_part_def c1_def c2_def m2_def)
    then have e: "tcp_read th c len = Inr (Ret (int k, bs), tcp_read_finish c2 part)"
      using w True unfolding tcp_read_def by (simp add: c1_def [symmetric] t_def [symmetric] z_def [symmetric] bs_def)
    have "mbuf_data m2 = drop z (mbuf_data m)" using m1(3) by (simp add: m2_def mbuf_data_def)
    then have d: "bs @ concat (map mbuf_data (m2 # q')) = concat (map mbuf_data (taken @ rxq c1))"
      using m by (simp add: bs_def t_def c1_def)
    have o2: "\<forall>m \<in> set (m2 # q'). mbuf_ok m" using ok m m1(2) by (simp add: m2_def)
    have r: "bs = take (length bs) (drop r st)" "conn_inv st isn (r + length bs) n (r + length bs + W) c2"
      using reading_done [OF i1 [folded lb] d o2 c2_def] by auto
    have "conn_inv st isn (r + length bs) n (r + length bs + W) (tcp_read_finish c2 part)"
      using conn_inv_same [OF r(2) tcp_read_finish_same(1,2)] tcp_read_finish_same(3) by simp
    then have "read_result st isn r n W len (Ret (int k, bs)) (tcp_read_finish c2 part)"
      using r(1) lb k by (simp add: read_result_def)
    moreover have "bs \<noteq> []" using lb True by auto
    ultimately show ?thesis using e by blast
  qed
qed

lemma tcp_read_spec:
  assumes c: "conn_inv st isn r n (r + W) c" and W: "W < 2 ^ 29"
  shows "\<exists>res c'. tcp_read th c len = Inr (res, c') \<and> read_result st isn r n W len res c' \<and>
    (\<not> rx_closed c \<and> \<not> rx_exclusive c \<and> rxq c \<noteq> [] \<and> 0 < mlen (List.hd (rxq c)) \<and> 0 < len \<longrightarrow> (\<exists>ret bs. res = Ret (ret, bs) \<and> bs \<noteq> []))"
proof -
  consider (b) c' where "tcp_read_wait th c len = Inr (Blocked, c')" "conn_inv st isn r n (r + W) c'" "rx_exclusive c \<or> rxq c = []"
    | (e) ret where "tcp_read_wait th c len = Inr (Ret (ret, [], False), c)" "rx_closed c \<or> rx_exclusive c \<or> rxq c = []"
    | (k) k taken part c' where "tcp_read_wait th c len = Inr (Ret (int k, taken, part), c')" "reading st isn r n W k taken c'"
      "if part then k = len \<and> length (concat (map mbuf_data taken)) \<le> len \<and> rxq c' \<noteq> [] \<and>
          len - length (concat (map mbuf_data taken)) < mlen (List.hd (rxq c'))
        else k = length (concat (map mbuf_data taken))" "k \<le> len" "rxq c = taken @ rxq c'"
      "0 < mlen (List.hd (rxq c)) \<and> 0 < len \<longrightarrow> 0 < k"
    using tcp_read_wait_spec [OF c W, of th len] by blast
  then show ?thesis
  proof cases
    case b
    then show ?thesis by (auto simp: tcp_read_def read_result_def)
  next
    case e
    have "tcp_read th c len = Inr (Ret (ret, []), c)" using e(1) by (simp add: tcp_read_def tcp_read_finish_def)
    then show ?thesis using e(2) c by (auto simp: read_result_def)
  next
    case k
    then show ?thesis by (rule read_taken)
  qed
qed

subsection \<open>A session\<close>

text \<open>
  What the peer may send when the reader has got \<open>got\<close>, in a window of \<open>W\<close> bytes: a packet with a part of
  the stream at most \<open>2 ^ 30\<close> away from the bytes received so far, whose FIN is not beyond the window, and that
  does not reset the connection.
\<close>

definition received :: "u8 list \<Rightarrow> tcpconn \<Rightarrow> nat" where
  "received got c = length got + length (concat (map mbuf_data (rxq c)))"

definition sent_by_peer :: "u8 list \<Rightarrow> u32 \<Rightarrow> nat \<Rightarrow> u8 list \<Rightarrow> tcpconn \<Rightarrow> mbuf \<Rightarrow> bool" where
  "sent_by_peer st isn W got c m \<longleftrightarrow> from_ip m \<and> \<not> pkt_has m TCP_RST \<and> \<not> pkt_has m TCP_SYN \<and>
     (well_formed m \<longrightarrow>
       (\<exists>a. hseq (pkt_hdr m) = seq_of isn a \<and> pkt_text m = take (length (pkt_text m)) (drop a st) \<and>
          a + length (pkt_text m) \<le> length st \<and> a < received got c + 2 ^ 30 \<and> received got c + 1 < a + 2 ^ 30 \<and>
          (pkt_has m TCP_FIN \<longrightarrow> a + length (pkt_text m) = length st \<and> length st + 1 \<le> length got + W)))"

text \<open>Packets of the peer and reads in any order; the first argument is what the reader has got.\<close>

inductive session :: "u8 list \<Rightarrow> u32 \<Rightarrow> nat \<Rightarrow> tcpconn \<Rightarrow> u8 list \<Rightarrow> tcpconn \<Rightarrow> bool"
  for st :: "u8 list" and isn :: u32 and W :: nat and c0 :: tcpconn where
  session_start: "session st isn W c0 [] c0"
| session_packet: "session st isn W c0 got c \<Longrightarrow> sent_by_peer st isn W got c m \<Longrightarrow> tcp_rx_conn now c m = Some (Inr c') \<Longrightarrow>
    session st isn W c0 got c'"
| session_blocked: "session st isn W c0 got c \<Longrightarrow> tcp_read th c len = Inr (Blocked, c') \<Longrightarrow> session st isn W c0 got c'"
| session_read: "session st isn W c0 got c \<Longrightarrow> tcp_read th c len = Inr (Ret (ret, bs), c') \<Longrightarrow> session st isn W c0 (got @ bs) c'"

lemma conn_inv_received:
  assumes "conn_inv st isn (length got) n R c"
  shows "received got c \<le> n" "n \<le> received got c + 1"
proof -
  have "concat (map mbuf_data (rxq c)) = drop (length got) (take n st)" "length got \<le> n" "length got \<le> length st" "n \<le> length st + 1"
    using assms by (auto simp: conn_inv_def rx_inv_def rx_data_def fin_seen_def)
  then have "received got c = min (length st) n" "n \<le> length st + 1" by (simp_all add: received_def)
  then show "received got c \<le> n" "n \<le> received got c + 1" by auto
qed

lemma sent_by_peer_packet:
  assumes "sent_by_peer st isn W got c m" "conn_inv st isn (length got) n (length got + W) c"
  shows "\<exists>a. packet_of st isn n (length got + W) a m"
proof (cases "well_formed m")
  case True
  then obtain a where a: "hseq (pkt_hdr m) = seq_of isn a" "pkt_text m = take (length (pkt_text m)) (drop a st)"
    "a + length (pkt_text m) \<le> length st" "a < received got c + 2 ^ 30" "received got c + 1 < a + 2 ^ 30"
    "pkt_has m TCP_FIN \<longrightarrow> a + length (pkt_text m) = length st \<and> length st + 1 \<le> length got + W"
    using assms(1) unfolding sent_by_peer_def by blast
  have "a < n + 2 ^ 30" "n < a + 2 ^ 30" using a(4,5) conn_inv_received [OF assms(2)] by linarith+
  then have "packet_of st isn n (length got + W) a m"
    using a assms(1) unfolding packet_of_def sent_by_peer_def by blast
  then show ?thesis ..
next
  case False
  then show ?thesis using assms(1) by (auto simp: packet_of_def sent_by_peer_def)
qed

lemma session_inv:
  assumes "session st isn W c0 got c" "conn_inv st isn 0 0 W c0" "W < 2 ^ 29"
  shows "got = take (length got) st \<and> (\<exists>n. conn_inv st isn (length got) n (length got + W) c)"
  using assms
proof (induction rule: session.induct)
  case session_start
  then show ?case by auto
next
  case (session_packet got c m now c')
  then obtain n where g: "got = take (length got) st" and n: "conn_inv st isn (length got) n (length got + W) c" by blast
  obtain a where a: "packet_of st isn n (length got + W) a m" using sent_by_peer_packet [OF session_packet(2) n] ..
  have "\<not> (pkt_has m TCP_RST \<or> pkt_has m TCP_SYN)" using session_packet(2) by (simp add: sent_by_peer_def)
  then obtain n' where "conn_inv st isn (length got) n' (length got + W) c'"
    using tcp_rx_conn_keeps [OF n a, of now] session_packet(3) by auto
  then show ?case using g by blast
next
  case (session_blocked got c th len c')
  then obtain n where g: "got = take (length got) st" and n: "conn_inv st isn (length got) n (length got + W) c" by blast
  have "read_result st isn (length got) n W len Blocked c'"
    using tcp_read_spec [OF n \<open>W < 2 ^ 29\<close>, of th len] session_blocked(2) by auto
  then show ?case using g by (auto simp: read_result_def)
next
  case (session_read got c th len ret bs c')
  then obtain n where g: "got = take (length got) st" and n: "conn_inv st isn (length got) n (length got + W) c" by blast
  have "read_result st isn (length got) n W len (Ret (ret, bs)) c'"
    using tcp_read_spec [OF n \<open>W < 2 ^ 29\<close>, of th len] session_read(2) by auto
  then have r: "bs = take (length bs) (drop (length got) st)"
    "conn_inv st isn (length got + length bs) n (length got + length bs + W) c'" by (simp_all add: read_result_def)
  have "got @ bs = take (length got) st @ take (length bs) (drop (length got) st)" using g r(1) by simp
  then have "got @ bs = take (length (got @ bs)) st" unfolding length_append take_add .
  then show ?case using r(2) unfolding length_append by blast
qed

text \<open>
  C1. Whatever packets the peer sends in whatever order, lost, duplicated or overlapping, and however the reads are
  placed between them, the bytes that the reads have returned, followed by those in the receive queue, are
  the beginning of the stream of the peer. At every point the next packet and the next read
  are processed without a fault, a read returns at most as many bytes as asked, and it returns some if the reader is open
  and the first buffer has data.
\<close>

theorem tcp_session_stream:
  assumes s: "session st isn W c0 got c" and c: "conn_inv st isn 0 0 W c0" and W: "W < 2 ^ 29"
  shows "got @ concat (map mbuf_data (rxq c)) = take (received got c) st \<and>
    (\<forall>now m. sent_by_peer st isn W got c m \<longrightarrow> (\<exists>c'. tcp_rx_conn now c m = Some (Inr c'))) \<and>
    (\<forall>th len. \<exists>res c'. tcp_read th c len = Inr (res, c') \<and>
       (\<forall>ret bs. res = Ret (ret, bs) \<longrightarrow> length bs \<le> len \<and> (bs \<noteq> [] \<longrightarrow> ret = int (length bs))) \<and>
       (\<not> rx_closed c \<and> \<not> rx_exclusive c \<and> rxq c \<noteq> [] \<and> 0 < mlen (List.hd (rxq c)) \<and> 0 < len \<longrightarrow>
          (\<exists>ret bs. res = Ret (ret, bs) \<and> bs \<noteq> [])))"
proof (intro conjI allI impI)
  obtain n where g: "got = take (length got) st" and n: "conn_inv st isn (length got) n (length got + W) c"
    using session_inv [OF s c W] by blast
  have d: "concat (map mbuf_data (rxq c)) = drop (length got) (take n st)" "length got \<le> n" "length got \<le> length st"
    using n by (auto simp: conn_inv_def rx_inv_def rx_data_def)
  have "take (received got c) st = take n st" using d by (simp add: received_def min_def)
  moreover have "got @ drop (length got) (take n st) = take n st" using g d(2) by (metis append_take_drop_id min.absorb1 take_take)
  ultimately show "got @ concat (map mbuf_data (rxq c)) = take (received got c) st" using d(1) by simp
  show "\<exists>c'. tcp_rx_conn now c m = Some (Inr c')" if m: "sent_by_peer st isn W got c m" for now m
    using sent_by_peer_packet [OF m n] tcp_rx_conn_keeps [OF n] by blast
  show "\<exists>res c'. tcp_read th c len = Inr (res, c') \<and>
      (\<forall>ret bs. res = Ret (ret, bs) \<longrightarrow> length bs \<le> len \<and> (bs \<noteq> [] \<longrightarrow> ret = int (length bs))) \<and>
      (\<not> rx_closed c \<and> \<not> rx_exclusive c \<and> rxq c \<noteq> [] \<and> 0 < mlen (List.hd (rxq c)) \<and> 0 < len \<longrightarrow>
         (\<exists>ret bs. res = Ret (ret, bs) \<and> bs \<noteq> []))" for th len
  proof -
    obtain res c' where r: "tcp_read th c len = Inr (res, c')" "read_result st isn (length got) n W len res c'"
      "\<not> rx_closed c \<and> \<not> rx_exclusive c \<and> rxq c \<noteq> [] \<and> 0 < mlen (List.hd (rxq c)) \<and> 0 < len \<longrightarrow> (\<exists>ret bs. res = Ret (ret, bs) \<and> bs \<noteq> [])"
      using tcp_read_spec [OF n W, of th len] by blast
    have "\<forall>ret bs. res = Ret (ret, bs) \<longrightarrow> length bs \<le> len \<and> (bs \<noteq> [] \<longrightarrow> ret = int (length bs))"
      using r(2) by (auto simp: read_result_def)
    then show ?thesis using r(1,3) by blast
  qed
qed

theorem tcp_session_stream_witness:
  "\<exists>c1 res c2. tcp_rx_conn 0 (example_conn []) example_packet = Some (Inr c1) \<and>
     session [7, 8, 9] 0xFFFFFFFF 2 (example_conn []) [] c1 \<and>
     concat (map mbuf_data (rxq c1)) = take (received [] c1) [7, 8, 9] \<and> tcp_read 1 c1 8 = Inr (res, c2)"
proof -
  define c0 where "c0 = example_conn []"
  have c: "conn_inv [7, 8, 9] 0xFFFFFFFF 0 0 2 c0" unfolding c0_def by (rule example_conn_inv)
  have W: "(2 :: nat) < 2 ^ 29" by simp
  have s0: "session [7, 8, 9] 0xFFFFFFFF 2 c0 [] c0" by (rule session_start)
  have p: "sent_by_peer [7, 8, 9] 0xFFFFFFFF 2 [] c0 example_packet"
    unfolding sent_by_peer_def example_packet_text
    using example_packet_from_ip example_packet_flags
    by (auto simp: example_packet_fields seq_of_def received_def c0_def example_conn_def intro!: exI [of _ "0 :: nat"])
  obtain c1 where c1: "tcp_rx_conn 0 c0 example_packet = Some (Inr c1)"
    using tcp_session_stream [OF s0 c W] p by blast
  have s1: "session [7, 8, 9] 0xFFFFFFFF 2 c0 [] c1" by (rule session_packet [OF s0 p c1])
  have "[] @ concat (map mbuf_data (rxq c1)) = take (received [] c1) [7, 8, 9]" "\<exists>res c2. tcp_read 1 c1 8 = Inr (res, c2)"
    using tcp_session_stream [OF s1 c W] by blast+
  then show ?thesis using c1 s1 unfolding c0_def by auto
qed

subsection \<open>A read that stops inside the last buffer\<close>

lemma tcp_read_fin_part:
  assumes w: "world_ok (wd c)" and q: "rxq c = m # q" "mbuf_ok m" "has (mflags m) TCP_FIN" "0 < len" "len < mlen m"
    and o: "\<not> rx_closed c" "\<not> rx_exclusive c"
  shows "\<exists>c' m'. tcp_read th c len = Inr (Ret (int len, take len (mbuf_data m)), c') \<and> rx_closed c' \<and> err c' = err c \<and>
    rxq c' = m' # q \<and> mbuf_data m' = drop len (mbuf_data m)"
proof -
  define c1 where "c1 = (tcp_conn_shutdown_rx c)\<lparr>rx_exclusive := True, rxq := m # q\<rparr>"
  have p: "read_pop c (m # q) len 0 [] = (len, [], True, c1)"
    using q by (simp add: c1_def mbuf_length_def)
  have f1: "rxq c1 = m # q" "rx_closed c1" "err c1 = err c" "world_ok (wd c1)"
    using w o(1) by (auto simp: c1_def tcp_conn_shutdown_rx_def waitq_release_rx_def intro: world_ok_later)
  obtain c4 where e: "tcp_read_wait th c len = Inr (Ret (int len, [], True), c4)"
    and k: "acked_from (upd_pcb (\<lambda>p. p\<lparr>rcv_wnd := rcv_wnd p + of_nat len\<rparr>) c1) c4"
    using tcp_read_wait_pops [OF _ f1(4), of c len len "[]" True th] p q(1) o by auto
  have f4: "rxq c4 = m # q" "rx_closed c4" "err c4 = err c" using f1 k by (auto simp: acked_from_def)
  obtain m1 where m1: "mbuf_pull m len = Inr (take len (mbuf_data m), m1)" "mbuf_data m1 = drop len (mbuf_data m)"
    using mbuf_pull_data [OF q(2), of len] q(5) by auto
  define m2 where "m2 = m1\<lparr>seg_seq := seg_seq m1 + of_nat len\<rparr>"
  have "tcp_read th c len = Inr (Ret (int len, take len (mbuf_data m)), tcp_read_finish (c4\<lparr>rxq := m2 # q\<rparr>) True)"
    using e q(4) f4(1) m1(1) by (simp add: tcp_read_def read_part_def m2_def)
  moreover have "mbuf_data m2 = drop len (mbuf_data m)" using m1(2) by (simp add: m2_def mbuf_data_def)
  ultimately show ?thesis using f4 by (auto simp: tcp_read_finish_def)
qed

text \<open>
  C39. When the last segment of the stream carries the FIN and a read asks for fewer bytes than it
  has, the reader is closed although the rest of the segment is still queued. Every later read returns 0 at once, which means
  the end of the stream, so the rest is lost.
\<close>

theorem tcp_fin_partial_read:
  assumes w: "world_ok (wd c)" and q: "rxq c = m # q" "mbuf_ok m" "has (mflags m) TCP_FIN" "0 < len" "len < mlen m"
    and o: "\<not> rx_closed c" "\<not> rx_exclusive c" "err c = 0"
  shows "\<exists>c'. tcp_read th c len = Inr (Ret (int len, take len (mbuf_data m)), c') \<and>
    concat (map mbuf_data (rxq c')) = drop len (mbuf_data m) @ concat (map mbuf_data q) \<and> drop len (mbuf_data m) \<noteq> [] \<and>
    (\<forall>th' len'. tcp_read th' c' len' = Inr (Ret (0, []), c'))"
proof -
  obtain c' m' where c': "tcp_read th c len = Inr (Ret (int len, take len (mbuf_data m)), c')" "rx_closed c'" "err c' = 0"
    "rxq c' = m' # q" "mbuf_data m' = drop len (mbuf_data m)"
    using tcp_read_fin_part [OF w q o(1,2), of th] o(3) by auto
  have "drop len (mbuf_data m) \<noteq> []" using length_mbuf_data [OF q(2)] q(5) by simp
  moreover have "tcp_read th' c' len' = Inr (Ret (0, []), c')" for th' len'
    using c'(2,3) by (simp add: tcp_read_def tcp_read_wait_def)
  ultimately show ?thesis using c'(1,4,5) by auto
qed

text \<open>A connection whose receive queue is one segment of two bytes with the FIN.\<close>

theorem tcp_fin_partial_read_witness:
  "\<exists>c'. tcp_read 1 ((example_conn [])\<lparr>rxq := [example_packet\<lparr>mflags := TCP_FIN, doff := 40, mlen := 2\<rparr>]\<rparr>) 1 = Inr (Ret (1, [7]), c') \<and>
     concat (map mbuf_data (rxq c')) = [8] \<and> (\<forall>th' len'. tcp_read th' c' len' = Inr (Ret (0, []), c'))"
proof -
  define m where "m = example_packet\<lparr>mflags := TCP_FIN, doff := 40, mlen := 2\<rparr>"
  define c where "c = (example_conn [])\<lparr>rxq := [m]\<rparr>"
  have m: "mbuf_ok m" "has (mflags m) TCP_FIN" "mlen m = 2" "mbuf_data m = [7, 8]"
    by (simp_all add: m_def mbuf_ok_def mbuf_data_def has_def tcp_flag_defs example_packet_def)
  have c: "world_ok (wd c)" "rxq c = [m]" "\<not> rx_closed c" "\<not> rx_exclusive c" "err c = 0"
    by (simp_all add: c_def example_conn_def world_ok_def MBUF_DEFAULT_HEADROOM_def)
  show ?thesis
    unfolding m_def [symmetric] c_def [symmetric]
    using tcp_fin_partial_read [OF c(1,2) m(1,2) _ _ c(3-5), of 1 1] m(3,4) by auto
qed

end
