(* ===== verification/Tcp_Readv.thy ===== *)
theory Tcp_Readv
  imports Tcp_Read
begin

text \<open>
  Vectored reading (\<open>tcp_readv\<close> of \<open>runtime/net/tcp.c\<close>) does what \<open>tcp_read\<close> does, with the bytes spread over the
  elements of the vector.
\<close>

fun iov_split :: "nat list \<Rightarrow> u8 list \<Rightarrow> u8 list list" where
  "iov_split [] bs = []"
| "iov_split (n # iov) bs = take n bs # iov_split iov (drop n bs)"

lemma length_iov_split [simp]: "length (iov_split iov bs) = length iov"
  by (induction iov bs rule: iov_split.induct) simp_all

lemma nth_iov_split: "j < length iov \<Longrightarrow> iov_split iov bs ! j = take (iov ! j) (drop (sum_list (take j iov)) bs)"
proof (induction iov bs arbitrary: j rule: iov_split.induct)
  case (2 n iov bs)
  then show ?case by (cases j) (simp_all add: add.commute)
qed simp

lemma concat_iov_split: "length bs \<le> sum_list iov \<Longrightarrow> concat (iov_split iov bs) = bs"
  by (induction iov bs rule: iov_split.induct) simp_all

lemma iov_split_Nil: "iov_split iov [] = replicate (length iov) []"
  by (induction iov) simp_all

lemma sum_take_mono: "i \<le> j \<Longrightarrow> sum_list (take i iov) \<le> sum_list (take j (iov :: nat list))"
  by (metis le_add1 le_add_diff_inverse sum_list_append take_add)

lemma sum_take_Suc: "i < length iov \<Longrightarrow> sum_list (take (Suc i) iov) = sum_list (take i iov) + (iov ! i :: nat)"
  by (simp add: take_Suc_conv_app_nth)

text \<open>The position in the vector after the bytes \<open>bs\<close>.\<close>

definition iov_at :: "nat list \<Rightarrow> u8 list \<Rightarrow> iov_state \<Rightarrow> bool" where
  "iov_at iov bs = (\<lambda>(i, off, out). i \<le> length iov \<and> sum_list (take i iov) + off = length bs \<and>
     (i < length iov \<longrightarrow> off \<le> iov ! i) \<and> (i = length iov \<longrightarrow> off = 0) \<and> out = iov_split iov bs)"

lemma iov_at_start: "iov_at iov [] (0, 0, replicate (length iov) [])"
  by (simp add: iov_at_def iov_split_Nil)

lemma iov_split_append:
  assumes i: "i < length iov" "sum_list (take i iov) + off = length bs" "off + length b \<le> iov ! i"
  shows "(iov_split iov bs)[i := iov_split iov bs ! i @ b] = iov_split iov (bs @ b)"
proof (rule nth_equalityI)
  fix j assume "j < length ((iov_split iov bs)[i := iov_split iov bs ! i @ b])"
  then have j: "j < length iov" by simp
  consider "j < i" | "j = i" | "i < j" by linarith
  then show "(iov_split iov bs)[i := iov_split iov bs ! i @ b] ! j = iov_split iov (bs @ b) ! j"
  proof cases
    case 1
    then have "sum_list (take j iov) + iov ! j \<le> length bs"
      using sum_take_mono [of "Suc j" i iov] sum_take_Suc [OF j] i(2) by simp
    then show ?thesis using 1 j by (simp add: nth_iov_split)
  next
    case 2
    then show ?thesis using i by (simp add: nth_iov_split)
  next
    case 3
    then have "length bs + length b \<le> sum_list (take j iov)"
      using sum_take_mono [of "Suc i" j iov] sum_take_Suc [OF i(1)] i(2,3) by simp
    then show ?thesis using 3 j by (simp add: nth_iov_split)
  qed
qed simp

definition pulled :: "mbuf \<Rightarrow> nat \<Rightarrow> mbuf" where
  "pulled m n = m\<lparr>doff := doff m + n, mlen := mlen m - n\<rparr>"

lemma pulled_ok: "mbuf_ok m \<Longrightarrow> n \<le> mlen m \<Longrightarrow> mbuf_ok (pulled m n)"
  "mbuf_data (pulled m n) = drop n (mbuf_data m)" "mlen (pulled m n) = mlen m - n"
  by (auto simp: mbuf_ok_def mbuf_data_def pulled_def drop_take add.commute)

lemma iov_at_less: "iov_at iov bs s \<Longrightarrow> length bs < sum_list iov \<Longrightarrow> fst s < length iov"
  by (cases "fst s < length iov") (auto simp: iov_at_def)

lemma iov_at_end: "iov_at iov bs s \<Longrightarrow> \<not> fst s < length iov \<Longrightarrow> length bs = sum_list iov"
  by (auto simp: iov_at_def)

lemma iov_copy_step:
  assumes s: "iov_at iov bs s" "fst s < length iov" and m: "mbuf_ok m"
  shows "\<exists>n s'. iov_copy iov s m = Inr (s', n, pulled m n) \<and> n \<le> mlen m \<and> length bs + n \<le> sum_list iov \<and>
    iov_at iov (bs @ take n (mbuf_data m)) s' \<and> fst s' \<le> length iov \<and> (n < mlen m \<longrightarrow> fst s' = Suc (fst s))"
proof -
  obtain i off out where t: "s = (i, off, out)" by (cases s)
  have i: "i < length iov" using s(2) by (simp add: t)
  have o: "off \<le> iov ! i" "sum_list (take i iov) + off = length bs" "out = iov_split iov bs" using s(1) i by (simp_all add: iov_at_def t)
  define n where "n = min (iov ! i - off) (mlen m)"
  have n: "n \<le> mlen m" "off + n \<le> iov ! i" using o(1) by (simp_all add: n_def)
  define b where "b = take n (mbuf_data m)"
  have lb: "length b = n" using n(1) length_mbuf_data [OF m] by (simp add: b_def)
  have p: "mbuf_pull m n = Inr (b, pulled m n)"
    using m n(1) by (auto simp: mbuf_pull_def mbuf_pull_raw_def mbuf_ok_def mbuf_data_def pulled_def b_def min_def)
  define s' where "s' = (if off + n = iov ! i then (Suc i, 0, iov_split iov (bs @ b)) else (i, off + n, iov_split iov (bs @ b)))"
  have out: "(iov_split iov bs)[i := iov_split iov bs ! i @ b] = iov_split iov (bs @ b)"
    using iov_split_append [OF i o(2), of b] n(2) lb by simp
  have e: "iov_copy iov s m = Inr (s', n, pulled m n)"
    unfolding iov_copy_def t prod.case Let_def mbuf_length_def n_def [symmetric] p
    using i o(1) by (simp add: s'_def o(3) out)
  have a: "iov_at iov (bs @ b) s'"
    using i o(2) n(2) lb sum_take_Suc [OF i] by (auto simp: iov_at_def s'_def)
  have "length bs + n \<le> sum_list (take (Suc i) iov)" using sum_take_Suc [OF i] o(2) n(2) by simp
  also have "\<dots> \<le> sum_list iov" using sum_take_mono [of "Suc i" "length iov" iov] i by simp
  finally have "length bs + n \<le> sum_list iov" .
  moreover have "fst s' \<le> length iov" "n < mlen m \<longrightarrow> fst s' = Suc (fst s)"
    using i n o(1) by (auto simp: s'_def t n_def min_def split: if_splits)
  ultimately show ?thesis using e n(1) a unfolding b_def by blast
qed

lemma readv_buf_copies:
  assumes "iov_at iov bs s" "length bs < sum_list iov" "mbuf_ok m" "length bs + mlen m \<le> sum_list iov"
  shows "\<exists>s'. readv_buf iov s m = Inr s' \<and> iov_at iov (bs @ mbuf_data m) s'"
  using assms
proof (induction "mlen m + (length iov - fst s)" arbitrary: bs s m rule: less_induct)
  case less
  have f: "fst s < length iov" by (rule iov_at_less [OF less(2,3)])
  obtain n s' where n: "iov_copy iov s m = Inr (s', n, pulled m n)" "n \<le> mlen m" "iov_at iov (bs @ take n (mbuf_data m)) s'"
    "fst s' \<le> length iov" "n < mlen m \<longrightarrow> fst s' = Suc (fst s)"
    using iov_copy_step [OF less(2) f less(4)] by blast
  have l: "length (bs @ take n (mbuf_data m)) = length bs + n" using n(2) length_mbuf_data [OF less(4)] by simp
  show ?case
  proof (cases "n < mlen m")
    case True
    have "\<exists>s''. readv_buf iov s' (pulled m n) = Inr s'' \<and>
        iov_at iov ((bs @ take n (mbuf_data m)) @ mbuf_data (pulled m n)) s''"
      using True n less(5) f by (intro less(1) [OF _ n(3)]) (simp_all add: pulled_ok less(4) l del: length_append)
    then show ?thesis
      using True n(1,4) by (subst readv_buf.simps) (auto simp: mbuf_length_def pulled_ok)
  next
    case False
    then have "n = mlen m" "take n (mbuf_data m) = mbuf_data m" using n(2) length_mbuf_data [OF less(4)] by simp_all
    then show ?thesis using n(1,3,4) by (subst readv_buf.simps) (simp add: mbuf_length_def pulled_ok)
  qed
qed

definition consumed :: "mbuf \<Rightarrow> nat \<Rightarrow> mbuf" where
  "consumed m n = (pulled m n)\<lparr>seg_seq := seg_seq m + of_nat n\<rparr>"

lemma consumed_fields: "mbuf_ok m \<Longrightarrow> n \<le> mlen m \<Longrightarrow> mbuf_ok (consumed m n)"
  "mbuf_data (consumed m n) = drop n (mbuf_data m)" "mlen (consumed m n) = mlen m - n"
  "consumed (consumed m n) k = consumed m (n + k)"
  "(pulled m n)\<lparr>seg_seq := seg_seq (pulled m n) + of_nat n\<rparr> = consumed m n"
  by (auto simp: mbuf_ok_def mbuf_data_def pulled_def consumed_def drop_take add.commute add.left_commute)

lemma readv_part_copies:
  assumes "iov_at iov bs s" "fst s < length iov" "mbuf_ok m" "sum_list iov - length bs < mlen m" "length bs \<le> sum_list iov"
  shows "\<exists>s'. readv_part iov s m = Inr (s', consumed m (sum_list iov - length bs)) \<and>
    iov_at iov (bs @ take (sum_list iov - length bs) (mbuf_data m)) s'"
  using assms
proof (induction "length iov - fst s" arbitrary: bs s m rule: less_induct)
  case less
  define z where "z = sum_list iov - length bs"
  obtain n s' where n: "iov_copy iov s m = Inr (s', n, pulled m n)" "n \<le> mlen m" "length bs + n \<le> sum_list iov"
    "iov_at iov (bs @ take n (mbuf_data m)) s'" "fst s' \<le> length iov" "n < mlen m \<longrightarrow> fst s' = Suc (fst s)"
    using iov_copy_step [OF less(2,3,4)] by blast
  have z: "n \<le> z" "n < mlen m" "z < mlen m" using n(3) less(5) by (simp_all add: z_def)
  have l: "length (bs @ take n (mbuf_data m)) = length bs + n" using n(2) length_mbuf_data [OF less(4)] by simp
  have e: "readv_part iov s m = (if fst s' < length iov then readv_part iov s' (consumed m n) else Inr (s', consumed m n))"
    using n(1) z(2) by (subst readv_part.simps) (simp add: consumed_fields pulled_ok(3) mbuf_length_def Let_def)
  show ?case
  proof (cases "fst s' < length iov")
    case True
    have zz: "sum_list iov - length (bs @ take n (mbuf_data m)) = z - n" unfolding l by (simp add: z_def)
    have "\<exists>s''. readv_part iov s' (consumed m n) = Inr (s'', consumed (consumed m n) (z - n)) \<and>
        iov_at iov ((bs @ take n (mbuf_data m)) @ take (z - n) (mbuf_data (consumed m n))) s''"
      using n(3,6) True z less(3)
      by (intro less(1) [OF _ n(4) True consumed_fields(1) [OF less(4) n(2)], unfolded zz]) (simp_all only: l, simp_all add: consumed_fields(3))
    moreover have "consumed (consumed m n) (z - n) = consumed m z" using z(1) by (simp add: consumed_fields(4))
    moreover have "(bs @ take n (mbuf_data m)) @ take (z - n) (mbuf_data (consumed m n)) = bs @ take z (mbuf_data m)"
      using z(1) take_add [of n "z - n" "mbuf_data m"] by (simp add: consumed_fields(2))
    ultimately show ?thesis using e True unfolding z_def [symmetric] by simp
  next
    case False
    then have "n = z" using iov_at_end [OF n(4)] l by (simp add: z_def)
    then show ?thesis using e False n(4) unfolding z_def [symmetric] by simp
  qed
qed

text \<open>What the wait takes off the queue: before each buffer there is room, and the buffer fits.\<close>

fun fits :: "nat \<Rightarrow> nat \<Rightarrow> mbuf list \<Rightarrow> bool" where
  "fits len k [] \<longleftrightarrow> True"
| "fits len k (m # ms) \<longleftrightarrow> k < len \<and> k + mlen m \<le> len \<and> fits len (k + mlen m) ms"

lemma fits_append: "fits len k (ms @ ms') \<longleftrightarrow> fits len k ms \<and> fits len (k + sum_list (map mlen ms)) ms'"
  by (induction len k ms rule: fits.induct) (simp_all add: add.assoc)

lemma read_pop_fits:
  "fits len 0 taken \<Longrightarrow> readlen = sum_list (map mlen taken) \<Longrightarrow> read_pop c q len readlen taken = (k, taken', part, c') \<Longrightarrow>
   fits len 0 taken' \<and> (part \<longrightarrow> sum_list (map mlen taken') < len)"
proof (induction c q len readlen taken rule: read_pop.induct)
  case (2 c m q len readlen taken)
  define c1 where "c1 = (if has (mflags m) TCP_FIN then tcp_conn_shutdown_rx c else c)"
  show ?case
  proof (cases "readlen < len \<and> \<not> (has (mflags m) TCP_FIN \<and> mbuf_length m = 0) \<and> \<not> len - readlen < mbuf_length m")
    case True
    have "read_pop c1 q len (readlen + mbuf_length m) (taken @ [m]) = (k, taken', part, c')"
      using True 2(4) by (auto simp: Let_def c1_def split: if_splits)
    moreover have "fits len 0 (taken @ [m])" using 2(2,3) True by (auto simp: fits_append mbuf_length_def)
    ultimately show ?thesis using 2(1) [OF _ c1_def] True 2(3) by (simp add: mbuf_length_def)
  next
    case False
    then show ?thesis using 2(2,3,4) by (auto simp: Let_def split: if_splits)
  qed
qed simp

lemma readv_all_copies:
  "iov_at iov bs s \<Longrightarrow> fits (sum_list iov) (length bs) ms \<Longrightarrow> \<forall>m \<in> set ms. mbuf_ok m \<Longrightarrow>
   \<exists>s'. readv_all iov s ms = Inr s' \<and> iov_at iov (bs @ concat (map mbuf_data ms)) s'"
proof (induction ms arbitrary: bs s)
  case (Cons m ms)
  obtain s1 where s1: "readv_buf iov s m = Inr s1" "iov_at iov (bs @ mbuf_data m) s1"
    using readv_buf_copies [OF Cons(2), of m] Cons(3,4) by (auto simp del: split_paired_Ex)
  have "length (bs @ mbuf_data m) = length bs + mlen m" using Cons(4) by (simp add: length_mbuf_data)
  then have "fits (sum_list iov) (length (bs @ mbuf_data m)) ms" using Cons(3) by simp
  then show ?case using Cons(1) [OF s1(2)] Cons(4) s1(1) by auto
qed simp

lemma tcp_read_wait_fits:
  assumes ok: "\<forall>m \<in> set (rxq c). mbuf_ok m" and t: "world_ok (wd c)" and w: "tcp_read_wait th c len = Inr (Ret (ret, taken, part), c')"
    and r: "0 < ret" and e: "0 \<le> err c"
  shows "fits len 0 taken \<and> (\<forall>m \<in> set (taken @ rxq c'). mbuf_ok m) \<and>
    (part \<longrightarrow> rxq c' \<noteq> [] \<and> length (concat (map mbuf_data taken)) < len \<and>
       len - length (concat (map mbuf_data taken)) < mlen (List.hd (rxq c')))"
proof -
  have o: "\<not> rx_closed c" "\<not> rx_exclusive c" "rxq c \<noteq> []"
    using w r e by (auto simp: tcp_read_wait_def EAGAIN_def split: if_splits)
  obtain k tk pt c1 where p: "read_pop c (rxq c) len 0 [] = (k, tk, pt, c1)" using prod_cases4 by blast
  have q: "rxq c = tk @ rxq c1" "pop_same c c1"
    "if pt then k = len \<and> rxq c1 \<noteq> [] \<and> len - length (concat (map mbuf_data tk)) < mlen (List.hd (rxq c1)) \<and>
       length (concat (map mbuf_data tk)) \<le> len
     else k = length (concat (map mbuf_data tk))"
    using read_pop_spec [OF ok _ p] by auto
  have f: "fits len 0 tk \<and> (pt \<longrightarrow> sum_list (map mlen tk) < len)" using read_pop_fits [OF _ _ p] by simp
  have "world_ok (wd c1)" using t q(2) by (auto simp: pop_same_def tx_same_def intro: world_ok_later)
  then obtain c2 where c2: "tcp_read_wait th c len = Inr (Ret (int k, tk, pt), c2)"
    "acked_from (upd_pcb (\<lambda>p. p\<lparr>rcv_wnd := rcv_wnd p + of_nat k\<rparr>) c1) c2"
    using tcp_read_wait_pops [OF p _ o] by blast
  have s: "tk = taken" "pt = part" "c2 = c'" using c2(1) w by simp_all
  have x: "rxq c' = rxq c1" using c2(2) s(3) by (auto simp: acked_from_def)
  have "\<forall>m \<in> set taken. mbuf_ok m" using ok q(1) s(1) by simp
  then have "length (concat (map mbuf_data taken)) = sum_list (map mlen taken)"
    by (induction taken) (simp_all add: length_mbuf_data)
  then show ?thesis using f q(1,3) ok unfolding x s(1,2) by auto
qed

text \<open>
  C11. A vectored read is a read of the whole length whose bytes fill the elements of the vector one after the other. It
  blocks, fails and changes the connection exactly as \<open>tcp_read\<close> does; no element is
  overrun and no assertion of its copy loops fails, for any lengths of the elements.
\<close>

theorem tcp_readv_is_read:
  assumes ok: "\<forall>m \<in> set (rxq c). mbuf_ok m" and w: "world_ok (wd c)" and e: "0 \<le> err c"
  shows "tcp_readv th c iov =
    bind_exec (tcp_read th c (sum_list iov)) (\<lambda>(r, c').
      Inr (case r of Blocked \<Rightarrow> Blocked | Ret (ret, bs) \<Rightarrow> Ret (ret, if ret \<le> 0 then [] else iov_split iov bs), c'))"
proof -
  define len where "len = sum_list iov"
  have l: "iov_len iov = len" by (simp add: len_def iov_len_def)
  consider (f) x where "tcp_read_wait th c len = Inl x" | (b) c' where "tcp_read_wait th c len = Inr (Blocked, c')"
    | (z) ret taken part c' where "tcp_read_wait th c len = Inr (Ret (ret, taken, part), c')" "ret \<le> 0"
    | (r) ret taken part c' where "tcp_read_wait th c len = Inr (Ret (ret, taken, part), c')" "0 < ret"
    by (cases "tcp_read_wait th c len") (metis attempt.exhaust not_le prod_cases3 surj_pair)+
  then show ?thesis
  proof cases
    case r
    have f: "fits len 0 taken" "\<forall>m \<in> set (taken @ rxq c'). mbuf_ok m"
      "part \<longrightarrow> rxq c' \<noteq> [] \<and> length (concat (map mbuf_data taken)) < len \<and>
         len - length (concat (map mbuf_data taken)) < mlen (List.hd (rxq c'))"
      using tcp_read_wait_fits [OF ok w r e] by blast+
    define t where "t = concat (map mbuf_data taken)"
    obtain s1 where s1: "readv_all iov (0, 0, replicate (length iov) []) taken = Inr s1" "iov_at iov t s1"
      using readv_all_copies [OF iov_at_start, of iov taken] f(1,2) by (auto simp: len_def t_def simp del: split_paired_Ex)
    show ?thesis
    proof (cases part)
      case False
      then show ?thesis
        using r s1 by (simp add: tcp_readv_def tcp_read_def l len_def [symmetric] t_def iov_at_def Let_def split: prod.splits)
    next
      case True
      then obtain m q where m: "rxq c' = m # q" "length t < len" "len - length t < mlen m" using f(3) by (cases "rxq c'") (auto simp: t_def)
      define n where "n = len - length t"
      have mo: "mbuf_ok m" using f(2) m(1) by simp
      obtain s2 where s2: "readv_part iov s1 m = Inr (s2, consumed m n)" "iov_at iov (t @ take n (mbuf_data m)) s2"
        using readv_part_copies [OF s1(2) iov_at_less [OF s1(2)] mo] m(2,3) unfolding n_def len_def by auto
      have "mbuf_pull m n = Inr (take n (mbuf_data m), pulled m n)"
        using m(3) mo by (auto simp: n_def mbuf_pull_def mbuf_pull_raw_def mbuf_data_def pulled_def)
      then have "read_part (emit_c (map Release taken) c') n = Inr (take n (mbuf_data m), (emit_c (map Release taken) c')\<lparr>rxq := consumed m n # q\<rparr>)"
        using m(1) by (simp add: read_part_def consumed_fields)
      then show ?thesis
        using r s1 s2 m(1) True
        by (simp add: tcp_readv_def tcp_read_def l len_def [symmetric] t_def [symmetric] n_def [symmetric] iov_at_def Let_def split: prod.splits)
    qed
  qed (simp_all add: tcp_readv_def tcp_read_def l len_def [symmetric])
qed

text \<open>Two bytes, read into three elements of which one is empty.\<close>

theorem tcp_readv_is_read_witness:
  "\<exists>c'. tcp_readv 1 ((example_conn [])\<lparr>rxq := [example_packet\<lparr>doff := 40, mlen := 2\<rparr>]\<rparr>) [1, 0, 5] = Inr (Ret (2, [[7], [], [8]]), c')"
proof -
  define m where "m = example_packet\<lparr>doff := 40, mlen := 2\<rparr>"
  define c where "c = (example_conn [])\<lparr>rxq := [m]\<rparr>"
  have m: "mbuf_ok m" "\<not> has (mflags m) TCP_FIN" "mlen m = 2" "mbuf_data m = [7, 8]"
    by (simp_all add: m_def mbuf_ok_def mbuf_data_def has_def tcp_flag_defs example_packet_def)
  have c: "world_ok (wd c)" "rxq c = [m]" "\<not> rx_closed c" "\<not> rx_exclusive c" "err c = 0"
    by (simp_all add: c_def example_conn_def world_ok_def MBUF_DEFAULT_HEADROOM_def)
  have p: "read_pop c (rxq c) 6 0 [] = (2, [m], False, c\<lparr>rxq := []\<rparr>)" using m c(2) by (simp add: mbuf_length_def)
  obtain c' where "tcp_read_wait 1 c 6 = Inr (Ret (2, [m], False), c')"
    using tcp_read_wait_pops [OF p, of 1] c by auto
  then have "tcp_read 1 c 6 = Inr (Ret (2, [7, 8]), emit_c [Release m] c')" using m(4) by (simp add: tcp_read_def tcp_read_finish_def)
  then show ?thesis
    unfolding m_def [symmetric] c_def [symmetric]
    using tcp_readv_is_read [of c 1 "[1, 0, 5]"] m(1) c by simp
qed

end
