(* ===== verification/Tcp_Listen.thy ===== *)
theory Tcp_Listen
  imports Tcp_Conn
begin

text \<open>
  The listening queue (\<open>tcp_queue_recv\<close>, \<open>tcp_accept\<close>, \<open>tcp_qshutdown\<close> of \<open>runtime/net/tcp.c\<close>) under concurrency: the
  handler of a packet takes the lock of the queue twice, and other operations may run in between.
\<close>

text \<open>
  The queue, the handlers between their two sections, the threads that were woken and have not run yet, and the history of the
  connections created and accepted.
\<close>

record listening =
  que :: tcpqueue
  inflight :: nat
  woken :: "tid list"
  created :: "addr list"
  accepted :: "addr list"

text \<open>An accepting thread tries once when it calls and again whenever it was woken.\<close>

inductive listen_step :: "listening \<Rightarrow> listening \<Rightarrow> bool" where
  reserve: "recv_reserve (que s) = Some q \<Longrightarrow> listen_step s (s\<lparr>que := q, inflight := inflight s + 1\<rparr>)"
| unreserve: "0 < inflight s \<Longrightarrow> listen_step s (s\<lparr>que := recv_unreserve (que s), inflight := inflight s - 1\<rparr>)"
| enqueue: "0 < inflight s \<Longrightarrow> recv_enqueue i (que s) = (th, q) \<Longrightarrow>
    listen_step s (s\<lparr>que := q, inflight := inflight s - 1, created := created s @ [i], woken := (case th of None \<Rightarrow> woken s | Some t \<Rightarrow> woken s @ [t])\<rparr>)"
| accept: "tcp_accept th (que s) = (r, q) \<Longrightarrow>
    listen_step s (s\<lparr>que := q, woken := remove1 th (woken s), accepted := accepted s @ (case r of Ret (_, Some i) \<Rightarrow> [i] | _ \<Rightarrow> [])\<rparr>)"
| shutdown: "tcp_qshutdown (que s) g = Inr (ths, q, g') \<Longrightarrow> listen_step s (s\<lparr>que := q, woken := woken s @ ths\<rparr>)"
| nonblock: "tcpq_set_nonblocking (que s) nb = (ths, q) \<Longrightarrow> listen_step s (s\<lparr>que := q, woken := woken s @ ths\<rparr>)"

definition listen_start :: "tcpqueue \<Rightarrow> listening" where
  "listen_start q = \<lparr>que = q, inflight = 0, woken = [], created = [], accepted = []\<rparr>"

definition listen_inv :: "int \<Rightarrow> listening \<Rightarrow> bool" where
  "listen_inv b s \<longleftrightarrow>
     q_backlog (que s) + int (length (q_conns (que s))) + int (inflight s) = b \<and> 0 \<le> q_backlog (que s) \<and>
     created s = accepted s @ q_conns (que s) \<and>
     (q_wq (que s) \<noteq> [] \<longrightarrow> length (q_conns (que s)) \<le> length (woken s)) \<and>
     (q_shutdown (que s) \<longrightarrow> q_wq (que s) = [])"

lemma listen_step_inv:
  assumes "listen_step s s'" "listen_inv b s"
  shows "listen_inv b s'"
  using assms
proof cases
  case (accept th r q)
  show ?thesis
  proof (cases "q_conns (que s)")
    case Nil
    then show ?thesis using accept assms(2) by (auto simp: tcp_accept_def listen_inv_def split: if_splits)
  next
    case (Cons i rest)
    then have "length rest \<le> length (remove1 th (woken s))" if "q_wq (que s) \<noteq> []"
      using that assms(2) by (auto simp: listen_inv_def length_remove1)
    then show ?thesis using Cons accept assms(2) by (auto simp: tcp_accept_def listen_inv_def)
  qed
next
  case (enqueue i th q)
  then show ?thesis using assms(2) by (cases "q_wq (que s)") (auto simp: recv_enqueue_def waitq_signal_def listen_inv_def)
qed (auto simp: recv_reserve_def recv_unreserve_def tcp_qshutdown_def tcp_qshutdown_mark_def tcpq_set_nonblocking_def listen_inv_def
    split: if_splits)

lemma listen_reachable_inv:
  assumes "listen_step\<^sup>*\<^sup>* s s'" "listen_inv b s"
  shows "listen_inv b s'"
  using assms by (induction rule: rtranclp_induct) (auto intro: listen_step_inv)

lemma tcp_listen_inv: "tcp_listen crc mem l b g = (0, Some q, g') \<Longrightarrow> listen_inv b (listen_start q) \<and> \<not> q_shutdown q"
  by (auto simp: tcp_listen_def listen_inv_def listen_start_def EINVAL_def ENOMEM_def Let_def split: if_splits option.splits prod.splits)



end
