(* ===== verification/Tcp_Options.thy ===== *)
theory Tcp_Options
  imports Tcp_Rx Tcp_Conn
begin

text \<open>
  Headers and options on the wire: what \<open>runtime/net/tcp_out.c\<close> writes is what \<open>runtime/net/tcp_in.c\<close> reads, and
  what its option parser does with an option of length zero.
\<close>

subsection \<open>Round trips\<close>

lemma parse_end [simp]: "parse_loop ptr 0 os = Some (Inr os)"
  by (subst parse_loop.simps) simp

lemmas option_codes = TCP_OPT_EOL_def TCP_OPT_NOP_def TCP_OPT_MSS_def TCP_OPT_WSCALE_def TCP_OLEN_MSS_def TCP_OLEN_WSCALE_def

lemma parse_mss:
  "parse_loop (TCP_OPT_MSS # TCP_OLEN_MSS # hton16 v @ rest) (4 + int n) os = parse_loop rest (int n) (os\<lparr>omss := v, en_mss := True\<rparr>)"
proof -
  have "ntoh16 (ucast (drop_bit 8 v) # ucast v # rest) = v" using ntoh16_hton16 [of v rest] by (simp add: hton16_def)
  then show ?thesis by (subst parse_loop.simps) (simp add: option_codes hton16_def)
qed

lemma parse_wscale:
  "v \<le> 14 \<Longrightarrow> parse_loop (TCP_OPT_NOP # TCP_OPT_WSCALE # TCP_OLEN_WSCALE # v # rest) (4 + int n) os =
     parse_loop rest (int n) (os\<lparr>owscale := v, en_wscale := True\<rparr>)"
  by (subst parse_loop.simps, simp add: option_codes, subst parse_loop.simps) (auto simp: option_codes not_less)

text \<open>What the parser makes of the options that were written.\<close>

definition read_back :: "tcp_options \<Rightarrow> tcp_options" where
  "read_back os = \<lparr>en_mss = en_mss os, en_wscale = en_wscale os, omss = if en_mss os then omss os else 0,
     owscale = if en_wscale os then owscale os else 0\<rparr>"

definition option_bytes :: "tcp_options \<Rightarrow> u8 list" where
  "option_bytes os = (if en_mss os then [TCP_OPT_MSS, TCP_OLEN_MSS] @ hton16 (omss os) else []) @
     (if en_wscale os then [TCP_OPT_NOP, TCP_OPT_WSCALE, TCP_OLEN_WSCALE, owscale os] else [])"

lemma parse_option_bytes:
  assumes "owscale os \<le> 14"
  shows "parse_loop (option_bytes os @ rest) (int (length (option_bytes os))) no_options = Some (Inr (read_back os))"
  using parse_mss [of "omss os" _ 0] parse_mss [of "omss os" _ 4] parse_wscale [OF assms, of _ 0]
  by (auto simp: option_bytes_def read_back_def no_options_def)

lemma push_bytes_seq: "push_bytes m bs = Inr m' \<Longrightarrow> seg_seq m' = seg_seq m"
  by (auto simp: push_bytes_def mbuf_push_def write_at_def split: if_splits)

lemma tcp_push_options_bytes:
  assumes m: "mbuf_ok m" "8 \<le> doff m"
  shows "\<exists>n m'. tcp_push_options m os = Inr (n, m') \<and> mbuf_data m' = option_bytes os @ mbuf_data m \<and> mbuf_ok m' \<and> n \<le> 2 \<and>
    length (option_bytes os) = 4 * unat n \<and> doff m - 8 \<le> doff m' \<and> seg_seq m' = seg_seq m"
proof -
  define ws where "ws = (if en_wscale os then [TCP_OPT_NOP, TCP_OPT_WSCALE, TCP_OLEN_WSCALE, owscale os] else [])"
  define n1 :: u8 where "n1 = (if en_wscale os then 1 else 0)"
  obtain m1 where m1: "(if en_wscale os
        then bind_exec (push_bytes m [TCP_OPT_NOP, TCP_OPT_WSCALE, TCP_OLEN_WSCALE, owscale os]) (\<lambda>m. Inr (1, m)) else Inr (0, m)) = Inr (n1, m1)"
    "mbuf_ok m1" "mbuf_data m1 = ws @ mbuf_data m" "doff m - 4 \<le> doff m1" "seg_seq m1 = seg_seq m"
  proof (cases "en_wscale os")
    case True
    then obtain m1 where "push_bytes m ws = Inr m1" "mbuf_ok m1" "mbuf_data m1 = ws @ mbuf_data m" "doff m1 = doff m - length ws"
      using push_bytes_data [OF m(1), of ws] m(2) by (auto simp: ws_def)
    then show ?thesis using True that [of m1] push_bytes_seq [of m ws m1] by (simp add: ws_def n1_def)
  next
    case False
    then show ?thesis using m that by (simp add: ws_def n1_def)
  qed
  show ?thesis
  proof (cases "en_mss os")
    case True
    define ms where "ms = [TCP_OPT_MSS, TCP_OLEN_MSS] @ hton16 (omss os)"
    have "length ms \<le> doff m1" using m(2) m1(4) by (simp add: ms_def)
    then obtain m2 where "push_bytes m1 ms = Inr m2" "mbuf_ok m2" "mbuf_data m2 = ms @ mbuf_data m1" "doff m2 = doff m1 - length ms"
      using push_bytes_data [OF m1(2), of ms] by blast
    then show ?thesis
      using True m1 push_bytes_seq [of m1 ms m2] by (auto simp: tcp_push_options_def option_bytes_def ws_def n1_def ms_def)
  next
    case False
    then show ?thesis using m1 by (auto simp: tcp_push_options_def option_bytes_def ws_def n1_def)
  qed
qed

text \<open>
  C37. A segment that carries options is read as it was written. Writing the options and then the header in front
  of an empty buffer with enough headroom succeeds. The header read from the front of the buffer then has the ports, sequence number,
  acknowledgement, offset, flags and window that were written, and parsing the bytes between the header
  and the offset gives back the enabled options with their values.
\<close>

theorem tcp_segment_roundtrip:
  assumes m: "mbuf_ok m" "28 \<le> doff m" "mlen m = 0" and os: "owscale os \<le> 14"
  shows "\<exists>n m1 m2 c' h. tcp_push_options m os = Inr (n, m1) \<and> tcp_push_tcphdr m1 c flags (5 + n) l4len = Inr (m2, c') \<and>
    tcp_hdr_of (mbuf_data m2) = h \<and> sport h = snd (laddr c) \<and> dport h = snd (raddr c) \<and> hseq h = seg_seq m \<and>
    hack h = rcv_nxt (pcb c) \<and> hflags h = flags \<and> hwin h = ucast (drop_bit (unat (rcv_wscale (pcb c))) (rcv_wnd (pcb c))) \<and>
    4 * unat (hoff h) = mlen m2 \<and>
    parse_loop (drop TCP_HDR_LEN (mbuf_data m2) @ rest) (int (4 * unat (hoff h)) - int TCP_HDR_LEN) no_options = Some (Inr (read_back os))"
proof -
  have dm: "mbuf_data m = []" using m(3) by (simp add: mbuf_data_def)
  obtain n m1 where p: "tcp_push_options m os = Inr (n, m1)" "mbuf_data m1 = option_bytes os" "mbuf_ok m1" "n \<le> 2"
    "length (option_bytes os) = 4 * unat n" "doff m - 8 \<le> doff m1" "seg_seq m1 = seg_seq m"
    using tcp_push_options_bytes [OF m(1), of os] m(2) dm by auto
  define h where "h = \<lparr>sport = snd (laddr c), dport = snd (raddr c), hseq = seg_seq m1, hack = rcv_nxt (pcb c), hoff = 5 + n, hflags = flags,
    hwin = ucast (drop_bit (unat (rcv_wscale (pcb c))) (rcv_wnd (pcb c))),
    hsum = tcp_hdr_chksum (directpath (wd c)) (fst (laddr c)) (fst (raddr c)) (ucast (5 + n) * 4 + l4len)\<rparr>"
  have "unat n \<le> 2" using p(4) by (simp add: word_le_nat_alt)
  then have u: "unat (5 + n) = 5 + unat n" "5 + n < 16" by (simp_all add: unat_word_ariths word_less_nat_alt)
  have "TCP_HDR_LEN \<le> doff m1" using m(2) p(6) by (simp add: TCP_HDR_LEN_def)
  define old where "old = take TCP_HDR_LEN (drop (doff m1 - TCP_HDR_LEN) (bytes m1))"
  have ol: "length old = TCP_HDR_LEN" using \<open>TCP_HDR_LEN \<le> doff m1\<close> p(3) by (auto simp: old_def mbuf_ok_def min_def)
  obtain m2 where m2: "push_hdr m1 TCP_HDR_LEN (tcp_hdr_bytes h) = Inr m2" "mbuf_ok m2" "mbuf_data m2 = tcp_hdr_bytes h old @ option_bytes os"
    using push_hdr_ok [OF p(3) \<open>TCP_HDR_LEN \<le> doff m1\<close>, of "tcp_hdr_bytes h"] p(2) unfolding old_def by auto
  define m3 where "m3 = mbuf_mark_transport_offset m2"
  have e: "tcp_push_tcphdr m1 c flags (5 + n) l4len = Inr (m3, c\<lparr>tx_last_ack := rcv_nxt (pcb c), tx_last_win := rcv_wnd (pcb c)\<rparr>)"
    using m2(1) by (simp add: tcp_push_tcphdr_def Let_def h_def m3_def)
  have d: "mbuf_data m3 = tcp_hdr_bytes h old @ option_bytes os" "mlen m3 = mlen m2"
    using m2(3) by (simp_all add: m3_def mbuf_mark_transport_offset_def mbuf_data_def)
  have hd: "tcp_hdr_of (mbuf_data m3) = h" using tcp_hdr_of_bytes [of h old] ol u(2) by (simp add: d(1) h_def)
  have "mlen m2 = TCP_HDR_LEN + length (option_bytes os)" using length_mbuf_data [OF m2(2)] ol m2(3) by simp
  then have l: "4 * unat (hoff h) = mlen m3" using p(5) u(1) d(2) by (simp add: h_def TCP_HDR_LEN_def)
  have "int (4 * unat (hoff h)) - int TCP_HDR_LEN = int (length (option_bytes os))" using p(5) u(1) by (simp add: h_def TCP_HDR_LEN_def)
  then have "parse_loop (drop TCP_HDR_LEN (mbuf_data m3) @ rest) (int (4 * unat (hoff h)) - int TCP_HDR_LEN) no_options = Some (Inr (read_back os))"
    using parse_option_bytes [OF os, of rest] ol by (simp add: d(1))
  then show ?thesis using p(1,7) e hd l by (auto simp: h_def)
qed

definition example_buffer :: mbuf where
  "example_buffer = \<lparr>bytes = replicate 28 0, doff = 28, head_len = 1500, mlen = 0, network_off = 0, transport_off = 0,
     timestamp = 0, seg_seq = 0, seg_end = 0, mflags = 0, mref = 1, txflags = 0\<rparr>"

text \<open>A SYN with both options, in a buffer with 28 bytes of headroom.\<close>

theorem tcp_segment_roundtrip_witness:
  "\<exists>n m1 m2 c'. tcp_push_options example_buffer \<lparr>en_mss = True, en_wscale = True, omss = 1460, owscale = 7\<rparr> = Inr (n, m1) \<and>
     tcp_push_tcphdr m1 (example_conn []) TCP_SYN (5 + n) 0 = Inr (m2, c') \<and> hflags (tcp_hdr_of (mbuf_data m2)) = TCP_SYN \<and>
     parse_loop (drop TCP_HDR_LEN (mbuf_data m2) @ []) (int (mlen m2) - int TCP_HDR_LEN) no_options =
       Some (Inr \<lparr>en_mss = True, en_wscale = True, omss = 1460, owscale = 7\<rparr>)"
proof -
  have m: "mbuf_ok example_buffer" "28 \<le> doff example_buffer" "mlen example_buffer = 0"
    by (simp_all add: example_buffer_def mbuf_ok_def)
  define os where "os = \<lparr>en_mss = True, en_wscale = True, omss = 1460, owscale = (7 :: u8)\<rparr>"
  have os: "owscale os \<le> 14" "read_back os = os" by (simp_all add: os_def read_back_def)
  obtain n m1 m2 c' h where r: "tcp_push_options example_buffer os = Inr (n, m1)" "tcp_push_tcphdr m1 (example_conn []) TCP_SYN (5 + n) 0 = Inr (m2, c')"
    "tcp_hdr_of (mbuf_data m2) = h" "hflags h = TCP_SYN" "4 * unat (hoff h) = mlen m2"
    "parse_loop (drop TCP_HDR_LEN (mbuf_data m2) @ []) (int (4 * unat (hoff h)) - int TCP_HDR_LEN) no_options = Some (Inr (read_back os))"
    using tcp_segment_roundtrip [OF m os(1), of "example_conn []" TCP_SYN 0 "[]"] by blast
  show ?thesis using r(1-4) r(6) [unfolded r(5) os(2)] unfolding os_def [symmetric] by blast
qed

subsection \<open>Options of length zero\<close>

lemma parse_zero_aux:
  assumes a: "parse_loop ptr len os = Some y"
  shows "\<not> (0 < len \<and> (\<exists>op rest. ptr = op # 0 # rest \<and> op \<noteq> TCP_OPT_EOL \<and> op \<noteq> TCP_OPT_NOP))"
proof (rule parse_loop.raw_induct [of "\<lambda>ptr len os y. \<not> (0 < len \<and> (\<exists>op rest. ptr = op # 0 # rest \<and> op \<noteq> TCP_OPT_EOL \<and> op \<noteq> TCP_OPT_NOP))", OF _ a])
  fix f ptr len os y
  assume ih: "\<And>ptr len os y. f ptr len os = Some y \<Longrightarrow>
      \<not> (0 < len \<and> (\<exists>op rest. ptr = op # 0 # rest \<and> op \<noteq> TCP_OPT_EOL \<and> op \<noteq> TCP_OPT_NOP))"
    and s: "(if len \<le> 0 then Some (Inr os)
      else case ptr of
             [] \<Rightarrow> Some (Inl Out_of_bounds)
           | opcode # ptr1 \<Rightarrow>
               if opcode = TCP_OPT_EOL then Some (Inr os)
               else if opcode = TCP_OPT_NOP then f ptr1 (len - 1) os
               else case ptr1 of
                      [] \<Rightarrow> Some (Inl Out_of_bounds)
                    | opsize # ptr2 \<Rightarrow>
                        if opcode = TCP_OPT_MSS \<and> opsize = TCP_OLEN_MSS
                        then if length ptr2 < 2 then Some (Inl Out_of_bounds)
                             else f (drop (unat opsize) ptr) (len - int (unat opsize)) (os\<lparr>omss := ntoh16 ptr2, en_mss := True\<rparr>)
                        else if opcode = TCP_OPT_WSCALE \<and> opsize = TCP_OLEN_WSCALE
                        then (case ptr2 of
                                [] \<Rightarrow> Some (Inl Out_of_bounds)
                              | ws # _ \<Rightarrow> f (drop (unat opsize) ptr) (len - int (unat opsize))
                                           (os\<lparr>owscale := if ws > 14 then 14 else ws, en_wscale := True\<rparr>))
                        else f (drop (unat opsize) ptr) (len - int (unat opsize)) os) = Some y"
  show "\<not> (0 < len \<and> (\<exists>op rest. ptr = op # 0 # rest \<and> op \<noteq> TCP_OPT_EOL \<and> op \<noteq> TCP_OPT_NOP))"
  proof
    assume "0 < len \<and> (\<exists>op rest. ptr = op # 0 # rest \<and> op \<noteq> TCP_OPT_EOL \<and> op \<noteq> TCP_OPT_NOP)"
    then obtain op rest where p: "0 < len" "ptr = op # 0 # rest" "op \<noteq> TCP_OPT_EOL" "op \<noteq> TCP_OPT_NOP" by blast
    have "f ptr len os = Some y" using s p by (simp add: TCP_OLEN_MSS_def TCP_OLEN_WSCALE_def)
    then show False using ih p by blast
  qed
qed

lemma parse_zero: "0 < len \<Longrightarrow> op \<noteq> TCP_OPT_EOL \<Longrightarrow> op \<noteq> TCP_OPT_NOP \<Longrightarrow> parse_loop (op # 0 # rest) len os = None"
  using parse_zero_aux [of "op # 0 # rest" len os] by (cases "parse_loop (op # 0 # rest) len os") auto

text \<open>
  C38. An option other than end and no-operation whose length byte is zero makes the parser loop forever. So a
  listener never returns from a SYN packet whose first option is of this kind, whatever its other
  fields, when memory for the connection is available: one packet stops the kthread that handles it.
\<close>

theorem tcp_zero_option_hangs:
  assumes m: "mbuf_pull_or_null m TCP_HDR_LEN = Some (bs, m1)" "hflags (tcp_hdr_of bs) = TCP_SYN"
    and l: "hoff (tcp_hdr_of bs) < 16" "6 \<le> hoff (tcp_hdr_of bs)" "unat (ip_len m1) = 20 + 4 * unat (hoff (tcp_hdr_of bs))"
      "4 * unat (hoff (tcp_hdr_of bs)) \<le> TCP_HDR_LEN + mlen m1"
    and o: "drop (doff m1) (bytes m1) = op # 0 # rest" "op \<noteq> TCP_OPT_EOL" "op \<noteq> TCP_OPT_NOP"
  shows "tcp_rx_listener crc now (Some (i, c)) rnd la m g w = None"
proof -
  define h where "h = tcp_hdr_of bs"
  define hl where "hl = (ucast (hoff h) * 4 :: u32)"
  have u: "unat hl = 4 * unat (hoff h)" "unat (hoff h) < 16" "6 \<le> unat (hoff h)"
    using l(1,2) by (simp_all add: hl_def h_def unat_word_ariths word_less_nat_alt word_le_nat_alt unsigned_ucast_eq take_bit_nat_eq_self)
  have f: "\<not> has (hflags h) TCP_RST" "\<not> has (hflags h) TCP_ACK" "has (hflags h) TCP_SYN"
    using m(2) by (simp_all add: h_def has_def tcp_flag_defs)
  have il: "(ucast (ip_len m1) - 20 :: u64) = ucast hl"
  proof -
    have "take_bit 64 (20 + unat hl) = 20 + unat hl" "take_bit 64 (unat hl) = unat hl" using u by (intro take_bit_nat_eq_self, simp)+
    moreover have "unat (ip_len m1) = 20 + unat hl" using l(3) u(1) by (simp add: h_def)
    ultimately have "unat (ucast (ip_len m1) :: u64) = 20 + unat hl" "unat (ucast hl :: u64) = unat hl" by (simp_all add: unsigned_ucast_eq)
    then have "(ucast (ip_len m1) :: u64) = 20 + ucast hl" using u by (simp add: word_unat_eq_iff unat_word_ariths)
    then show ?thesis by simp
  qed
  have "\<not> hl < 20" using u by (simp add: word_less_nat_alt)
  have "unat hl - TCP_HDR_LEN \<le> mlen m1" using l(4) u(1) by (simp add: h_def)
  obtain b2 m2 where m2: "mbuf_pull_or_null m1 (unat hl - TCP_HDR_LEN) = Some (b2, m2)"
    using \<open>unat hl - TCP_HDR_LEN \<le> mlen m1\<close> by (simp add: mbuf_pull_or_null_def mbuf_pull_raw_def)
  have "TCP_HDR_LEN < unat hl" using u by (simp add: TCP_HDR_LEN_def)
  have p: "parse_loop (op # 0 # rest) (int (unat hl) - int TCP_HDR_LEN) os = None" for os
    using \<open>TCP_HDR_LEN < unat hl\<close> by (intro parse_zero o(2,3)) linarith
  have "listener_syn crc now i (c\<lparr>wd := w\<rparr>) rnd la (ip_saddr m1, sport h) (hseq h) (op # 0 # rest) (int (unat hl) - int TCP_HDR_LEN) g = None"
    unfolding listener_syn_def tcp_conn_alloc_def tcp_parse_options_def p by simp
  then show ?thesis
    unfolding tcp_rx_listener_def m(1) Let_def option.case prod.case h_def [symmetric] hl_def [symmetric] o(1)
    using f il \<open>\<not> hl < 20\<close> m2 by simp
qed

text \<open>A SYN to port 80 whose only option has kind 8 and length 0.\<close>

definition zero_option_packet :: mbuf where
  "zero_option_packet = \<lparr>bytes = [0x45, 0, 0, 44, 0, 0, 0, 0, 0, 6, 0, 0, 0, 0, 0, 11, 0, 0, 0, 10,
       4, 0, 0, 80, 0, 0, 0, 1, 0, 0, 0, 0, 0x60, 0x02, 0, 100, 0, 0, 0, 0, 8, 0, 0, 0],
     doff = 20, head_len = 2048, mlen = 24, network_off = 0, transport_off = 0,
     timestamp = 0, seg_seq = 0, seg_end = 0, mflags = 0, mref = 1, txflags = 0\<rparr>"

theorem tcp_zero_option_hangs_witness:
  "tcp_rx_listener (\<lambda>s v. s) 0 (Some (1, example_conn [])) 5 (10, 80) zero_option_packet
     \<lparr>netcfg_addr = 10, table = trans_init 7, tcp_conns = [], tcp_worker_th = None\<rparr> (wd (example_conn [])) = None"
proof -
  define m1 where "m1 = zero_option_packet\<lparr>doff := 40, mlen := 4\<rparr>"
  define bs where "bs = take TCP_HDR_LEN (drop 20 (bytes zero_option_packet))"
  have p: "mbuf_pull_or_null zero_option_packet TCP_HDR_LEN = Some (bs, m1)"
    by (simp add: mbuf_pull_or_null_def mbuf_pull_raw_def zero_option_packet_def m1_def bs_def TCP_HDR_LEN_def)
  have h: "hflags (tcp_hdr_of bs) = TCP_SYN" "hoff (tcp_hdr_of bs) = 6"
    by (simp_all add: bs_def zero_option_packet_def tcp_hdr_of_def TCP_HDR_LEN_def TCP_SYN_def drop_bit_eq_div)
  have l: "mlen m1 = 4" by (simp add: m1_def)
  have i: "ip_len m1 = 44" by (simp add: m1_def zero_option_packet_def ip_len_def ntoh16_def)
  have d: "drop (doff m1) (bytes m1) = 8 # 0 # [0, 0]" by (simp add: m1_def zero_option_packet_def)
  show ?thesis
    by (rule tcp_zero_option_hangs [OF p h(1) _ _ _ _ d]) (simp_all add: h(2) i l TCP_HDR_LEN_def option_codes)
qed

end
