(* ===== verification/Spec2Isabelle.thy ===== *)
theory Spec2Isabelle
  imports Lrpc Timer Sync Sched_Machine Bitmap CList Mempool Stack Tcp_Readv Tcp_Listen Tcp_Options
begin

text \<open>
  Verification of the Aspen runtime, a user-level threading and networking runtime with kernel bypass.

  An application links the runtime library (\<open>runtime/\<close>), which rests on a base library (\<open>base/\<close>,
  \<open>inc/base/\<close>). Every core runs a kthread with its own run queues, timers and caches; user-level threads are
  moved between kthreads by work stealing. Softirq threads process packets and expired timers. The TCP
  stack takes packets from the socket table of the transport layer and wakes the threads that wait in
  the socket calls. Kthreads talk to a separate process, the iokernel, through shared-memory channels.

  \<^bold>\<open>Conventions.\<close> Structures are records, enumerations are datatypes, machine integers are words of
  their width, so all sums wrap around as in C. Pointers to objects are natural numbers that index a store; 0 is
  the null pointer. A result of type \<open>exec\<close> is a value or a fault: \<open>BUG_ON\<close> or a failed assertion, an access out of
  bounds, or the use of a null pointer. A critical section of a spin lock is one step; where code outside of
  locks races (channels, mutexes, the listening queue), the model is a step relation over the single accesses or
  sections. What the operating system, the processor or the network
  answers is an argument or a list of coming answers in the state. The current time is an argument.

  \<^bold>\<open>Loops.\<close> Loops over data are recursive functions with a termination proof. Loops over pointers, and those of a bitmap
  that follow a search, take fuel, and running out of it is \<open>None\<close>; enough is proved to be one more than the bits of
  the bitmap, the number of nodes of a list, and more than the magazines of a cache. The parser of TCP options may
  run forever; it is a partial function into \<open>option\<close> whose value \<open>None\<close> means that it does not return. That the
  ingress path returns for packets of an open connection is proved, and so is that the parser may not. A call that blocks
  is a sequence of turns, each of which returns \<open>Blocked\<close> or a result.

  \<^bold>\<open>Theories.\<close>

  \<^item> \<open>Prelude\<close>: integer types, faults, and facts on words, rings and lists.
  \<^item> \<open>Stddef\<close>: \<open>inc/base/stddef.h\<close>, \<open>inc/base/atomic.h\<close>, \<open>inc/base/kref.h\<close>. Alignment gives the least and greatest
    multiples; the wrap-around comparisons order positions; an object is released at the last \<open>kref_put\<close> and only then.
  \<^item> \<open>Fifo\<close>: the contract of a bounded queue (locale \<open>bounded_fifo\<close>).
  \<^item> \<open>Lrpc\<close>: \<open>base/lrpc.c\<close>, \<open>inc/base/lrpc.h\<close>. A channel implements the contract of \<open>Fifo\<close>, and keeps the order of
    messages under every interleaving of the loads and stores of both sides.
  \<^item> \<open>Timer_Heap\<close>, \<open>Timer\<close>: \<open>runtime/timer.c\<close>. The sifts restore the 4-ary heap; starting, cancelling and expiry
    are operations of a priority queue (locale \<open>timer_queue\<close>); every start ends in one expiry or one cancellation.
  \<^item> \<open>Mutex\<close>, \<open>Sync\<close>: \<open>runtime/sync.c\<close>. Mutual exclusion and hand-over of the mutex under all races of its atomic
    accesses; reader-writer exclusion; wait groups, barriers and condition variables with the threads they wake.
  \<^item> \<open>Runq\<close>, \<open>Sched\<close>, \<open>Sched_Machine\<close>: \<open>runtime/sched.c\<close>, \<open>runtime/softirq.c\<close>. Ring and overflow list are one queue;
    a ready thread is in exactly one queue; stealing loses nothing and balances the queues.
  \<^item> \<open>Bitmap\<close>: \<open>inc/base/bitmap.h\<close>, \<open>base/bitmap.c\<close>. Bitmaps are sets of positions; the searches are exact; the parser of core
    lists reads what is printed.
  \<^item> \<open>CList\<close>: \<open>inc/base/list.h\<close>, \<open>base/list.c\<close>. The pointer lists implement sequences (locales \<open>node_stack\<close>, \<open>node_queue\<close>).
  \<^item> \<open>Tcache\<close>, \<open>Mempool\<close>, \<open>Stack\<close>: \<open>base/tcache.c\<close>, \<open>base/mempool.c\<close>, \<open>runtime/stack.c\<close>. A thread cache over any backend
    (locale \<open>item_backend\<close>) hands out no item twice; the backends are memory pools and thread stacks.
  \<^item> \<open>Mbuf\<close>, \<open>Chksum\<close>: \<open>inc/net/mbuf.h\<close>, \<open>inc/base/byteorder.h\<close>, \<open>inc/net/chksum.h\<close>. Which buffer operations keep
    buffers well formed and undo each other; a stored checksum verifies.
  \<^item> \<open>Tcp\<close>, \<open>Tcp_In\<close>: the state of a connection, \<open>runtime/net/tcp_out.c\<close> and \<open>runtime/net/tcp_in.c\<close>. These are definitions.
  \<^item> \<open>Tcp_Reass\<close>, \<open>Tcp_Rx\<close>, \<open>Tcp_Stream\<close>: the ingress path on packets of the peer. The invariant \<open>conn_inv\<close> relates a connection to
    the stream of the peer: \<open>r\<close> bytes read, bytes received up to \<open>n\<close>, the window up to \<open>R\<close>. Every packet keeps it, on the fast and
    on the slow path, and no packet faults. Where the code fails on a FIN beyond the window is a theorem as well.
  \<^item> \<open>Transport\<close>: \<open>runtime/net/transport.c\<close>. The hashed table is a map of sockets (locale \<open>socket_table\<close>), for any hash.
  \<^item> \<open>Tcp_Conn\<close>: \<open>runtime/net/tcp.c\<close> and the listener of \<open>runtime/net/tcp_in.c\<close>. These are definitions.
  \<^item> \<open>Tcp_Read\<close>, \<open>Tcp_Readv\<close>: the reader gets the stream of the peer over any interleaving of packets and reads; a
    vectored read is a read; a read that stops inside the last segment loses the rest.
  \<^item> \<open>Tcp_Listen\<close>: the listening queue under concurrent packet handlers and accepting threads.
  \<^item> \<open>Tcp_Options\<close>: headers and options survive the wire; an option of length zero makes the parser loop.

  \<^bold>\<open>Bounds.\<close> The stream theorems hold for streams of any length: positions are natural numbers and sequence numbers their
  residues. They assume a receive window below \<open>2 ^ 29\<close> and packets within \<open>2 ^ 30\<close> of the next expected byte, where
  the comparisons of sequence numbers agree with those of positions; the runtime's windows are far smaller. In a
  session a call of \<open>tcp_read\<close> is one step, and the peer does not send a FIN beyond the window.

  \<^bold>\<open>Not modelled.\<close> The page, slab and general allocators (memory is an argument of the code that asks for it); RCU grace
  periods (an RCU section is one step); user interrupts, signals, context switches and the rest of the assembly;
  kthread parking and start-up, configuration, statistics and storage, which are calls to the system; IP, ARP, ICMP and UDP, of which
  TCP sees only the results of \<open>net_tx_ip\<close> and the transmit pool; the drivers of the direct path; the iokernel and the
  kernel module; breakwater; the shim, the bindings, applications and tests. Of \<open>runtime/net/tcp.c\<close>, dialling with
  affinity and the start of the worker thread. Memory ordering is that of sequential consistency
  with the stores in the order of the code.
\<close>

end
